theory Spec2Isabelle
  imports Complex_Main
begin

unbundle bit_operations_syntax

section \<open>The delta-rule recurrent state engine (fla/ops/delta\_rule/fused\_recurrent.py)\<close>

text \<open>
  A shallow embedding of the two Triton kernels, of the two host functions that allocate
  their buffers and launch them, of the autograd function and of the public wrapper.

  Conventions of the embedding.
  \<^item> Tensor elements are of a type \<open>'a\<close> that has \<open>0\<close>, \<open>+\<close>, \<open>-\<close> and \<open>*\<close> and no law about
    them: the kernels compute in float32, whose operations round, overflow to infinity and
    produce NaN, and whatever is proved of the embedding for every such \<open>'a\<close> holds of
    float32.  The operations of Triton and PyTorch whose result the source does not
    determine (the order in which \<open>tl.sum\<close> and \<open>x.sum(0)\<close> add, the conversions
    \<open>.to(tl.float32)\<close> and \<open>.to(p.dtype.element_ty)\<close>, the conversion of the Python float
    \<open>scale\<close>) are the fields of a record \<open>prims\<close>, a parameter of every function below.
    \<open>exact\<close> is the instance on \<^typ>\<open>real\<close> where nothing rounds.
  \<^item> A buffer is the flat memory behind a contiguous tensor: a function from element
    offsets to values. A pointer is an offset into its buffer. Offsets and sizes are
    \<^typ>\<open>nat\<close>; where the source forms \<open>T - 1\<close> or steps a pointer backwards, the
    truncated difference differs from the source only for an offset that is never
    dereferenced (a loop that does not run, or the pointer left after the last iteration).
  \<^item> A block value (\<open>tl.arange(0, n)\<close> lanes) is a function on lanes; reductions
    (\<open>tl.sum\<close>) range over the lanes of the block.
  \<^item> Freshly allocated memory (\<open>new_empty\<close>, \<open>empty_like\<close>) has arbitrary contents: the
    host functions take them as the parameter \<open>fresh\<close>, one buffer per allocation.
  \<^item> A kernel launch runs the programs of the grid one after the other.
\<close>

subsection \<open>Errors, tensors, buffers\<close>

datatype error =
    ValueError string
  | AssertionError string
  | ZeroDivisionError
  | IndexError
  | TypeError
  | RuntimeError

type_synonym 'a buffer = "nat \<Rightarrow> 'a"

record 'a tensor =
  shape :: "nat list"
  data :: "'a buffer"
  requires_grad :: bool

text \<open>The operations the source leaves to Triton and PyTorch: \<open>tl.sum\<close> over an axis of
  \<open>n\<close> lanes, \<open>.to(tl.float32)\<close>, \<open>.to(p.dtype.element_ty)\<close> for the element type of
  the input tensors, the conversion of a Python float passed to a kernel, and \<open>x.sum(0)\<close>
  over \<open>n\<close> slices.\<close>

record 'a prims =
  tl_sum :: "nat \<Rightarrow> (nat \<Rightarrow> 'a) \<Rightarrow> 'a"
  to_f32 :: "'a \<Rightarrow> 'a"
  to_elem :: "'a \<Rightarrow> 'a"
  of_float :: "real \<Rightarrow> 'a"
  torch_sum :: "nat \<Rightarrow> (nat \<Rightarrow> 'a) \<Rightarrow> 'a"

text \<open>Exact arithmetic: the elements are real numbers, the sums are sums and nothing is
  converted.\<close>

definition exact :: "real prims" where
  "exact = \<lparr>tl_sum = (\<lambda>n f. \<Sum>i<n. f i), to_f32 = (\<lambda>x. x), to_elem = (\<lambda>x. x),
            of_float = (\<lambda>x. x), torch_sum = (\<lambda>n f. \<Sum>i<n. f i)\<rparr>"

definition ebind :: "error + 'a \<Rightarrow> ('a \<Rightarrow> error + 'b) \<Rightarrow> error + 'b" where
  "ebind m f = (case m of Inl e \<Rightarrow> Inl e | Inr x \<Rightarrow> f x)"

definition numel :: "nat list \<Rightarrow> nat" where
  "numel s = prod_list s"

text \<open>\<open>x.new_empty(shape)\<close>, \<open>torch.empty_like(x)\<close>: uninitialised contents.\<close>

definition new_empty :: "nat list \<Rightarrow> 'a buffer \<Rightarrow> 'a tensor" where
  "new_empty s contents = \<lparr>shape = s, data = contents, requires_grad = False\<rparr>"

text \<open>\<open>x.sum(0)\<close> of a contiguous tensor whose leading dimension is \<open>n\<close>.\<close>

definition sum0 :: "'a prims \<Rightarrow> nat \<Rightarrow> nat list \<Rightarrow> 'a buffer \<Rightarrow> 'a tensor" where
  "sum0 P n s m =
     \<lparr>shape = s, data = (\<lambda>a. torch_sum P n (\<lambda>i. m (i * numel s + a))), requires_grad = False\<rparr>"

subsection \<open>Library functions of Triton used by the host code\<close>

text \<open>
  \<open>triton.next_power_of_2\<close> (\<open>n -= 1; n |= n >> 1; ...; n |= n >> 32; n += 1\<close>) and
  \<open>triton.cdiv(x, y) = (x + y - 1) // y\<close>, on Python integers.
\<close>

definition next_power_of_2 :: "int \<Rightarrow> int" where
  "next_power_of_2 n0 =
     (let n = n0 - 1;
          n = n OR drop_bit 1 n;
          n = n OR drop_bit 2 n;
          n = n OR drop_bit 4 n;
          n = n OR drop_bit 8 n;
          n = n OR drop_bit 16 n;
          n = n OR drop_bit 32 n
      in n + 1)"

definition cdiv :: "nat \<Rightarrow> nat \<Rightarrow> error + nat" where
  "cdiv x y = (if y = 0 then Inl ZeroDivisionError else Inr ((x + y - 1) div y))"

subsection \<open>Block loads and stores\<close>

text \<open>\<open>tl.load(p + tl.arange(0, n), mask=mask, other=0)\<close>.\<close>

definition load :: "('a::zero) buffer \<Rightarrow> nat \<Rightarrow> nat \<Rightarrow> (nat \<Rightarrow> bool) \<Rightarrow> nat \<Rightarrow> 'a" where
  "load m p n msk = (\<lambda>j. if j < n \<and> msk j then m (p + j) else 0)"

text \<open>\<open>tl.store(p + tl.arange(0, n), val, mask=mask)\<close>: lane \<open>j\<close> goes to offset \<open>p + j\<close>.\<close>

definition store :: "'a buffer \<Rightarrow> nat \<Rightarrow> nat \<Rightarrow> (nat \<Rightarrow> bool) \<Rightarrow> (nat \<Rightarrow> 'a) \<Rightarrow> 'a buffer" where
  "store m p n msk val =
     (\<lambda>a. if p \<le> a \<and> a < p + n \<and> msk (a - p) then val (a - p) else m a)"

text \<open>
  The two-dimensional accesses to a state matrix \<open>[N, H, K, V]\<close>: lane \<open>(i, j)\<close> of the
  \<open>BK \<times> BV\<close> block is at \<open>base + (i_k * BK + i) * V + (i_v * BV + j)\<close>, under
  \<open>mask_k[i] & mask_v[j]\<close>.
\<close>

definition state_addr :: "nat \<Rightarrow> nat \<Rightarrow> nat \<Rightarrow> nat \<Rightarrow> nat \<Rightarrow> nat \<Rightarrow> nat \<Rightarrow> nat \<Rightarrow> nat" where
  "state_addr base V BK BV i_k i_v i j = base + (i_k * BK + i) * V + (i_v * BV + j)"

definition load_state ::
  "('a::zero) buffer \<Rightarrow> (nat \<Rightarrow> nat \<Rightarrow> nat) \<Rightarrow> nat \<Rightarrow> nat \<Rightarrow> (nat \<Rightarrow> bool) \<Rightarrow> (nat \<Rightarrow> bool) \<Rightarrow> nat \<Rightarrow> nat \<Rightarrow> 'a" where
  "load_state m addr BK BV mask_k mask_v =
     (\<lambda>i j. if i < BK \<and> j < BV \<and> mask_k i \<and> mask_v j then m (addr i j) else 0)"

definition store_state ::
  "'a buffer \<Rightarrow> (nat \<Rightarrow> nat \<Rightarrow> nat) \<Rightarrow> nat \<Rightarrow> nat \<Rightarrow> (nat \<Rightarrow> bool) \<Rightarrow> (nat \<Rightarrow> bool) \<Rightarrow> (nat \<Rightarrow> nat \<Rightarrow> 'a) \<Rightarrow> 'a buffer" where
  "store_state m addr BK BV mask_k mask_v val =
     fold (\<lambda>(i, j) m'. if mask_k i \<and> mask_v j then m'(addr i j := val i j) else m')
       (List.product [0..<BK] [0..<BV]) m"

subsection \<open>Launching a kernel over a grid\<close>

definition programs :: "nat \<times> nat \<times> nat \<Rightarrow> (nat \<times> nat \<times> nat) list" where
  "programs g = (case g of (n0, n1, n2) \<Rightarrow>
     concat (map (\<lambda>i2. concat (map (\<lambda>i1. map (\<lambda>i0. (i0, i1, i2)) [0..<n0]) [0..<n1])) [0..<n2]))"

definition launch :: "nat \<times> nat \<times> nat \<Rightarrow> (nat \<times> nat \<times> nat \<Rightarrow> 'm \<Rightarrow> 'm) \<Rightarrow> 'm \<Rightarrow> 'm" where
  "launch g kern m = fold kern (programs g) m"

subsection \<open>The forward kernel\<close>

record 'a fwd_args =
  fa_q :: "'a buffer"
  fa_k :: "'a buffer"
  fa_v :: "'a buffer"
  fa_beta :: "'a buffer"
  fa_h0 :: "'a buffer option"
  fa_cu_seqlens :: "nat list option"
  fa_scale :: 'a
  fa_T :: nat
  fa_B :: nat
  fa_H :: nat
  fa_K :: nat
  fa_V :: nat
  fa_BK :: nat
  fa_BV :: nat
  fa_IS_BETA_HEADWISE :: bool

text \<open>The buffers the forward kernel writes: \<open>u\<close>, \<open>o\<close> and (when requested) \<open>ht\<close>.\<close>

record 'a fwd_mem =
  fm_u :: "'a buffer"
  fm_o :: "'a buffer"
  fm_ht :: "'a buffer option"

text \<open>The variables of the time loop: the six pointers, the state block and the two
  buffers the loop stores into.\<close>

record 'a fwd_loop =
  fl_p_q :: nat
  fl_p_k :: nat
  fl_p_v :: nat
  fl_p_u :: nat
  fl_p_beta :: nat
  fl_p_o :: nat
  fl_b_h :: "nat \<Rightarrow> nat \<Rightarrow> 'a"
  fl_u :: "'a buffer"
  fl_o :: "'a buffer"

text \<open>Lines 45--51: the sequence's first and last offset, the total length and its own
  length.  Result: \<open>(bos, eos, all, T)\<close>.\<close>

definition seq_bounds :: "nat list option \<Rightarrow> nat \<Rightarrow> nat \<Rightarrow> nat \<Rightarrow> nat \<times> nat \<times> nat \<times> nat" where
  "seq_bounds cu_seqlens B T i_n =
     (case cu_seqlens of
        Some cu \<Rightarrow> (cu ! i_n, cu ! (i_n + 1), T, cu ! (i_n + 1) - cu ! i_n)
      | None \<Rightarrow> (i_n * T, i_n * T + T, B * T, T))"

text \<open>Lines 73--94: one time step.  \<open>b_h\<close> is the \<open>[BV, BK]\<close> block, indexed \<open>b_h j i\<close>;
  \<open>tl.sum(x, axis=1)\<close> reduces each row \<open>j\<close> over its \<open>BK\<close> lanes.\<close>

definition fwd_step ::
  "('a::{zero,plus,minus,times}) prims \<Rightarrow> 'a fwd_args \<Rightarrow> (nat \<Rightarrow> bool) \<Rightarrow> (nat \<Rightarrow> bool) \<Rightarrow> 'a fwd_loop \<Rightarrow> 'a fwd_loop" where
  "fwd_step P A mask_k mask_v s =
     (let BK = fa_BK A; BV = fa_BV A; H = fa_H A; K = fa_K A; V = fa_V A;
          b_k = (\<lambda>i. to_f32 P (load (fa_k A) (fl_p_k s) BK mask_k i));
          b_v = (\<lambda>j. to_f32 P (load (fa_v A) (fl_p_v s) BV mask_v j));
          b_q = (\<lambda>i. to_f32 P (load (fa_q A) (fl_p_q s) BK mask_k i) * fa_scale A);
          b_v_minus = (\<lambda>j. tl_sum P BK (\<lambda>i. fl_b_h s j i * b_k i));
          b_v = (\<lambda>j. b_v j - b_v_minus j);
          b_beta = (if fa_IS_BETA_HEADWISE A
                    then (\<lambda>j. to_f32 P (load (fa_beta A) (fl_p_beta s) BV mask_v j))
                    else (\<lambda>j. to_f32 P (fa_beta A (fl_p_beta s))));
          u' = store (fl_u s) (fl_p_u s) BV mask_v (\<lambda>j. to_elem P (b_v j));
          b_v = (\<lambda>j. b_v j * b_beta j);
          b_h = (\<lambda>j i. fl_b_h s j i + b_k i * b_v j);
          b_o = (\<lambda>j. tl_sum P BK (\<lambda>i. b_h j i * b_q i));
          o' = store (fl_o s) (fl_p_o s) BV mask_v (\<lambda>j. to_elem P (b_o j))
      in \<lparr>fl_p_q = fl_p_q s + H * K,
          fl_p_k = fl_p_k s + H * K,
          fl_p_v = fl_p_v s + H * V,
          fl_p_u = fl_p_u s + H * V,
          fl_p_beta = fl_p_beta s + H * (if fa_IS_BETA_HEADWISE A then V else 1),
          fl_p_o = fl_p_o s + H * V,
          fl_b_h = b_h,
          fl_u = u',
          fl_o = o'\<rparr>)"

text \<open>Lines 43--98: one program of the grid.  The final state \<open>ht\<close> is a float32 tensor
  (line 274), so that line 98 converts to float32.\<close>

definition fused_recurrent_delta_rule_fwd_kernel ::
  "('a::{zero,plus,minus,times}) prims \<Rightarrow> 'a fwd_args \<Rightarrow> nat \<times> nat \<times> nat \<Rightarrow> 'a fwd_mem \<Rightarrow> 'a fwd_mem" where
  "fused_recurrent_delta_rule_fwd_kernel P A pid M =
     (case pid of (i_v, i_k, i_nh) \<Rightarrow>
      let BK = fa_BK A; BV = fa_BV A; H = fa_H A; K = fa_K A; V = fa_V A;
          i_n = i_nh div H; i_h = i_nh mod H
      in case seq_bounds (fa_cu_seqlens A) (fa_B A) (fa_T A) i_n of (bos, eos, all_t, T) \<Rightarrow>
      let p_q = (bos * H + i_h) * K + i_k * BK;
          p_k = (bos * H + i_h) * K + i_k * BK;
          p_v = (bos * H + i_h) * V + i_v * BV;
          p_u = (bos * H + i_h) * V + i_v * BV;
          p_beta = (if fa_IS_BETA_HEADWISE A
                    then (bos * H + i_h) * V + i_v * BV
                    else bos * H + i_h);
          p_o = ((i_k * all_t + bos) * H + i_h) * V + i_v * BV;
          mask_k = (\<lambda>i. i_k * BK + i < K);
          mask_v = (\<lambda>j. i_v * BV + j < V);
          addr_h = state_addr (i_nh * K * V) V BK BV i_k i_v;
          b_h = (case fa_h0 A of
                   None \<Rightarrow> (\<lambda>j i. 0)
                 | Some h0 \<Rightarrow> (\<lambda>j i. 0 + to_f32 P (load_state h0 addr_h BK BV mask_k mask_v i j)));
          s = ((fwd_step P A mask_k mask_v) ^^ T)
                \<lparr>fl_p_q = p_q, fl_p_k = p_k, fl_p_v = p_v, fl_p_u = p_u, fl_p_beta = p_beta,
                 fl_p_o = p_o, fl_b_h = b_h, fl_u = fm_u M, fl_o = fm_o M\<rparr>
      in \<lparr>fm_u = fl_u s,
          fm_o = fl_o s,
          fm_ht = (case fm_ht M of
                     None \<Rightarrow> None
                   | Some ht \<Rightarrow>
                       Some (store_state ht addr_h BK BV mask_k mask_v
                               (\<lambda>i j. to_f32 P (fl_b_h s j i))))\<rparr>)"

subsection \<open>The forward host function\<close>

text \<open>The arguments of the launch, lines 280--300.\<close>

definition fwd_launch_args ::
  "'a prims \<Rightarrow> 'a tensor \<Rightarrow> 'a tensor \<Rightarrow> 'a tensor \<Rightarrow> 'a tensor \<Rightarrow> real \<Rightarrow> 'a tensor option \<Rightarrow>
   nat list option \<Rightarrow> nat \<Rightarrow> nat \<Rightarrow> nat \<Rightarrow> nat \<Rightarrow> nat \<Rightarrow> nat \<Rightarrow> nat \<Rightarrow> 'a fwd_args" where
  "fwd_launch_args P q k v beta scale initial_state cu_seqlens T B H K V BK BV =
     \<lparr>fa_q = data q, fa_k = data k, fa_v = data v, fa_beta = data beta,
      fa_h0 = map_option data initial_state, fa_cu_seqlens = cu_seqlens,
      fa_scale = of_float P scale, fa_T = T, fa_B = B, fa_H = H, fa_K = K, fa_V = V,
      fa_BK = BK, fa_BV = BV,
      fa_IS_BETA_HEADWISE = (length (shape beta) = length (shape v))\<rparr>"

text \<open>Lines 267--303, as a function of the block sizes \<open>BK\<close> and \<open>BV\<close> chosen on line 266.
  \<open>fresh 0\<close>, \<open>fresh 1\<close> and \<open>fresh 2\<close> are the uninitialised contents of \<open>o\<close>,
  \<open>final_state\<close> and \<open>u\<close>.  \<open>N\<close> is \<open>-1\<close> for an empty \<open>cu_seqlens\<close>: then the allocation
  of a final state fails, and without it the grid has no program.\<close>

definition fwd_blocks ::
  "('a::{zero,plus,minus,times}) prims \<Rightarrow> 'a tensor \<Rightarrow> 'a tensor \<Rightarrow> 'a tensor \<Rightarrow> 'a tensor \<Rightarrow> real \<Rightarrow> 'a tensor option \<Rightarrow>
   bool \<Rightarrow> nat list option \<Rightarrow> (nat \<Rightarrow> 'a buffer) \<Rightarrow> nat \<Rightarrow> nat \<Rightarrow> nat \<Rightarrow> nat \<Rightarrow> nat \<Rightarrow> int \<Rightarrow> nat \<Rightarrow> nat \<Rightarrow>
   error + ('a tensor \<times> 'a tensor \<times> 'a tensor option)" where
  "fwd_blocks P q k v beta scale initial_state output_final_state cu_seqlens fresh B T H K V N BK BV =
     ebind (cdiv K BK) (\<lambda>NK. ebind (cdiv V BV) (\<lambda>NV.
       if NK \<noteq> 1 then Inl (AssertionError ''NK > 1 is not supported yet'')
       else if N < 0 \<and> output_final_state then Inl RuntimeError
       else
         let o_t = new_empty (NK # shape v) (fresh 0);
             final_state = (if output_final_state
                            then Some (new_empty [nat N, H, K, V] (fresh 1))
                            else None);
             grid = (NV, NK, nat N * H);
             u = new_empty (shape v) (fresh 2);
             M = launch grid
                   (fused_recurrent_delta_rule_fwd_kernel P
                      (fwd_launch_args P q k v beta scale initial_state cu_seqlens T B H K V BK BV))
                   \<lparr>fm_u = data u, fm_o = data o_t, fm_ht = map_option data final_state\<rparr>
         in Inr (o_t\<lparr>shape := shape v, data := fm_o M\<rparr>,
                 u\<lparr>data := fm_u M\<rparr>,
                 (case (final_state, fm_ht M) of
                    (Some f, Some ht) \<Rightarrow> Some (f\<lparr>data := ht\<rparr>)
                  | _ \<Rightarrow> None))))"

text \<open>Lines 264--266, then the above.\<close>

definition fused_recurrent_delta_rule_fwd ::
  "('a::{zero,plus,minus,times}) prims \<Rightarrow> 'a tensor \<Rightarrow> 'a tensor \<Rightarrow> 'a tensor \<Rightarrow> 'a tensor \<Rightarrow> real \<Rightarrow> 'a tensor option \<Rightarrow>
   bool \<Rightarrow> nat list option \<Rightarrow> (nat \<Rightarrow> 'a buffer) \<Rightarrow> error + ('a tensor \<times> 'a tensor \<times> 'a tensor option)" where
  "fused_recurrent_delta_rule_fwd P q k v beta scale initial_state output_final_state cu_seqlens fresh =
     (case shape k of
        [B, T, H, K] \<Rightarrow>
          (if shape v = [] then Inl IndexError else
           let V = last (shape v);
               N = (case cu_seqlens of None \<Rightarrow> int B | Some cu \<Rightarrow> int (length cu) - 1);
               BK = nat (next_power_of_2 (int K));
               BV = min (nat (next_power_of_2 (int V))) 8
           in fwd_blocks P q k v beta scale initial_state output_final_state cu_seqlens fresh
                B T H K V N BK BV)
      | _ \<Rightarrow> Inl (ValueError ''not enough or too many values to unpack''))"

subsection \<open>The backward kernel\<close>

record 'a bwd_args =
  ba_q :: "'a buffer"
  ba_k :: "'a buffer"
  ba_v :: "'a buffer"
  ba_beta :: "'a buffer"
  ba_h0 :: "'a buffer option"
  ba_dht :: "'a buffer option"
  ba_do :: "'a buffer"
  ba_cu_seqlens :: "nat list option"
  ba_scale :: 'a
  ba_B :: nat
  ba_T :: nat
  ba_H :: nat
  ba_K :: nat
  ba_V :: nat
  ba_BK :: nat
  ba_BV :: nat
  ba_NK :: nat
  ba_IS_BETA_HEADWISE :: bool

text \<open>The buffers the backward kernel writes: \<open>dq\<close>, \<open>dk\<close>, \<open>dv\<close>, \<open>db\<close> and \<open>dh0\<close>, which
  the host passes as \<open>None\<close> when it allocates no initial-state gradient.\<close>

record 'a bwd_mem =
  bm_dq :: "'a buffer"
  bm_dk :: "'a buffer"
  bm_dv :: "'a buffer"
  bm_db :: "'a buffer"
  bm_dh0 :: "'a buffer option"

text \<open>The variables of the first loop (lines 166--198, time running backwards).
  \<open>b_dh\<close> is the \<open>[BK, BV]\<close> block, indexed \<open>b_dh i j\<close>.\<close>

record 'a bwd_loop_a =
  la_p_q :: nat
  la_p_k :: nat
  la_p_v :: nat
  la_p_do :: nat
  la_p_dk :: nat
  la_p_dv :: nat
  la_p_dbeta :: nat
  la_p_beta :: nat
  la_b_dh :: "nat \<Rightarrow> nat \<Rightarrow> 'a"
  la_dk :: "'a buffer"
  la_dv :: "'a buffer"
  la_db :: "'a buffer"

definition bwd_step_a ::
  "('a::{zero,plus,minus,times}) prims \<Rightarrow> 'a bwd_args \<Rightarrow> (nat \<Rightarrow> bool) \<Rightarrow> (nat \<Rightarrow> bool) \<Rightarrow> 'a bwd_loop_a \<Rightarrow> 'a bwd_loop_a" where
  "bwd_step_a P A mask_k mask_v s =
     (let BK = ba_BK A; BV = ba_BV A; H = ba_H A; K = ba_K A; V = ba_V A;
          b_q = (\<lambda>i. to_f32 P (load (ba_q A) (la_p_q s) BK mask_k i) * ba_scale A);
          b_k = (\<lambda>i. to_f32 P (load (ba_k A) (la_p_k s) BK mask_k i));
          b_v = (\<lambda>j. to_f32 P (load (ba_v A) (la_p_v s) BV mask_v j));
          b_do = (\<lambda>j. to_f32 P (load (ba_do A) (la_p_do s) BV mask_v j));
          b_beta = (if ba_IS_BETA_HEADWISE A
                    then (\<lambda>j. to_f32 P (load (ba_beta A) (la_p_beta s) BV mask_v j))
                    else (\<lambda>j. to_f32 P (ba_beta A (la_p_beta s))));
          b_dh = (\<lambda>i j. la_b_dh s i j + b_q i * b_do j);
          b_dk = (\<lambda>i. tl_sum P BV (\<lambda>j. b_dh i j * (b_v j * b_beta j)));
          b_dv = (\<lambda>j. tl_sum P BK (\<lambda>i. b_dh i j * b_k i));
          b_db_vector = (\<lambda>j. b_dv j * b_v j);
          b_db_scalar = tl_sum P BV (\<lambda>j. b_dv j * b_v j);
          b_dv = (\<lambda>j. b_dv j * b_beta j);
          dk' = store (la_dk s) (la_p_dk s) BK mask_k (\<lambda>i. to_elem P (b_dk i));
          dv' = store (la_dv s) (la_p_dv s) BV mask_v (\<lambda>j. to_elem P (b_dv j));
          db' = (if ba_IS_BETA_HEADWISE A
                 then store (la_db s) (la_p_dbeta s) BV mask_v (\<lambda>j. to_elem P (b_db_vector j))
                 else (la_db s)(la_p_dbeta s := to_elem P b_db_scalar));
          b_dh = (\<lambda>i j. b_dh i j - b_k i * b_dv j)
      in \<lparr>la_p_q = la_p_q s - H * K,
          la_p_k = la_p_k s - H * K,
          la_p_v = la_p_v s - H * V,
          la_p_do = la_p_do s - H * V,
          la_p_dk = la_p_dk s - H * K,
          la_p_dv = la_p_dv s - H * V,
          la_p_dbeta = la_p_dbeta s - H * (if ba_IS_BETA_HEADWISE A then V else 1),
          la_p_beta = la_p_beta s - H * (if ba_IS_BETA_HEADWISE A then V else 1),
          la_b_dh = b_dh,
          la_dk = dk',
          la_dv = dv',
          la_db = db'\<rparr>)"

text \<open>The variables of the second loop (lines 225--251, time running forwards).  It
  reads \<open>dv\<close> and reads and rewrites \<open>dk\<close>, as the first loop left them.\<close>

record 'a bwd_loop_b =
  lb_p_k :: nat
  lb_p_v :: nat
  lb_p_do :: nat
  lb_p_dq :: nat
  lb_p_dk :: nat
  lb_p_dv :: nat
  lb_p_beta :: nat
  lb_b_h :: "nat \<Rightarrow> nat \<Rightarrow> 'a"
  lb_dq :: "'a buffer"
  lb_dk :: "'a buffer"

definition bwd_step_b ::
  "('a::{zero,plus,minus,times}) prims \<Rightarrow> 'a bwd_args \<Rightarrow> 'a buffer \<Rightarrow> (nat \<Rightarrow> bool) \<Rightarrow> (nat \<Rightarrow> bool) \<Rightarrow> 'a bwd_loop_b \<Rightarrow>
   'a bwd_loop_b" where
  "bwd_step_b P A dv mask_k mask_v s =
     (let BK = ba_BK A; BV = ba_BV A; H = ba_H A; K = ba_K A; V = ba_V A;
          b_dk = (\<lambda>i. to_f32 P (load (lb_dk s) (lb_p_dk s) BK mask_k i));
          b_dv = (\<lambda>j. to_f32 P (load dv (lb_p_dv s) BV mask_v j));
          b_dk = (\<lambda>i. b_dk i - tl_sum P BV (\<lambda>j. b_dv j * lb_b_h s i j));
          dk' = store (lb_dk s) (lb_p_dk s) BK mask_k (\<lambda>i. to_elem P (b_dk i));
          b_k = (\<lambda>i. to_f32 P (load (ba_k A) (lb_p_k s) BK mask_k i));
          b_v = (\<lambda>j. to_f32 P (load (ba_v A) (lb_p_v s) BV mask_v j));
          b_do = (\<lambda>j. to_f32 P (load (ba_do A) (lb_p_do s) BV mask_v j));
          b_beta = (if ba_IS_BETA_HEADWISE A
                    then (\<lambda>j. to_f32 P (load (ba_beta A) (lb_p_beta s) BV mask_v j))
                    else (\<lambda>j. to_f32 P (ba_beta A (lb_p_beta s))));
          b_v = (\<lambda>j. b_v j * b_beta j);
          b_h = (\<lambda>i j. lb_b_h s i j + b_k i * b_v j);
          d_q = (\<lambda>i. tl_sum P BV (\<lambda>j. b_h i j * b_do j) * ba_scale A);
          dq' = store (lb_dq s) (lb_p_dq s) BK mask_k (\<lambda>i. to_elem P (d_q i))
      in \<lparr>lb_p_k = lb_p_k s + H * K,
          lb_p_v = lb_p_v s + H * V,
          lb_p_do = lb_p_do s + H * V,
          lb_p_dq = lb_p_dq s + H * K,
          lb_p_dk = lb_p_dk s + H * K,
          lb_p_dv = lb_p_dv s + H * V,
          lb_p_beta = lb_p_beta s + H * (if ba_IS_BETA_HEADWISE A then V else 1),
          lb_b_h = b_h,
          lb_dq = dq',
          lb_dk = dk'\<rparr>)"

text \<open>Lines 135--251: one program of the grid.  \<open>USE_INITIAL_STATE\<close> is \<open>h0 is not None\<close>
  and \<open>USE_FINAL_STATE_GRADIENT\<close> is \<open>dht is not None\<close>.  Lines 200--202 form the pointer
  \<open>dh0 + \<dots>\<close> whenever \<open>h0\<close> is given: with \<open>dh0 = None\<close> that is an error.  \<open>dh0\<close> is a
  float32 tensor (line 337), so that line 202 converts to float32.\<close>

definition fused_recurrent_delta_rule_bwd_kernel ::
  "('a::{zero,plus,minus,times}) prims \<Rightarrow> 'a bwd_args \<Rightarrow> nat \<times> nat \<times> nat \<Rightarrow> 'a bwd_mem \<Rightarrow> error + 'a bwd_mem" where
  "fused_recurrent_delta_rule_bwd_kernel P A pid M =
     (case pid of (i_v, i_k, i_nh) \<Rightarrow>
      let BK = ba_BK A; BV = ba_BV A; H = ba_H A; K = ba_K A; V = ba_V A; NK = ba_NK A;
          i_n = i_nh div H; i_h = i_nh mod H
      in case seq_bounds (ba_cu_seqlens A) (ba_B A) (ba_T A) i_n of (bos, eos, all_t, T) \<Rightarrow>
      let mask_k = (\<lambda>i. i_k * BK + i < K);
          mask_v = (\<lambda>j. i_v * BV + j < V);
          p_q = (bos * H + i_h) * K + i_k * BK + (T - 1) * H * K;
          p_k = (bos * H + i_h) * K + i_k * BK + (T - 1) * H * K;
          p_v = (bos * H + i_h) * V + i_v * BV + (T - 1) * H * V;
          p_do = (bos * H + i_h) * V + i_v * BV + (T - 1) * H * V;
          p_dk = ((i_v * all_t + bos) * H + i_h) * K + i_k * BK + (T - 1) * H * K;
          p_dv = ((i_k * all_t + bos) * H + i_h) * V + i_v * BV + (T - 1) * H * V;
          p_beta = (if ba_IS_BETA_HEADWISE A
                    then (bos + T - 1) * H * V + i_h * V + i_v * BV
                    else (bos + T - 1) * H + i_h);
          p_dbeta = (if ba_IS_BETA_HEADWISE A
                     then ((i_v * NK + i_k) * all_t + bos + T - 1) * H * V + i_h * V
                     else (i_v * all_t + bos + T - 1) * H + i_h);
          addr_h = state_addr (i_nh * K * V) V BK BV i_k i_v;
          b_dh = (case ba_dht A of
                    None \<Rightarrow> (\<lambda>i j. 0)
                  | Some dht \<Rightarrow> (\<lambda>i j. 0 + to_f32 P (load_state dht addr_h BK BV mask_k mask_v i j)));
          sa = ((bwd_step_a P A mask_k mask_v) ^^ T)
                 \<lparr>la_p_q = p_q, la_p_k = p_k, la_p_v = p_v, la_p_do = p_do, la_p_dk = p_dk,
                  la_p_dv = p_dv, la_p_dbeta = p_dbeta, la_p_beta = p_beta, la_b_dh = b_dh,
                  la_dk = bm_dk M, la_dv = bm_dv M, la_db = bm_db M\<rparr>
      in ebind
           (case ba_h0 A of
              None \<Rightarrow> Inr (bm_dh0 M)
            | Some h0 \<Rightarrow>
                (case bm_dh0 M of
                   None \<Rightarrow> Inl TypeError
                 | Some dh0 \<Rightarrow>
                     Inr (Some (store_state dh0 addr_h BK BV mask_k mask_v
                                  (\<lambda>i j. to_f32 P (la_b_dh sa i j))))))
           (\<lambda>dh0'.
              let p_k = (bos * H + i_h) * K + i_k * BK;
                  p_v = (bos * H + i_h) * V + i_v * BV;
                  p_beta = (if ba_IS_BETA_HEADWISE A
                            then (bos * H + i_h) * V + i_v * BV
                            else bos * H + i_h);
                  p_do = (bos * H + i_h) * V + i_v * BV;
                  p_dq = ((i_v * all_t + bos) * H + i_h) * K + i_k * BK;
                  p_dk = ((i_v * all_t + bos) * H + i_h) * K + i_k * BK;
                  p_dv = ((i_k * all_t + bos) * H + i_h) * V + i_v * BV;
                  b_h = (case ba_h0 A of
                           None \<Rightarrow> (\<lambda>i j. 0)
                         | Some h0 \<Rightarrow> (\<lambda>i j. 0 + to_f32 P (load_state h0 addr_h BK BV mask_k mask_v i j)));
                  sb = ((bwd_step_b P A (la_dv sa) mask_k mask_v) ^^ T)
                         \<lparr>lb_p_k = p_k, lb_p_v = p_v, lb_p_do = p_do, lb_p_dq = p_dq,
                          lb_p_dk = p_dk, lb_p_dv = p_dv, lb_p_beta = p_beta, lb_b_h = b_h,
                          lb_dq = bm_dq M, lb_dk = la_dk sa\<rparr>
              in Inr \<lparr>bm_dq = lb_dq sb, bm_dk = lb_dk sb, bm_dv = la_dv sa, bm_db = la_db sa,
                      bm_dh0 = dh0'\<rparr>))"

text \<open>A launch whose programs can fail: the first error ends it.\<close>

definition launch_e ::
  "nat \<times> nat \<times> nat \<Rightarrow> (nat \<times> nat \<times> nat \<Rightarrow> 'm \<Rightarrow> error + 'm) \<Rightarrow> 'm \<Rightarrow> error + 'm" where
  "launch_e g kern m = fold (\<lambda>p r. ebind r (kern p)) (programs g) (Inr m)"

subsection \<open>The backward host function\<close>

text \<open>The arguments of the launch, lines 341--367.\<close>

definition bwd_launch_args ::
  "'a prims \<Rightarrow> 'a tensor \<Rightarrow> 'a tensor \<Rightarrow> 'a tensor \<Rightarrow> 'a tensor \<Rightarrow> 'a tensor option \<Rightarrow> 'a tensor \<Rightarrow> real \<Rightarrow>
   'a tensor option \<Rightarrow> nat list option \<Rightarrow> nat \<Rightarrow> nat \<Rightarrow> nat \<Rightarrow> nat \<Rightarrow> nat \<Rightarrow> nat \<Rightarrow> nat \<Rightarrow> nat \<Rightarrow>
   'a bwd_args" where
  "bwd_launch_args P q k v beta dht d_o scale initial_state cu_seqlens T B H K V BK BV NK =
     \<lparr>ba_q = data q, ba_k = data k, ba_v = data v, ba_beta = data beta,
      ba_h0 = map_option data initial_state, ba_dht = map_option data dht, ba_do = data d_o,
      ba_cu_seqlens = cu_seqlens, ba_scale = of_float P scale, ba_B = B, ba_T = T, ba_H = H, ba_K = K,
      ba_V = V, ba_BK = BK, ba_BV = BV, ba_NK = NK,
      ba_IS_BETA_HEADWISE = (length (shape beta) = length (shape v))\<rparr>"

text \<open>Lines 336--339: the initial-state gradient is allocated only for an initial state
  that requires a gradient.\<close>

definition alloc_dh0 :: "'a tensor option \<Rightarrow> 'a buffer \<Rightarrow> 'a tensor option" where
  "alloc_dh0 initial_state contents =
     (case initial_state of
        None \<Rightarrow> None
      | Some h \<Rightarrow> if requires_grad h then Some (new_empty (shape h) contents) else None)"

text \<open>Lines 320--373, as a function of the block sizes chosen on line 319.  \<open>fresh 0\<close> to
  \<open>fresh 4\<close> are the uninitialised contents of \<open>dq\<close>, \<open>dk\<close>, \<open>dv\<close>, \<open>db\<close> and \<open>dh0\<close>.\<close>

definition bwd_blocks ::
  "('a::{zero,plus,minus,times}) prims \<Rightarrow> 'a tensor \<Rightarrow> 'a tensor \<Rightarrow> 'a tensor \<Rightarrow> 'a tensor \<Rightarrow> 'a tensor option \<Rightarrow> 'a tensor \<Rightarrow>
   real \<Rightarrow> 'a tensor option \<Rightarrow> nat list option \<Rightarrow> (nat \<Rightarrow> 'a buffer) \<Rightarrow>
   nat \<Rightarrow> nat \<Rightarrow> nat \<Rightarrow> nat \<Rightarrow> nat \<Rightarrow> int \<Rightarrow> nat \<Rightarrow> nat \<Rightarrow>
   error + ('a tensor \<times> 'a tensor \<times> 'a tensor \<times> 'a tensor \<times> 'a tensor option)" where
  "bwd_blocks P q k v beta dht d_o scale initial_state cu_seqlens fresh B T H K V N BK BV =
     ebind (cdiv K BK) (\<lambda>NK. ebind (cdiv V BV) (\<lambda>NV.
       if NK \<noteq> 1 then Inl (AssertionError ''NK > 1 is not supported yet'')
       else
         let beta_vector = (length (shape beta) = length (shape v));
             dq = new_empty (NV # shape q) (fresh 0);
             dk = new_empty (NV # shape k) (fresh 1);
             dv = new_empty (NK # shape v) (fresh 2);
             db = (if beta_vector then new_empty [NV, NK, B, T, H, V] (fresh 3)
                   else new_empty [NV, B, T, H] (fresh 3));
             grid = (NV, NK, nat N * H);
             dh0 = alloc_dh0 initial_state (fresh 4)
         in ebind
              (launch_e grid
                 (fused_recurrent_delta_rule_bwd_kernel P
                    (bwd_launch_args P q k v beta dht d_o scale initial_state cu_seqlens
                       T B H K V BK BV NK))
                 \<lparr>bm_dq = data dq, bm_dk = data dk, bm_dv = data dv, bm_db = data db,
                  bm_dh0 = map_option data dh0\<rparr>)
              (\<lambda>M. Inr (sum0 P NV (shape q) (bm_dq M),
                         sum0 P NV (shape k) (bm_dk M),
                         sum0 P NK (shape v) (bm_dv M),
                         (if beta_vector then sum0 P (NV * NK) [B, T, H, V] (bm_db M)
                          else sum0 P NV [B, T, H] (bm_db M)),
                         (case (dh0, bm_dh0 M) of
                            (Some t, Some d) \<Rightarrow> Some (t\<lparr>data := d\<rparr>)
                          | _ \<Rightarrow> None)))))"

text \<open>Lines 317--319, then the above.\<close>

definition fused_recurrent_delta_rule_bwd ::
  "('a::{zero,plus,minus,times}) prims \<Rightarrow> 'a tensor \<Rightarrow> 'a tensor \<Rightarrow> 'a tensor \<Rightarrow> 'a tensor \<Rightarrow> 'a tensor option \<Rightarrow> 'a tensor \<Rightarrow>
   real \<Rightarrow> 'a tensor option \<Rightarrow> nat list option \<Rightarrow> (nat \<Rightarrow> 'a buffer) \<Rightarrow>
   error + ('a tensor \<times> 'a tensor \<times> 'a tensor \<times> 'a tensor \<times> 'a tensor option)" where
  "fused_recurrent_delta_rule_bwd P q k v beta dht d_o scale initial_state cu_seqlens fresh =
     (case shape k of
        [B, T, H, K] \<Rightarrow>
          (if shape v = [] then Inl IndexError else
           let V = last (shape v);
               N = (case cu_seqlens of None \<Rightarrow> int B | Some cu \<Rightarrow> int (length cu) - 1);
               BK = nat (next_power_of_2 (int K));
               BV = min (nat (next_power_of_2 (int V))) 32
           in bwd_blocks P q k v beta dht d_o scale initial_state cu_seqlens fresh B T H K V N BK BV)
      | _ \<Rightarrow> Inl (ValueError ''not enough or too many values to unpack''))"

subsection \<open>The autograd function and the public wrapper\<close>

text \<open>What \<open>forward\<close> leaves in \<open>ctx\<close> for \<open>backward\<close>.\<close>

record 'a ctx =
  cx_q :: "'a tensor"
  cx_q_rstd :: "'a tensor option"
  cx_k :: "'a tensor"
  cx_k_rstd :: "'a tensor option"
  cx_u :: "'a tensor"
  cx_beta :: "'a tensor"
  cx_initial_state :: "'a tensor option"
  cx_scale :: real
  cx_cu_seqlens :: "nat list option"
  cx_use_qk_l2norm_in_kernel :: bool

text \<open>Lines 380--413.  \<open>l2norm_fwd\<close> (of \<open>fla.modules.l2norm\<close>, returning the normalised
  tensor and its statistics) is a parameter.\<close>

definition FusedRecurrentFunction_forward ::
  "('a::{zero,plus,minus,times}) prims \<Rightarrow> ('a tensor \<Rightarrow> 'a tensor \<times> 'a tensor) \<Rightarrow> 'a tensor \<Rightarrow> 'a tensor \<Rightarrow> 'a tensor \<Rightarrow>
   'a tensor \<Rightarrow> real \<Rightarrow> 'a tensor option \<Rightarrow> bool \<Rightarrow> bool \<Rightarrow> nat list option \<Rightarrow> (nat \<Rightarrow> 'a buffer) \<Rightarrow>
   error + (('a tensor \<times> 'a tensor option) \<times> 'a ctx)" where
  "FusedRecurrentFunction_forward P l2norm_fwd q k v beta scale initial_state output_final_state
       use_qk_l2norm_in_kernel cu_seqlens fresh =
     (let (q, q_rstd) = (if use_qk_l2norm_in_kernel
                         then (fst (l2norm_fwd q), Some (snd (l2norm_fwd q))) else (q, None));
          (k, k_rstd) = (if use_qk_l2norm_in_kernel
                         then (fst (l2norm_fwd k), Some (snd (l2norm_fwd k))) else (k, None))
      in ebind (fused_recurrent_delta_rule_fwd P q k v beta scale initial_state output_final_state
                  cu_seqlens fresh)
           (\<lambda>(o_t, u, final_state).
              Inr ((o_t, final_state),
                   \<lparr>cx_q = q, cx_q_rstd = q_rstd, cx_k = k, cx_k_rstd = k_rstd, cx_u = u,
                    cx_beta = beta, cx_initial_state = initial_state, cx_scale = scale,
                    cx_cu_seqlens = cu_seqlens,
                    cx_use_qk_l2norm_in_kernel = use_qk_l2norm_in_kernel\<rparr>)))"

text \<open>Lines 417--433.  The saved value-delta \<open>u\<close> is what the backward kernel receives as
  \<open>v\<close>.  \<open>l2norm_bwd\<close> is a parameter; the gradients of the arguments that are not tensors
  are \<open>None\<close> and are left out.\<close>

definition FusedRecurrentFunction_backward ::
  "('a::{zero,plus,minus,times}) prims \<Rightarrow> ('a tensor \<Rightarrow> 'a tensor option \<Rightarrow> 'a tensor \<Rightarrow> 'a tensor) \<Rightarrow> 'a ctx \<Rightarrow> 'a tensor \<Rightarrow>
   'a tensor option \<Rightarrow> (nat \<Rightarrow> 'a buffer) \<Rightarrow>
   error + ('a tensor \<times> 'a tensor \<times> 'a tensor \<times> 'a tensor \<times> 'a tensor option)" where
  "FusedRecurrentFunction_backward P l2norm_bwd c d_o dht fresh =
     ebind (fused_recurrent_delta_rule_bwd P (cx_q c) (cx_k c) (cx_u c) (cx_beta c) dht d_o
              (cx_scale c) (cx_initial_state c) (cx_cu_seqlens c) fresh)
       (\<lambda>(dq, dk, dv, db, dh0).
          let dq = (if cx_use_qk_l2norm_in_kernel c then l2norm_bwd (cx_q c) (cx_q_rstd c) dq else dq);
              dk = (if cx_use_qk_l2norm_in_kernel c then l2norm_bwd (cx_k c) (cx_k_rstd c) dk else dk)
          in Inr (dq, dk, dv, db, dh0))"

text \<open>Lines 507--535, the public operation.  \<open>beta\<close> and \<open>scale\<close> are optional.\<close>

definition check_cu_seqlens :: "'a tensor \<Rightarrow> 'a tensor option \<Rightarrow> nat list option \<Rightarrow> error + unit" where
  "check_cu_seqlens q initial_state cu_seqlens =
     (case cu_seqlens of
        None \<Rightarrow> Inr ()
      | Some cu \<Rightarrow>
          (case shape q of
             [] \<Rightarrow> Inl IndexError
           | b # _ \<Rightarrow>
               if b \<noteq> 1
               then Inl (ValueError ''The batch size is expected to be 1 when using `cu_seqlens`.'')
               else (case initial_state of
                       None \<Rightarrow> Inr ()
                     | Some h0 \<Rightarrow>
                         (case shape h0 of
                            [] \<Rightarrow> Inl IndexError
                          | n # _ \<Rightarrow>
                              if int n \<noteq> int (length cu) - 1
                              then Inl (ValueError
                                ''The number of initial states is expected to be equal to the number of input sequences.'')
                              else Inr ()))))"

definition default_scale :: "'a tensor \<Rightarrow> real option \<Rightarrow> error + real" where
  "default_scale k scale =
     (case scale of
        None \<Rightarrow>
          (if shape k = [] then Inl IndexError
           else if last (shape k) = 0 then Inl ZeroDivisionError
           else Inr (1 / sqrt (real (last (shape k)))))
      | Some s \<Rightarrow> if s > 0 then Inr s else Inl (AssertionError ''scale must be positive''))"

definition default_beta :: "('a::one) tensor \<Rightarrow> 'a tensor option \<Rightarrow> error + 'a tensor" where
  "default_beta q beta =
     (case beta of
        None \<Rightarrow>
          (if shape q = [] \<or> last (shape q) = 0 then Inl IndexError
           else Inr \<lparr>shape = butlast (shape q), data = (\<lambda>a. 1), requires_grad = False\<rparr>)
      | Some b \<Rightarrow> Inr b)"

definition fused_recurrent_delta_rule ::
  "('a::{zero,one,plus,minus,times}) prims \<Rightarrow> ('a tensor \<Rightarrow> 'a tensor \<times> 'a tensor) \<Rightarrow> 'a tensor \<Rightarrow> 'a tensor \<Rightarrow> 'a tensor \<Rightarrow>
   'a tensor option \<Rightarrow> real option \<Rightarrow> 'a tensor option \<Rightarrow> bool \<Rightarrow> bool \<Rightarrow> nat list option \<Rightarrow>
   (nat \<Rightarrow> 'a buffer) \<Rightarrow> error + ('a tensor \<times> 'a tensor option)" where
  "fused_recurrent_delta_rule P l2norm_fwd q k v beta scale initial_state output_final_state
       use_qk_l2norm_in_kernel cu_seqlens fresh =
     ebind (check_cu_seqlens q initial_state cu_seqlens) (\<lambda>_.
     ebind (default_scale k scale) (\<lambda>scale.
     ebind (default_beta q beta) (\<lambda>beta.
     ebind (FusedRecurrentFunction_forward P l2norm_fwd q k v beta scale initial_state
              output_final_state use_qk_l2norm_in_kernel cu_seqlens fresh)
       (\<lambda>(r, c). Inr r))))"

section \<open>Reference semantics and layout\<close>

subsection \<open>Layout of contiguous tensors\<close>

text \<open>The offset of element \<open>[r, h, c]\<close> of a contiguous tensor \<open>[_, H, V]\<close>; with
  \<open>r = b * T + t\<close> it is element \<open>[b, t, h, c]\<close> of a tensor \<open>[B, T, H, V]\<close>.\<close>

definition cell :: "nat \<Rightarrow> nat \<Rightarrow> nat \<Rightarrow> nat \<Rightarrow> nat \<Rightarrow> nat" where
  "cell H V r h c = (r * H + h) * V + c"

text \<open>The rows of one (sequence, head): \<open>rows m H D bos h t i\<close> is element \<open>i\<close> of the
  vector at time \<open>bos + t\<close>, head \<open>h\<close>.  For \<open>beta\<close> the vector has one entry per value
  feature; in scalar mode they all are the scalar of the time step.\<close>

definition rows :: "'a buffer \<Rightarrow> nat \<Rightarrow> nat \<Rightarrow> nat \<Rightarrow> nat \<Rightarrow> nat \<Rightarrow> nat \<Rightarrow> 'a" where
  "rows m H D bos h = (\<lambda>t i. m (cell H D (bos + t) h i))"

definition beta_rows :: "'a buffer \<Rightarrow> bool \<Rightarrow> nat \<Rightarrow> nat \<Rightarrow> nat \<Rightarrow> nat \<Rightarrow> nat \<Rightarrow> nat \<Rightarrow> 'a" where
  "beta_rows m headwise H V bos h =
     (\<lambda>t j. if headwise then m (cell H V (bos + t) h j) else m ((bos + t) * H + h))"

text \<open>The \<open>K \<times> V\<close> state of unit \<open>nh = n * H + h\<close> in a tensor \<open>[N, H, K, V]\<close>; zero when
  the tensor is absent.\<close>

definition state_of :: "('a::zero) buffer option \<Rightarrow> nat \<Rightarrow> nat \<Rightarrow> nat \<Rightarrow> nat \<Rightarrow> nat \<Rightarrow> 'a" where
  "state_of m K V nh = (\<lambda>i j. case m of None \<Rightarrow> 0 | Some h0 \<Rightarrow> h0 (cell K V nh i j))"

subsection \<open>The recurrence of the specification (section 4.1)\<close>

text \<open>
  In exact arithmetic.  For one (sequence, head), with keys \<open>ks t\<close>, values \<open>vs t\<close>, update rates \<open>bs t\<close> and
  initial state \<open>H0\<close>: \<open>spec_state \<dots> t\<close> is the state before step \<open>t\<close>,
  \<open>delta_t = v_t - H \<cdot> k_t\<close>, \<open>v'_t = delta_t \<odot> beta_t\<close>, \<open>H \<leftarrow> H + k_t \<otimes> v'_t\<close>, and
  \<open>o_t = H \<cdot> (q_t \<cdot> scale)\<close> with the state after the update.
\<close>

primrec spec_state ::
  "nat \<Rightarrow> (nat \<Rightarrow> nat \<Rightarrow> real) \<Rightarrow> (nat \<Rightarrow> nat \<Rightarrow> real) \<Rightarrow> (nat \<Rightarrow> nat \<Rightarrow> real) \<Rightarrow> (nat \<Rightarrow> nat \<Rightarrow> real) \<Rightarrow>
   nat \<Rightarrow> nat \<Rightarrow> nat \<Rightarrow> real" where
  "spec_state K ks vs bs H0 0 = H0"
| "spec_state K ks vs bs H0 (Suc t) =
     (let H = spec_state K ks vs bs H0 t;
          delta = (\<lambda>j. vs t j - (\<Sum>i<K. H i j * ks t i));
          v' = (\<lambda>j. delta j * bs t j)
      in (\<lambda>i j. H i j + ks t i * v' j))"

definition spec_delta ::
  "nat \<Rightarrow> (nat \<Rightarrow> nat \<Rightarrow> real) \<Rightarrow> (nat \<Rightarrow> nat \<Rightarrow> real) \<Rightarrow> (nat \<Rightarrow> nat \<Rightarrow> real) \<Rightarrow> (nat \<Rightarrow> nat \<Rightarrow> real) \<Rightarrow>
   nat \<Rightarrow> nat \<Rightarrow> real" where
  "spec_delta K ks vs bs H0 t = (\<lambda>j. vs t j - (\<Sum>i<K. spec_state K ks vs bs H0 t i j * ks t i))"

definition spec_output ::
  "nat \<Rightarrow> real \<Rightarrow> (nat \<Rightarrow> nat \<Rightarrow> real) \<Rightarrow> (nat \<Rightarrow> nat \<Rightarrow> real) \<Rightarrow> (nat \<Rightarrow> nat \<Rightarrow> real) \<Rightarrow> (nat \<Rightarrow> nat \<Rightarrow> real) \<Rightarrow>
   (nat \<Rightarrow> nat \<Rightarrow> real) \<Rightarrow> nat \<Rightarrow> nat \<Rightarrow> real" where
  "spec_output K scale qs ks vs bs H0 t =
     (\<lambda>j. \<Sum>i<K. spec_state K ks vs bs H0 (Suc t) i j * (qs t i * scale))"

subsection \<open>The recurrence with the operations of the machine\<close>

text \<open>
  The same recurrence for an arithmetic \<open>P\<close> that need not be exact, where the order of the
  operations and the zero lanes matter.  A vector of \<open>K\<close> key features occupies \<open>BK \<ge> K\<close>
  lanes, the lanes from \<open>K\<close> on being zero; every operand is converted to float32; the
  contraction over the key features is one \<open>tl.sum\<close> over the \<open>BK\<close> lanes.  The state is
  indexed \<open>S i j\<close> with \<open>i\<close> a lane and \<open>j\<close> a value feature.
\<close>

definition lanes :: "('a::zero) prims \<Rightarrow> nat \<Rightarrow> (nat \<Rightarrow> 'a) \<Rightarrow> nat \<Rightarrow> 'a" where
  "lanes P K x = (\<lambda>i. to_f32 P (if i < K then x i else 0))"

primrec rec_state ::
  "('a::{zero,plus,minus,times}) prims \<Rightarrow> nat \<Rightarrow> nat \<Rightarrow> (nat \<Rightarrow> nat \<Rightarrow> 'a) \<Rightarrow> (nat \<Rightarrow> nat \<Rightarrow> 'a) \<Rightarrow>
   (nat \<Rightarrow> nat \<Rightarrow> 'a) \<Rightarrow> (nat \<Rightarrow> nat \<Rightarrow> 'a) \<Rightarrow> nat \<Rightarrow> nat \<Rightarrow> nat \<Rightarrow> 'a" where
  "rec_state P BK K ks vs bs S0 0 = S0"
| "rec_state P BK K ks vs bs S0 (Suc t) =
     (let S = rec_state P BK K ks vs bs S0 t;
          delta = (\<lambda>j. to_f32 P (vs t j) - tl_sum P BK (\<lambda>i. S i j * lanes P K (ks t) i));
          v' = (\<lambda>j. delta j * to_f32 P (bs t j))
      in (\<lambda>i j. S i j + lanes P K (ks t) i * v' j))"

definition rec_delta ::
  "('a::{zero,plus,minus,times}) prims \<Rightarrow> nat \<Rightarrow> nat \<Rightarrow> (nat \<Rightarrow> nat \<Rightarrow> 'a) \<Rightarrow> (nat \<Rightarrow> nat \<Rightarrow> 'a) \<Rightarrow>
   (nat \<Rightarrow> nat \<Rightarrow> 'a) \<Rightarrow> (nat \<Rightarrow> nat \<Rightarrow> 'a) \<Rightarrow> nat \<Rightarrow> nat \<Rightarrow> 'a" where
  "rec_delta P BK K ks vs bs S0 t =
     (\<lambda>j. to_f32 P (vs t j) - tl_sum P BK (\<lambda>i. rec_state P BK K ks vs bs S0 t i j * lanes P K (ks t) i))"

definition rec_output ::
  "('a::{zero,plus,minus,times}) prims \<Rightarrow> nat \<Rightarrow> nat \<Rightarrow> 'a \<Rightarrow> (nat \<Rightarrow> nat \<Rightarrow> 'a) \<Rightarrow> (nat \<Rightarrow> nat \<Rightarrow> 'a) \<Rightarrow>
   (nat \<Rightarrow> nat \<Rightarrow> 'a) \<Rightarrow> (nat \<Rightarrow> nat \<Rightarrow> 'a) \<Rightarrow> (nat \<Rightarrow> nat \<Rightarrow> 'a) \<Rightarrow> nat \<Rightarrow> nat \<Rightarrow> 'a" where
  "rec_output P BK K scale qs ks vs bs S0 t =
     (\<lambda>j. tl_sum P BK (\<lambda>i. rec_state P BK K ks vs bs S0 (Suc t) i j * (lanes P K (qs t) i * scale)))"

text \<open>The state at the start: zero, to which the initial state of unit \<open>nh\<close> is added when
  one is given.\<close>

definition rec_init ::
  "('a::{zero,plus}) prims \<Rightarrow> 'a buffer option \<Rightarrow> nat \<Rightarrow> nat \<Rightarrow> nat \<Rightarrow> nat \<Rightarrow> nat \<Rightarrow> 'a" where
  "rec_init P h0 K V nh =
     (\<lambda>i j. case h0 of None \<Rightarrow> 0
            | Some m \<Rightarrow> 0 + to_f32 P (if i < K then m (cell K V nh i j) else 0))"

subsection \<open>Auxiliary notions of the proofs\<close>

text \<open>The start of the time loop of the forward program for value block \<open>i_v\<close> of the
  unit whose rows start at \<open>bos\<close>, head \<open>h\<close>, with the state \<open>S0\<close> in the lanes of the
  value features of the block.\<close>

definition fwd_start :: "'a fwd_args \<Rightarrow> nat \<Rightarrow> nat \<Rightarrow> nat \<Rightarrow> (nat \<Rightarrow> nat \<Rightarrow> 'a) \<Rightarrow> 'a fwd_loop \<Rightarrow> bool" where
  "fwd_start A i_v bos h S0 s \<longleftrightarrow>
     fa_K A \<le> fa_BK A \<and>
     fl_p_q s = cell (fa_H A) (fa_K A) bos h 0 \<and>
     fl_p_k s = cell (fa_H A) (fa_K A) bos h 0 \<and>
     fl_p_v s = cell (fa_H A) (fa_V A) bos h (i_v * fa_BV A) \<and>
     fl_p_u s = cell (fa_H A) (fa_V A) bos h (i_v * fa_BV A) \<and>
     fl_p_o s = cell (fa_H A) (fa_V A) bos h (i_v * fa_BV A) \<and>
     fl_p_beta s = (if fa_IS_BETA_HEADWISE A then cell (fa_H A) (fa_V A) bos h (i_v * fa_BV A)
                    else bos * fa_H A + h) \<and>
     (\<forall>j. j < fa_BV A \<and> i_v * fa_BV A + j < fa_V A \<longrightarrow>
          fl_b_h s j = (\<lambda>i. S0 i (i_v * fa_BV A + j)))"

abbreviation fwd_run ::
  "('a::{zero,plus,minus,times}) prims \<Rightarrow> 'a fwd_args \<Rightarrow> nat \<Rightarrow> nat \<Rightarrow> 'a fwd_loop \<Rightarrow> 'a fwd_loop" where
  "fwd_run P A i_v t s \<equiv> (fwd_step P A (\<lambda>i. i < fa_K A) (\<lambda>j. i_v * fa_BV A + j < fa_V A) ^^ t) s"

abbreviation vk :: "'a fwd_args \<Rightarrow> nat \<Rightarrow> nat \<Rightarrow> nat \<Rightarrow> nat \<Rightarrow> 'a" where
  "vk A bos h \<equiv> rows (fa_k A) (fa_H A) (fa_K A) bos h"

abbreviation vq :: "'a fwd_args \<Rightarrow> nat \<Rightarrow> nat \<Rightarrow> nat \<Rightarrow> nat \<Rightarrow> 'a" where
  "vq A bos h \<equiv> rows (fa_q A) (fa_H A) (fa_K A) bos h"

abbreviation vv :: "'a fwd_args \<Rightarrow> nat \<Rightarrow> nat \<Rightarrow> nat \<Rightarrow> nat \<Rightarrow> 'a" where
  "vv A bos h \<equiv> rows (fa_v A) (fa_H A) (fa_V A) bos h"

abbreviation vb :: "'a fwd_args \<Rightarrow> nat \<Rightarrow> nat \<Rightarrow> nat \<Rightarrow> nat \<Rightarrow> 'a" where
  "vb A bos h \<equiv> beta_rows (fa_beta A) (fa_IS_BETA_HEADWISE A) (fa_H A) (fa_V A) bos h"

text \<open>The first row and the length of sequence \<open>n\<close>, as lines 45--51 compute them; the
  number of sequences; boundary arrays whose sequences do not overlap.\<close>

definition seq_bos :: "nat list option \<Rightarrow> nat \<Rightarrow> nat \<Rightarrow> nat \<Rightarrow> nat" where
  "seq_bos cu B T n = (case seq_bounds cu B T n of (bos, eos, all_t, T') \<Rightarrow> bos)"

definition seq_len :: "nat list option \<Rightarrow> nat \<Rightarrow> nat \<Rightarrow> nat \<Rightarrow> nat" where
  "seq_len cu B T n = (case seq_bounds cu B T n of (bos, eos, all_t, T') \<Rightarrow> T')"

definition seqs_ok :: "nat list option \<Rightarrow> bool" where
  "seqs_ok cu = (case cu of None \<Rightarrow> True | Some c \<Rightarrow> sorted c \<and> c \<noteq> [])"

definition seq_count :: "nat list option \<Rightarrow> nat \<Rightarrow> nat" where
  "seq_count cu B = (case cu of None \<Rightarrow> B | Some c \<Rightarrow> length c - 1)"

text \<open>The loop variables after lines 53--70 of the program \<open>(i_v, 0, i_nh)\<close>.\<close>

definition fwd_init ::
  "('a::{zero,plus}) prims \<Rightarrow> 'a fwd_args \<Rightarrow> nat \<Rightarrow> nat \<Rightarrow> 'a fwd_mem \<Rightarrow> 'a fwd_loop" where
  "fwd_init P A i_v i_nh M =
     (let bos = seq_bos (fa_cu_seqlens A) (fa_B A) (fa_T A) (i_nh div fa_H A); h = i_nh mod fa_H A in
      \<lparr>fl_p_q = cell (fa_H A) (fa_K A) bos h 0,
       fl_p_k = cell (fa_H A) (fa_K A) bos h 0,
       fl_p_v = cell (fa_H A) (fa_V A) bos h (i_v * fa_BV A),
       fl_p_u = cell (fa_H A) (fa_V A) bos h (i_v * fa_BV A),
       fl_p_beta = (if fa_IS_BETA_HEADWISE A then cell (fa_H A) (fa_V A) bos h (i_v * fa_BV A)
                    else bos * fa_H A + h),
       fl_p_o = cell (fa_H A) (fa_V A) bos h (i_v * fa_BV A),
       fl_b_h = (case fa_h0 A of
                   None \<Rightarrow> (\<lambda>j i. 0)
                 | Some m \<Rightarrow>
                     (\<lambda>j i. 0 + to_f32 P (if i < fa_K A \<and> j < fa_BV A \<and> i_v * fa_BV A + j < fa_V A
                                          then m (cell (fa_K A) (fa_V A) i_nh i (i_v * fa_BV A + j))
                                          else 0))),
       fl_u = fm_u M,
       fl_o = fm_o M\<rparr>)"

abbreviation fbos :: "'a fwd_args \<Rightarrow> nat \<Rightarrow> nat" where
  "fbos A n \<equiv> seq_bos (fa_cu_seqlens A) (fa_B A) (fa_T A) n"

abbreviation flen :: "'a fwd_args \<Rightarrow> nat \<Rightarrow> nat" where
  "flen A n \<equiv> seq_len (fa_cu_seqlens A) (fa_B A) (fa_T A) n"


text \<open>What the program of a unit stores: the value-delta and the output of step \<open>t\<close> in the
  element type of the tensors, and the state after \<open>t\<close> steps in float32.\<close>

abbreviation ref_u ::
  "('a::{zero,plus,minus,times}) prims \<Rightarrow> 'a fwd_args \<Rightarrow> nat \<Rightarrow> nat \<Rightarrow> (nat \<Rightarrow> nat \<Rightarrow> 'a) \<Rightarrow> nat \<Rightarrow> nat \<Rightarrow> 'a" where
  "ref_u P A bos h S0 t c \<equiv>
     to_elem P (rec_delta P (fa_BK A) (fa_K A) (vk A bos h) (vv A bos h) (vb A bos h) S0 t c)"

abbreviation ref_o ::
  "('a::{zero,plus,minus,times}) prims \<Rightarrow> 'a fwd_args \<Rightarrow> nat \<Rightarrow> nat \<Rightarrow> (nat \<Rightarrow> nat \<Rightarrow> 'a) \<Rightarrow> nat \<Rightarrow> nat \<Rightarrow> 'a" where
  "ref_o P A bos h S0 t c \<equiv>
     to_elem P (rec_output P (fa_BK A) (fa_K A) (fa_scale A) (vq A bos h) (vk A bos h) (vv A bos h)
                  (vb A bos h) S0 t c)"

abbreviation ref_s ::
  "('a::{zero,plus,minus,times}) prims \<Rightarrow> 'a fwd_args \<Rightarrow> nat \<Rightarrow> nat \<Rightarrow> (nat \<Rightarrow> nat \<Rightarrow> 'a) \<Rightarrow> nat \<Rightarrow> nat \<Rightarrow> nat \<Rightarrow> 'a" where
  "ref_s P A bos h S0 t \<equiv>
     rec_state P (fa_BK A) (fa_K A) (vk A bos h) (vv A bos h) (vb A bos h) S0 t"

abbreviation ref_init :: "('a::{zero,plus}) prims \<Rightarrow> 'a fwd_args \<Rightarrow> nat \<Rightarrow> nat \<Rightarrow> nat \<Rightarrow> 'a" where
  "ref_init P A nh \<equiv> rec_init P (fa_h0 A) (fa_K A) (fa_V A) nh"
subsection \<open>The two passes of the specification (section 4.2)\<close>

text \<open>
  For one (sequence, head) of length \<open>T\<^sub>s\<close>, with queries \<open>qs\<close>, keys \<open>ks\<close>, saved value-deltas
  \<open>ds\<close>, update rates \<open>bs\<close>, output gradients \<open>dos\<close>, final-state gradient \<open>GT\<close> (zero when
  absent) and initial state \<open>H0\<close>.

  Pass A walks \<open>t = T\<^sub>s - 1, \<dots>, 0\<close>.  \<open>spec_G \<dots> m\<close> is the accumulator after \<open>m\<close> of these
  steps; \<open>spec_Gacc \<dots> t\<close> is the accumulator of step \<open>t\<close> after \<open>G += q_t \<cdot> scale \<otimes> do_t\<close>,
  from which \<open>dk_t\<close>, \<open>dv'_t\<close>, \<open>dbeta_t\<close> and \<open>dv_t\<close> are taken before
  \<open>G -= k_t \<otimes> dv_t\<close>.
\<close>

primrec spec_G ::
  "nat \<Rightarrow> real \<Rightarrow> (nat \<Rightarrow> nat \<Rightarrow> real) \<Rightarrow> (nat \<Rightarrow> nat \<Rightarrow> real) \<Rightarrow> (nat \<Rightarrow> nat \<Rightarrow> real) \<Rightarrow>
   (nat \<Rightarrow> nat \<Rightarrow> real) \<Rightarrow> (nat \<Rightarrow> nat \<Rightarrow> real) \<Rightarrow> nat \<Rightarrow> nat \<Rightarrow> nat \<Rightarrow> nat \<Rightarrow> real" where
  "spec_G K scale qs ks dos bs GT Ts 0 = GT"
| "spec_G K scale qs ks dos bs GT Ts (Suc m) =
     (let t = Ts - Suc m;
          G = (\<lambda>i j. spec_G K scale qs ks dos bs GT Ts m i j + qs t i * scale * dos t j);
          dv = (\<lambda>j. (\<Sum>i<K. G i j * ks t i) * bs t j)
      in (\<lambda>i j. G i j - ks t i * dv j))"

definition spec_Gacc ::
  "nat \<Rightarrow> real \<Rightarrow> (nat \<Rightarrow> nat \<Rightarrow> real) \<Rightarrow> (nat \<Rightarrow> nat \<Rightarrow> real) \<Rightarrow> (nat \<Rightarrow> nat \<Rightarrow> real) \<Rightarrow>
   (nat \<Rightarrow> nat \<Rightarrow> real) \<Rightarrow> (nat \<Rightarrow> nat \<Rightarrow> real) \<Rightarrow> nat \<Rightarrow> nat \<Rightarrow> nat \<Rightarrow> nat \<Rightarrow> real" where
  "spec_Gacc K scale qs ks dos bs GT Ts t =
     (\<lambda>i j. spec_G K scale qs ks dos bs GT Ts (Ts - Suc t) i j + qs t i * scale * dos t j)"

text \<open>\<open>dk_t\<close> of pass A: \<open>G \<cdot> (delta_t \<odot> beta_t)\<close>, contracting over \<open>V\<close>.\<close>

definition spec_dk_a ::
  "nat \<Rightarrow> nat \<Rightarrow> real \<Rightarrow> (nat \<Rightarrow> nat \<Rightarrow> real) \<Rightarrow> (nat \<Rightarrow> nat \<Rightarrow> real) \<Rightarrow> (nat \<Rightarrow> nat \<Rightarrow> real) \<Rightarrow>
   (nat \<Rightarrow> nat \<Rightarrow> real) \<Rightarrow> (nat \<Rightarrow> nat \<Rightarrow> real) \<Rightarrow> (nat \<Rightarrow> nat \<Rightarrow> real) \<Rightarrow> nat \<Rightarrow> nat \<Rightarrow> nat \<Rightarrow> real" where
  "spec_dk_a K V scale qs ks ds dos bs GT Ts t =
     (\<lambda>i. \<Sum>j<V. spec_Gacc K scale qs ks dos bs GT Ts t i j * (ds t j * bs t j))"

text \<open>\<open>dv'_t = G\<^sup>T \<cdot> k_t\<close>, contracting over \<open>K\<close>; \<open>dbeta_t = dv'_t \<odot> delta_t\<close> in vector mode and
  its sum in scalar mode; \<open>dv_t = dv'_t \<odot> beta_t\<close>.\<close>

definition spec_dvp ::
  "nat \<Rightarrow> real \<Rightarrow> (nat \<Rightarrow> nat \<Rightarrow> real) \<Rightarrow> (nat \<Rightarrow> nat \<Rightarrow> real) \<Rightarrow> (nat \<Rightarrow> nat \<Rightarrow> real) \<Rightarrow>
   (nat \<Rightarrow> nat \<Rightarrow> real) \<Rightarrow> (nat \<Rightarrow> nat \<Rightarrow> real) \<Rightarrow> nat \<Rightarrow> nat \<Rightarrow> nat \<Rightarrow> real" where
  "spec_dvp K scale qs ks dos bs GT Ts t =
     (\<lambda>j. \<Sum>i<K. spec_Gacc K scale qs ks dos bs GT Ts t i j * ks t i)"

definition spec_dbeta ::
  "nat \<Rightarrow> real \<Rightarrow> (nat \<Rightarrow> nat \<Rightarrow> real) \<Rightarrow> (nat \<Rightarrow> nat \<Rightarrow> real) \<Rightarrow> (nat \<Rightarrow> nat \<Rightarrow> real) \<Rightarrow> (nat \<Rightarrow> nat \<Rightarrow> real) \<Rightarrow>
   (nat \<Rightarrow> nat \<Rightarrow> real) \<Rightarrow> (nat \<Rightarrow> nat \<Rightarrow> real) \<Rightarrow> nat \<Rightarrow> nat \<Rightarrow> nat \<Rightarrow> real" where
  "spec_dbeta K scale qs ks ds dos bs GT Ts t =
     (\<lambda>j. spec_dvp K scale qs ks dos bs GT Ts t j * ds t j)"

definition spec_dbeta_scalar ::
  "nat \<Rightarrow> nat \<Rightarrow> real \<Rightarrow> (nat \<Rightarrow> nat \<Rightarrow> real) \<Rightarrow> (nat \<Rightarrow> nat \<Rightarrow> real) \<Rightarrow> (nat \<Rightarrow> nat \<Rightarrow> real) \<Rightarrow>
   (nat \<Rightarrow> nat \<Rightarrow> real) \<Rightarrow> (nat \<Rightarrow> nat \<Rightarrow> real) \<Rightarrow> (nat \<Rightarrow> nat \<Rightarrow> real) \<Rightarrow> nat \<Rightarrow> nat \<Rightarrow> real" where
  "spec_dbeta_scalar K V scale qs ks ds dos bs GT Ts t =
     (\<Sum>j<V. spec_dbeta K scale qs ks ds dos bs GT Ts t j)"

definition spec_dv ::
  "nat \<Rightarrow> real \<Rightarrow> (nat \<Rightarrow> nat \<Rightarrow> real) \<Rightarrow> (nat \<Rightarrow> nat \<Rightarrow> real) \<Rightarrow> (nat \<Rightarrow> nat \<Rightarrow> real) \<Rightarrow>
   (nat \<Rightarrow> nat \<Rightarrow> real) \<Rightarrow> (nat \<Rightarrow> nat \<Rightarrow> real) \<Rightarrow> nat \<Rightarrow> nat \<Rightarrow> nat \<Rightarrow> real" where
  "spec_dv K scale qs ks dos bs GT Ts t =
     (\<lambda>j. spec_dvp K scale qs ks dos bs GT Ts t j * bs t j)"

text \<open>Pass B walks \<open>t = 0, \<dots>, T\<^sub>s - 1\<close> and rebuilds the state from the saved value-deltas:
  \<open>H += k_t \<otimes> (delta_t \<odot> beta_t)\<close>.  \<open>dk_t\<close> is corrected by \<open>H \<cdot> dv_t\<close> (contracting over
  \<open>V\<close>) with the state before the update of step \<open>t\<close>; \<open>dq_t = (H \<cdot> do_t) \<cdot> scale\<close> with the
  state after it.\<close>

primrec spec_state_b ::
  "(nat \<Rightarrow> nat \<Rightarrow> real) \<Rightarrow> (nat \<Rightarrow> nat \<Rightarrow> real) \<Rightarrow> (nat \<Rightarrow> nat \<Rightarrow> real) \<Rightarrow> (nat \<Rightarrow> nat \<Rightarrow> real) \<Rightarrow>
   nat \<Rightarrow> nat \<Rightarrow> nat \<Rightarrow> real" where
  "spec_state_b ks ds bs H0 0 = H0"
| "spec_state_b ks ds bs H0 (Suc t) =
     (\<lambda>i j. spec_state_b ks ds bs H0 t i j + ks t i * (ds t j * bs t j))"

definition spec_dk ::
  "nat \<Rightarrow> nat \<Rightarrow> real \<Rightarrow> (nat \<Rightarrow> nat \<Rightarrow> real) \<Rightarrow> (nat \<Rightarrow> nat \<Rightarrow> real) \<Rightarrow> (nat \<Rightarrow> nat \<Rightarrow> real) \<Rightarrow>
   (nat \<Rightarrow> nat \<Rightarrow> real) \<Rightarrow> (nat \<Rightarrow> nat \<Rightarrow> real) \<Rightarrow> (nat \<Rightarrow> nat \<Rightarrow> real) \<Rightarrow> (nat \<Rightarrow> nat \<Rightarrow> real) \<Rightarrow>
   nat \<Rightarrow> nat \<Rightarrow> nat \<Rightarrow> real" where
  "spec_dk K V scale qs ks ds dos bs GT H0 Ts t =
     (\<lambda>i. spec_dk_a K V scale qs ks ds dos bs GT Ts t i -
          (\<Sum>j<V. spec_state_b ks ds bs H0 t i j * spec_dv K scale qs ks dos bs GT Ts t j))"

definition spec_dq ::
  "nat \<Rightarrow> real \<Rightarrow> (nat \<Rightarrow> nat \<Rightarrow> real) \<Rightarrow> (nat \<Rightarrow> nat \<Rightarrow> real) \<Rightarrow> (nat \<Rightarrow> nat \<Rightarrow> real) \<Rightarrow> (nat \<Rightarrow> nat \<Rightarrow> real) \<Rightarrow>
   (nat \<Rightarrow> nat \<Rightarrow> real) \<Rightarrow> nat \<Rightarrow> nat \<Rightarrow> real" where
  "spec_dq V scale ks ds dos bs H0 t =
     (\<lambda>i. (\<Sum>j<V. spec_state_b ks ds bs H0 (Suc t) i j * dos t j) * scale)"

subsection \<open>Auxiliary notions of the proofs about the backward kernel\<close>

definition bwd_start_a ::
  "real bwd_args \<Rightarrow> nat \<Rightarrow> nat \<Rightarrow> nat \<Rightarrow> nat \<Rightarrow> nat \<Rightarrow> (nat \<Rightarrow> nat \<Rightarrow> real) \<Rightarrow> real bwd_loop_a \<Rightarrow> bool" where
  "bwd_start_a A i_v bos srow Ts h GT s \<longleftrightarrow>
     ba_K A \<le> ba_BK A \<and>
     (0 < Ts \<longrightarrow>
       la_p_q s = cell (ba_H A) (ba_K A) bos h 0 + (Ts - 1) * (ba_H A * ba_K A) \<and>
       la_p_k s = cell (ba_H A) (ba_K A) bos h 0 + (Ts - 1) * (ba_H A * ba_K A) \<and>
       la_p_v s = cell (ba_H A) (ba_V A) bos h (i_v * ba_BV A) + (Ts - 1) * (ba_H A * ba_V A) \<and>
       la_p_do s = cell (ba_H A) (ba_V A) bos h (i_v * ba_BV A) + (Ts - 1) * (ba_H A * ba_V A) \<and>
       la_p_dk s = cell (ba_H A) (ba_K A) srow h 0 + (Ts - 1) * (ba_H A * ba_K A) \<and>
       la_p_dv s = cell (ba_H A) (ba_V A) bos h (i_v * ba_BV A) + (Ts - 1) * (ba_H A * ba_V A) \<and>
       la_p_beta s = (if ba_IS_BETA_HEADWISE A
                      then cell (ba_H A) (ba_V A) bos h (i_v * ba_BV A) + (Ts - 1) * (ba_H A * ba_V A)
                      else bos * ba_H A + h + (Ts - 1) * ba_H A) \<and>
       la_p_dbeta s = (if ba_IS_BETA_HEADWISE A
                       then cell (ba_H A) (ba_V A) srow h 0 + (Ts - 1) * (ba_H A * ba_V A)
                       else srow * ba_H A + h + (Ts - 1) * ba_H A)) \<and>
     la_b_dh s = (\<lambda>i j. if i < ba_K A \<and> j < ba_BV A \<and> i_v * ba_BV A + j < ba_V A
                        then GT i (i_v * ba_BV A + j) else 0)"

abbreviation bwd_run_a :: "real bwd_args \<Rightarrow> nat \<Rightarrow> nat \<Rightarrow> real bwd_loop_a \<Rightarrow> real bwd_loop_a" where
  "bwd_run_a A i_v m s \<equiv> (bwd_step_a exact A (\<lambda>i. i < ba_K A) (\<lambda>j. i_v * ba_BV A + j < ba_V A) ^^ m) s"

abbreviation wq :: "real bwd_args \<Rightarrow> nat \<Rightarrow> nat \<Rightarrow> nat \<Rightarrow> nat \<Rightarrow> real" where
  "wq A bos h \<equiv> rows (ba_q A) (ba_H A) (ba_K A) bos h"

abbreviation wk :: "real bwd_args \<Rightarrow> nat \<Rightarrow> nat \<Rightarrow> nat \<Rightarrow> nat \<Rightarrow> real" where
  "wk A bos h \<equiv> rows (ba_k A) (ba_H A) (ba_K A) bos h"

abbreviation wd :: "real bwd_args \<Rightarrow> nat \<Rightarrow> nat \<Rightarrow> nat \<Rightarrow> nat \<Rightarrow> real" where
  "wd A bos h \<equiv> rows (ba_v A) (ba_H A) (ba_V A) bos h"

abbreviation wdo :: "real bwd_args \<Rightarrow> nat \<Rightarrow> nat \<Rightarrow> nat \<Rightarrow> nat \<Rightarrow> real" where
  "wdo A bos h \<equiv> rows (ba_do A) (ba_H A) (ba_V A) bos h"

abbreviation wb :: "real bwd_args \<Rightarrow> nat \<Rightarrow> nat \<Rightarrow> nat \<Rightarrow> nat \<Rightarrow> real" where
  "wb A bos h \<equiv> beta_rows (ba_beta A) (ba_IS_BETA_HEADWISE A) (ba_H A) (ba_V A) bos h"

abbreviation sG :: "real bwd_args \<Rightarrow> nat \<Rightarrow> nat \<Rightarrow> (nat \<Rightarrow> nat \<Rightarrow> real) \<Rightarrow> nat \<Rightarrow> nat \<Rightarrow> nat \<Rightarrow> nat \<Rightarrow> real" where
  "sG A bos h GT Ts \<equiv> spec_G (ba_K A) (ba_scale A) (wq A bos h) (wk A bos h) (wdo A bos h) (wb A bos h) GT Ts"

abbreviation sGacc :: "real bwd_args \<Rightarrow> nat \<Rightarrow> nat \<Rightarrow> (nat \<Rightarrow> nat \<Rightarrow> real) \<Rightarrow> nat \<Rightarrow> nat \<Rightarrow> nat \<Rightarrow> nat \<Rightarrow> real" where
  "sGacc A bos h GT Ts \<equiv> spec_Gacc (ba_K A) (ba_scale A) (wq A bos h) (wk A bos h) (wdo A bos h) (wb A bos h) GT Ts"

definition block_sum :: "nat \<Rightarrow> nat \<Rightarrow> nat \<Rightarrow> (nat \<Rightarrow> real) \<Rightarrow> real" where
  "block_sum BV V i_v f = (\<Sum>j<BV. if i_v * BV + j < V then f (i_v * BV + j) else 0)"

definition bwd_start_b ::
  "real bwd_args \<Rightarrow> nat \<Rightarrow> nat \<Rightarrow> nat \<Rightarrow> nat \<Rightarrow> (nat \<Rightarrow> nat \<Rightarrow> real) \<Rightarrow> real bwd_loop_b \<Rightarrow> bool" where
  "bwd_start_b A i_v bos srow h H0 s \<longleftrightarrow>
     ba_K A \<le> ba_BK A \<and>
     lb_p_k s = cell (ba_H A) (ba_K A) bos h 0 \<and>
     lb_p_v s = cell (ba_H A) (ba_V A) bos h (i_v * ba_BV A) \<and>
     lb_p_do s = cell (ba_H A) (ba_V A) bos h (i_v * ba_BV A) \<and>
     lb_p_dq s = cell (ba_H A) (ba_K A) srow h 0 \<and>
     lb_p_dk s = cell (ba_H A) (ba_K A) srow h 0 \<and>
     lb_p_dv s = cell (ba_H A) (ba_V A) bos h (i_v * ba_BV A) \<and>
     lb_p_beta s = (if ba_IS_BETA_HEADWISE A then cell (ba_H A) (ba_V A) bos h (i_v * ba_BV A)
                    else bos * ba_H A + h) \<and>
     lb_b_h s = (\<lambda>i j. if i < ba_K A \<and> j < ba_BV A \<and> i_v * ba_BV A + j < ba_V A
                       then H0 i (i_v * ba_BV A + j) else 0)"

abbreviation bwd_run_b :: "real bwd_args \<Rightarrow> real buffer \<Rightarrow> nat \<Rightarrow> nat \<Rightarrow> real bwd_loop_b \<Rightarrow> real bwd_loop_b" where
  "bwd_run_b A dv i_v t s \<equiv> (bwd_step_b exact A dv (\<lambda>i. i < ba_K A) (\<lambda>j. i_v * ba_BV A + j < ba_V A) ^^ t) s"

abbreviation sHb :: "real bwd_args \<Rightarrow> nat \<Rightarrow> nat \<Rightarrow> (nat \<Rightarrow> nat \<Rightarrow> real) \<Rightarrow> nat \<Rightarrow> nat \<Rightarrow> nat \<Rightarrow> real" where
  "sHb A bos h H0 \<equiv> spec_state_b (wk A bos h) (wd A bos h) (wb A bos h) H0"

definition seq_all :: "nat list option \<Rightarrow> nat \<Rightarrow> nat \<Rightarrow> nat \<Rightarrow> nat" where
  "seq_all cu B T n = (case seq_bounds cu B T n of (bos, eos, all_t, T') \<Rightarrow> all_t)"

abbreviation bbos :: "real bwd_args \<Rightarrow> nat \<Rightarrow> nat" where
  "bbos A n \<equiv> seq_bos (ba_cu_seqlens A) (ba_B A) (ba_T A) n"

abbreviation blen :: "real bwd_args \<Rightarrow> nat \<Rightarrow> nat" where
  "blen A n \<equiv> seq_len (ba_cu_seqlens A) (ba_B A) (ba_T A) n"

abbreviation ball :: "real bwd_args \<Rightarrow> nat \<Rightarrow> nat" where
  "ball A n \<equiv> seq_all (ba_cu_seqlens A) (ba_B A) (ba_T A) n"

definition bwd_init_a :: "real bwd_args \<Rightarrow> nat \<Rightarrow> nat \<Rightarrow> real bwd_mem \<Rightarrow> real bwd_loop_a" where
  "bwd_init_a A i_v i_nh M =
     (let H = ba_H A; K = ba_K A; V = ba_V A; BV = ba_BV A;
          bos = bbos A (i_nh div H); T = blen A (i_nh div H); all_t = ball A (i_nh div H);
          i_h = i_nh mod H in
      \<lparr>la_p_q = (bos * H + i_h) * K + (T - 1) * H * K,
       la_p_k = (bos * H + i_h) * K + (T - 1) * H * K,
       la_p_v = (bos * H + i_h) * V + i_v * BV + (T - 1) * H * V,
       la_p_do = (bos * H + i_h) * V + i_v * BV + (T - 1) * H * V,
       la_p_dk = ((i_v * all_t + bos) * H + i_h) * K + (T - 1) * H * K,
       la_p_dv = (bos * H + i_h) * V + i_v * BV + (T - 1) * H * V,
       la_p_dbeta = (if ba_IS_BETA_HEADWISE A
                     then (i_v * ba_NK A * all_t + bos + T - 1) * H * V + i_h * V
                     else (i_v * all_t + bos + T - 1) * H + i_h),
       la_p_beta = (if ba_IS_BETA_HEADWISE A
                    then (bos + T - 1) * H * V + i_h * V + i_v * BV
                    else (bos + T - 1) * H + i_h),
       la_b_dh = (\<lambda>i j. if i < K \<and> j < BV \<and> i_v * BV + j < V
                         then state_of (ba_dht A) K V i_nh i (i_v * BV + j) else 0),
       la_dk = bm_dk M, la_dv = bm_dv M, la_db = bm_db M\<rparr>)"

definition bwd_init_b :: "real bwd_args \<Rightarrow> nat \<Rightarrow> nat \<Rightarrow> real buffer \<Rightarrow> real buffer \<Rightarrow> real bwd_loop_b" where
  "bwd_init_b A i_v i_nh dq dk =
     (let H = ba_H A; K = ba_K A; V = ba_V A; BV = ba_BV A;
          bos = bbos A (i_nh div H); all_t = ball A (i_nh div H);
          i_h = i_nh mod H in
      \<lparr>lb_p_k = (bos * H + i_h) * K,
       lb_p_v = (bos * H + i_h) * V + i_v * BV,
       lb_p_do = (bos * H + i_h) * V + i_v * BV,
       lb_p_dq = ((i_v * all_t + bos) * H + i_h) * K,
       lb_p_dk = ((i_v * all_t + bos) * H + i_h) * K,
       lb_p_dv = (bos * H + i_h) * V + i_v * BV,
       lb_p_beta = (if ba_IS_BETA_HEADWISE A then (bos * H + i_h) * V + i_v * BV else bos * H + i_h),
       lb_b_h = (\<lambda>i j. if i < K \<and> j < BV \<and> i_v * BV + j < V
                        then state_of (ba_h0 A) K V i_nh i (i_v * BV + j) else 0),
       lb_dq = dq, lb_dk = dk\<rparr>)"

abbreviation rGacc :: "real bwd_args \<Rightarrow> nat \<Rightarrow> nat \<Rightarrow> nat \<Rightarrow> nat \<Rightarrow> real" where
  "rGacc A nh \<equiv> sGacc A (bbos A (nh div ba_H A)) (nh mod ba_H A) (state_of (ba_dht A) (ba_K A) (ba_V A) nh)
     (blen A (nh div ba_H A))"

abbreviation rG :: "real bwd_args \<Rightarrow> nat \<Rightarrow> nat \<Rightarrow> nat \<Rightarrow> nat \<Rightarrow> real" where
  "rG A nh \<equiv> sG A (bbos A (nh div ba_H A)) (nh mod ba_H A) (state_of (ba_dht A) (ba_K A) (ba_V A) nh)
     (blen A (nh div ba_H A))"

abbreviation rdv :: "real bwd_args \<Rightarrow> nat \<Rightarrow> nat \<Rightarrow> nat \<Rightarrow> real" where
  "rdv A nh \<equiv> spec_dv (ba_K A) (ba_scale A) (wq A (bbos A (nh div ba_H A)) (nh mod ba_H A))
     (wk A (bbos A (nh div ba_H A)) (nh mod ba_H A)) (wdo A (bbos A (nh div ba_H A)) (nh mod ba_H A))
     (wb A (bbos A (nh div ba_H A)) (nh mod ba_H A)) (state_of (ba_dht A) (ba_K A) (ba_V A) nh)
     (blen A (nh div ba_H A))"

abbreviation rdbeta :: "real bwd_args \<Rightarrow> nat \<Rightarrow> nat \<Rightarrow> nat \<Rightarrow> real" where
  "rdbeta A nh \<equiv> spec_dbeta (ba_K A) (ba_scale A) (wq A (bbos A (nh div ba_H A)) (nh mod ba_H A))
     (wk A (bbos A (nh div ba_H A)) (nh mod ba_H A)) (wd A (bbos A (nh div ba_H A)) (nh mod ba_H A))
     (wdo A (bbos A (nh div ba_H A)) (nh mod ba_H A))
     (wb A (bbos A (nh div ba_H A)) (nh mod ba_H A)) (state_of (ba_dht A) (ba_K A) (ba_V A) nh)
     (blen A (nh div ba_H A))"

abbreviation rHb :: "real bwd_args \<Rightarrow> nat \<Rightarrow> nat \<Rightarrow> nat \<Rightarrow> nat \<Rightarrow> real" where
  "rHb A nh \<equiv> sHb A (bbos A (nh div ba_H A)) (nh mod ba_H A) (state_of (ba_h0 A) (ba_K A) (ba_V A) nh)"

definition seqs_fit :: "nat list option \<Rightarrow> nat \<Rightarrow> nat \<Rightarrow> bool" where
  "seqs_fit cu B T = (case cu of None \<Rightarrow> True | Some c \<Rightarrow> B = 1 \<and> list_all (\<lambda>x. x \<le> T) c)"

abbreviation uGT :: "real bwd_args \<Rightarrow> nat \<Rightarrow> nat \<Rightarrow> nat \<Rightarrow> nat \<Rightarrow> real" where
  "uGT A n h \<equiv> state_of (ba_dht A) (ba_K A) (ba_V A) (n * ba_H A + h)"

abbreviation uH0 :: "real bwd_args \<Rightarrow> nat \<Rightarrow> nat \<Rightarrow> nat \<Rightarrow> nat \<Rightarrow> real" where
  "uH0 A n h \<equiv> state_of (ba_h0 A) (ba_K A) (ba_V A) (n * ba_H A + h)"

abbreviation udv :: "real bwd_args \<Rightarrow> nat \<Rightarrow> nat \<Rightarrow> nat \<Rightarrow> nat \<Rightarrow> real" where
  "udv A n h \<equiv> spec_dv (ba_K A) (ba_scale A) (wq A (bbos A n) h) (wk A (bbos A n) h) (wdo A (bbos A n) h)
     (wb A (bbos A n) h) (uGT A n h) (blen A n)"

abbreviation udbeta :: "real bwd_args \<Rightarrow> nat \<Rightarrow> nat \<Rightarrow> nat \<Rightarrow> nat \<Rightarrow> real" where
  "udbeta A n h \<equiv> spec_dbeta (ba_K A) (ba_scale A) (wq A (bbos A n) h) (wk A (bbos A n) h) (wd A (bbos A n) h)
     (wdo A (bbos A n) h) (wb A (bbos A n) h) (uGT A n h) (blen A n)"

abbreviation uGacc :: "real bwd_args \<Rightarrow> nat \<Rightarrow> nat \<Rightarrow> nat \<Rightarrow> nat \<Rightarrow> nat \<Rightarrow> real" where
  "uGacc A n h \<equiv> sGacc A (bbos A n) h (uGT A n h) (blen A n)"

abbreviation uG :: "real bwd_args \<Rightarrow> nat \<Rightarrow> nat \<Rightarrow> nat \<Rightarrow> nat \<Rightarrow> nat \<Rightarrow> real" where
  "uG A n h \<equiv> sG A (bbos A n) h (uGT A n h) (blen A n)"

abbreviation uHb :: "real bwd_args \<Rightarrow> nat \<Rightarrow> nat \<Rightarrow> nat \<Rightarrow> nat \<Rightarrow> nat \<Rightarrow> real" where
  "uHb A n h \<equiv> sHb A (bbos A n) h (uH0 A n h)"

abbreviation bcount :: "real bwd_args \<Rightarrow> nat" where
  "bcount A \<equiv> seq_count (ba_cu_seqlens A) (ba_B A)"

subsection \<open>The worked example of the specification (section 8)\<close>

text \<open>\<open>K = V = 1\<close>, \<open>T = 3\<close>, one sequence, one head; \<open>q = k = v = [1, 1, 1]\<close>,
  \<open>beta = 1\<close> at every step, initial state \<open>0\<close>.\<close>

definition example_qkv :: "real tensor" where
  "example_qkv = \<lparr>shape = [1, 3, 1, 1], data = (\<lambda>a. 1), requires_grad = False\<rparr>"

definition example_beta :: "real tensor" where
  "example_beta = \<lparr>shape = [1, 3, 1], data = (\<lambda>a. 1), requires_grad = False\<rparr>"

definition example_h0 :: "real tensor" where
  "example_h0 = \<lparr>shape = [1, 1, 1, 1], data = (\<lambda>a. 0), requires_grad = False\<rparr>"


text \<open>Inputs of the closed examples below: keys with batch dimension 2, no \<open>l2norm\<close>, and
  zeroes for the uninitialised memory.\<close>

definition example_k2 :: "real tensor" where
  "example_k2 = \<lparr>shape = [2, 3, 1, 1], data = (\<lambda>a. 1), requires_grad = False\<rparr>"

definition no_l2norm :: "real tensor \<Rightarrow> real tensor \<times> real tensor" where
  "no_l2norm x = (x, x)"

definition zero_fresh :: "nat \<Rightarrow> real buffer" where
  "zero_fresh n = (\<lambda>a. 0)"

definition example_zero_beta :: "real tensor" where
  "example_zero_beta = \<lparr>shape = [1, 3, 1], data = (\<lambda>a. 0), requires_grad = False\<rparr>"

definition example_h2 :: "real tensor" where
  "example_h2 = \<lparr>shape = [1, 1, 1, 1], data = (\<lambda>a. 2), requires_grad = False\<rparr>"

subsection \<open>Splitting a batch of sequences in time\<close>

text \<open>\<open>x[:, t0:t1].contiguous()\<close> for a contiguous tensor \<open>[B, T, \<dots>]\<close>.\<close>

definition time_slice :: "nat \<Rightarrow> nat \<Rightarrow> real tensor \<Rightarrow> real tensor" where
  "time_slice t0 t1 x =
     (case shape x of
        B # T # rest \<Rightarrow>
          \<lparr>shape = B # (t1 - t0) # rest,
           data = (\<lambda>a. let I = prod_list rest; L = t1 - t0
                       in data x ((((a div I) div L) * T + t0 + (a div I) mod L) * I + a mod I)),
           requires_grad = requires_grad x\<rparr>
      | _ \<Rightarrow> x)"

text \<open>An input with one key feature and 33 value features, one time step: more value
  features than one block of the backward kernel holds.\<close>

definition example_q1 :: "real tensor" where
  "example_q1 = \<lparr>shape = [1, 1, 1, 1], data = (\<lambda>a. 1), requires_grad = False\<rparr>"

definition example_v33 :: "real tensor" where
  "example_v33 = \<lparr>shape = [1, 1, 1, 33], data = (\<lambda>a. 1), requires_grad = False\<rparr>"


subsection \<open>An arithmetic with overflow\<close>

text \<open>
  Numbers extended with the two infinities and NaN, as in IEEE 754.  A result whose
  magnitude reaches \<open>2^128\<close>, beyond the range of float32, is an infinity; infinity minus
  infinity and zero times infinity are NaN; NaN is absorbing.  Finite results are not
  rounded and zero has no sign, so that this arithmetic agrees with float32 on the operations
  whose operands and exact result are float32 numbers, and on those that overflow beyond
  \<open>2^128\<close>.
\<close>

datatype fval = Fin real | PInf | NInf | NaN

definition fin :: "real \<Rightarrow> fval" where
  "fin x = (if 2 ^ 128 \<le> x then PInf else if x \<le> - (2 ^ 128) then NInf else Fin x)"

fun fadd :: "fval \<Rightarrow> fval \<Rightarrow> fval" where
  "fadd (Fin x) (Fin y) = fin (x + y)"
| "fadd NaN b = NaN"
| "fadd a NaN = NaN"
| "fadd PInf NInf = NaN"
| "fadd NInf PInf = NaN"
| "fadd PInf b = PInf"
| "fadd a PInf = PInf"
| "fadd NInf b = NInf"
| "fadd a NInf = NInf"

fun fneg :: "fval \<Rightarrow> fval" where
  "fneg (Fin x) = Fin (- x)"
| "fneg PInf = NInf"
| "fneg NInf = PInf"
| "fneg NaN = NaN"

definition inf_of :: "bool \<Rightarrow> fval" where
  "inf_of positive = (if positive then PInf else NInf)"

fun fmul :: "fval \<Rightarrow> fval \<Rightarrow> fval" where
  "fmul (Fin x) (Fin y) = fin (x * y)"
| "fmul NaN b = NaN"
| "fmul a NaN = NaN"
| "fmul PInf (Fin y) = (if y = 0 then NaN else inf_of (0 < y))"
| "fmul NInf (Fin y) = (if y = 0 then NaN else inf_of (y < 0))"
| "fmul (Fin x) PInf = (if x = 0 then NaN else inf_of (0 < x))"
| "fmul (Fin x) NInf = (if x = 0 then NaN else inf_of (x < 0))"
| "fmul PInf PInf = PInf"
| "fmul NInf NInf = PInf"
| "fmul PInf NInf = NInf"
| "fmul NInf PInf = NInf"

instantiation fval :: "{zero,one,plus,minus,times}"
begin

definition zero_fval :: fval where "zero_fval = Fin 0"
definition one_fval :: fval where "one_fval = Fin 1"
definition plus_fval :: "fval \<Rightarrow> fval \<Rightarrow> fval" where "plus_fval a b = fadd a b"
definition minus_fval :: "fval \<Rightarrow> fval \<Rightarrow> fval" where "minus_fval a b = fadd a (fneg b)"
definition times_fval :: "fval \<Rightarrow> fval \<Rightarrow> fval" where "times_fval a b = fmul a b"

instance ..

end

text \<open>Sums from the left, lane after lane; float32 elements, so that no conversion changes
  a value.\<close>

definition sum_left :: "nat \<Rightarrow> (nat \<Rightarrow> fval) \<Rightarrow> fval" where
  "sum_left n f = (if n = 0 then 0 else foldl (\<lambda>a i. a + f i) (f 0) [1..<n])"

definition overflowing :: "fval prims" where
  "overflowing = \<lparr>tl_sum = sum_left, to_f32 = (\<lambda>x. x), to_elem = (\<lambda>x. x), of_float = fin,
                   torch_sum = sum_left\<rparr>"

text \<open>\<open>torch.full\<close>: a tensor of the given shape with every element \<open>x\<close>.\<close>

definition full :: "nat list \<Rightarrow> 'a \<Rightarrow> 'a tensor" where
  "full s x = \<lparr>shape = s, data = (\<lambda>a. x), requires_grad = False\<rparr>"
section \<open>The forward kernel computes the recurrence\<close>

lemma exact_sel [simp]:
  "tl_sum exact n f = (\<Sum>i<n. f i)" "to_f32 exact x = x" "to_elem exact x = x"
  "of_float exact r = r" "torch_sum exact n f = (\<Sum>i<n. f i)"
  by (simp_all add: exact_def)

lemma cell_inj:
  assumes "h < H" "h' < H" "c < V" "c' < V" "cell H V r h c = cell H V r' h' c'"
  shows "r = r' \<and> h = h' \<and> c = c'"
proof -
  have e: "(r * H + h) * V + c = (r' * H + h') * V + c'" using assms by (simp add: cell_def)
  have "((r * H + h) * V + c) div V = r * H + h" using assms by simp
  moreover have "((r' * H + h') * V + c') div V = r' * H + h'" using assms by simp
  ultimately have e2: "r * H + h = r' * H + h'" using e by simp
  have "((r * H + h) * V + c) mod V = c" using assms by simp
  moreover have "((r' * H + h') * V + c') mod V = c'" using assms by simp
  ultimately have c: "c = c'" using e by simp
  have "(r * H + h) div H = r" "(r * H + h) mod H = h" using assms by simp_all
  moreover have "(r' * H + h') div H = r'" "(r' * H + h') mod H = h'" using assms by simp_all
  ultimately show ?thesis using e2 c by metis
qed

lemma cell_shift: "cell H V (r + t) h c = cell H V r h 0 + t * (H * V) + c"
  by (simp add: cell_def algebra_simps)

lemma step_p_q [simp]: "fl_p_q (fwd_step P A mk mv s) = fl_p_q s + fa_H A * fa_K A"
  and step_p_k [simp]: "fl_p_k (fwd_step P A mk mv s) = fl_p_k s + fa_H A * fa_K A"
  and step_p_v [simp]: "fl_p_v (fwd_step P A mk mv s) = fl_p_v s + fa_H A * fa_V A"
  and step_p_u [simp]: "fl_p_u (fwd_step P A mk mv s) = fl_p_u s + fa_H A * fa_V A"
  and step_p_o [simp]: "fl_p_o (fwd_step P A mk mv s) = fl_p_o s + fa_H A * fa_V A"
  and step_p_beta [simp]: "fl_p_beta (fwd_step P A mk mv s) = fl_p_beta s + fa_H A * (if fa_IS_BETA_HEADWISE A then fa_V A else 1)"
  by (simp_all add: fwd_step_def Let_def)

lemma run_p_q: "fl_p_q ((fwd_step P A mk mv ^^ t) s) = fl_p_q s + t * (fa_H A * fa_K A)"
  by (induction t) (simp_all add: algebra_simps)
lemma run_p_k: "fl_p_k ((fwd_step P A mk mv ^^ t) s) = fl_p_k s + t * (fa_H A * fa_K A)"
  by (induction t) (simp_all add: algebra_simps)
lemma run_p_v: "fl_p_v ((fwd_step P A mk mv ^^ t) s) = fl_p_v s + t * (fa_H A * fa_V A)"
  by (induction t) (simp_all add: algebra_simps)
lemma run_p_u: "fl_p_u ((fwd_step P A mk mv ^^ t) s) = fl_p_u s + t * (fa_H A * fa_V A)"
  by (induction t) (simp_all add: algebra_simps)
lemma run_p_o: "fl_p_o ((fwd_step P A mk mv ^^ t) s) = fl_p_o s + t * (fa_H A * fa_V A)"
  by (induction t) (simp_all add: algebra_simps)
lemma run_p_beta: "fl_p_beta ((fwd_step P A mk mv ^^ t) s) = fl_p_beta s + t * (fa_H A * (if fa_IS_BETA_HEADWISE A then fa_V A else 1))"
  by (induction t) (simp_all add: algebra_simps)

lemma step_b_h: "fl_b_h (fwd_step P A mk mv s) =
  (\<lambda>j i. fl_b_h s j i + to_f32 P (load (fa_k A) (fl_p_k s) (fa_BK A) mk i) *
     ((to_f32 P (load (fa_v A) (fl_p_v s) (fa_BV A) mv j) -
         tl_sum P (fa_BK A) (\<lambda>i. fl_b_h s j i * to_f32 P (load (fa_k A) (fl_p_k s) (fa_BK A) mk i)))
       * (if fa_IS_BETA_HEADWISE A then to_f32 P (load (fa_beta A) (fl_p_beta s) (fa_BV A) mv j)
          else to_f32 P (fa_beta A (fl_p_beta s)))))"
  by (simp add: fwd_step_def Let_def fun_eq_iff)

lemma step_u: "fl_u (fwd_step P A mk mv s) =
  store (fl_u s) (fl_p_u s) (fa_BV A) mv
    (\<lambda>j. to_elem P (to_f32 P (load (fa_v A) (fl_p_v s) (fa_BV A) mv j) -
         tl_sum P (fa_BK A) (\<lambda>i. fl_b_h s j i * to_f32 P (load (fa_k A) (fl_p_k s) (fa_BK A) mk i))))"
  by (simp add: fwd_step_def Let_def)

lemma step_o: "fl_o (fwd_step P A mk mv s) =
  store (fl_o s) (fl_p_o s) (fa_BV A) mv
    (\<lambda>j. to_elem P (tl_sum P (fa_BK A) (\<lambda>i. fl_b_h (fwd_step P A mk mv s) j i *
                        (to_f32 P (load (fa_q A) (fl_p_q s) (fa_BK A) mk i) * fa_scale A))))"
  by (simp add: fwd_step_def Let_def)


lemma load_shift:
  "load m (cell H V r h c0 + t * (H * V)) n msk j = (if j < n \<and> msk j then m (cell H V (r + t) h (c0 + j)) else 0)"
  by (simp add: load_def cell_def algebra_simps)

lemma sum_block:
  fixes f :: "nat \<Rightarrow> real"
  assumes "K \<le> BK"
  shows "(\<Sum>i<BK. (if i < K then f i else 0)) = (\<Sum>i<K. f i)"
proof -
  have "(\<Sum>i<BK. (if i < K then f i else 0)) = (\<Sum>i\<in>{..<K}. (if i < K then f i else 0))"
    by (rule sum.mono_neutral_right) (use assms in auto)
  then show ?thesis by simp
qed


lemma run_load_k:
  assumes "fwd_start A i_v bos h S0 s"
  shows "(\<lambda>i. to_f32 P (load (fa_k A) (fl_p_k (fwd_run P A i_v t s)) (fa_BK A) (\<lambda>i. i < fa_K A) i))
       = lanes P (fa_K A) (vk A bos h t)"
proof (rule ext)
  fix i
  have "(i < fa_BK A \<and> i < fa_K A) = (i < fa_K A)" using assms by (auto simp: fwd_start_def)
  then show "to_f32 P (load (fa_k A) (fl_p_k (fwd_run P A i_v t s)) (fa_BK A) (\<lambda>i. i < fa_K A) i)
       = lanes P (fa_K A) (vk A bos h t) i"
    using assms by (simp add: fwd_start_def run_p_k load_shift rows_def lanes_def)
qed

lemma run_load_q:
  assumes "fwd_start A i_v bos h S0 s"
  shows "(\<lambda>i. to_f32 P (load (fa_q A) (fl_p_q (fwd_run P A i_v t s)) (fa_BK A) (\<lambda>i. i < fa_K A) i))
       = lanes P (fa_K A) (vq A bos h t)"
proof (rule ext)
  fix i
  have "(i < fa_BK A \<and> i < fa_K A) = (i < fa_K A)" using assms by (auto simp: fwd_start_def)
  then show "to_f32 P (load (fa_q A) (fl_p_q (fwd_run P A i_v t s)) (fa_BK A) (\<lambda>i. i < fa_K A) i)
       = lanes P (fa_K A) (vq A bos h t) i"
    using assms by (simp add: fwd_start_def run_p_q load_shift rows_def lanes_def)
qed

lemma run_load_v:
  assumes "fwd_start A i_v bos h S0 s" "j < fa_BV A" "i_v * fa_BV A + j < fa_V A"
  shows "load (fa_v A) (fl_p_v (fwd_run P A i_v t s)) (fa_BV A) (\<lambda>j. i_v * fa_BV A + j < fa_V A) j =
      vv A bos h t (i_v * fa_BV A + j)"
  using assms by (simp add: fwd_start_def run_p_v load_shift rows_def)

lemma run_load_beta:
  assumes "fwd_start A i_v bos h S0 s" "j < fa_BV A" "i_v * fa_BV A + j < fa_V A"
  shows "(if fa_IS_BETA_HEADWISE A
          then to_f32 P (load (fa_beta A) (fl_p_beta (fwd_run P A i_v t s)) (fa_BV A) (\<lambda>j. i_v * fa_BV A + j < fa_V A) j)
          else to_f32 P (fa_beta A (fl_p_beta (fwd_run P A i_v t s))))
      = to_f32 P (vb A bos h t (i_v * fa_BV A + j))"
proof (cases "fa_IS_BETA_HEADWISE A")
  case True
  then show ?thesis using assms
    by (simp add: fwd_start_def run_p_beta load_shift beta_rows_def)
next
  case False
  then show ?thesis using assms
    by (simp add: fwd_start_def run_p_beta beta_rows_def algebra_simps)
qed

lemma bh_run:
  assumes st: "fwd_start A i_v bos h S0 s" and j: "j < fa_BV A" "i_v * fa_BV A + j < fa_V A"
  shows "fl_b_h (fwd_run P A i_v t s) j = (\<lambda>i. ref_s P A bos h S0 t i (i_v * fa_BV A + j))"
proof (induction t)
  case 0
  show ?case using st j by (simp add: fwd_start_def)
next
  case (Suc t)
  let ?s = "fwd_run P A i_v t s"
  note lk = run_load_k[OF st, where P = P and t = t, THEN fun_cong]
    and lv = run_load_v[OF st j, where P = P and t = t]
    and lb = run_load_beta[OF st j, where P = P and t = t]
  have bh: "fl_b_h ?s j i = ref_s P A bos h S0 t i (i_v * fa_BV A + j)" for i
    using Suc.IH by (simp add: fun_eq_iff)
  show ?case
    apply (simp only: funpow.simps o_apply step_b_h)
    apply (rule ext)
    apply (simp only: lk lv lb bh rec_state.simps Let_def)
    done
qed

lemma run_delta:
  assumes st: "fwd_start A i_v bos h S0 s" and j: "j < fa_BV A" "i_v * fa_BV A + j < fa_V A"
  shows "to_f32 P (load (fa_v A) (fl_p_v (fwd_run P A i_v t s)) (fa_BV A) (\<lambda>j. i_v * fa_BV A + j < fa_V A) j) -
         tl_sum P (fa_BK A) (\<lambda>i. fl_b_h (fwd_run P A i_v t s) j i *
            to_f32 P (load (fa_k A) (fl_p_k (fwd_run P A i_v t s)) (fa_BK A) (\<lambda>i. i < fa_K A) i))
       = rec_delta P (fa_BK A) (fa_K A) (vk A bos h) (vv A bos h) (vb A bos h) S0 t (i_v * fa_BV A + j)"
proof -
  note lk = run_load_k[OF st, where P = P and t = t, THEN fun_cong]
    and lv = run_load_v[OF st j, where P = P and t = t]
  have bh: "fl_b_h (fwd_run P A i_v t s) j i = ref_s P A bos h S0 t i (i_v * fa_BV A + j)" for i
    using bh_run[OF st j, where P = P and t = t] by (simp add: fun_eq_iff)
  show ?thesis by (simp only: lk lv bh rec_delta_def)
qed

lemma run_out:
  assumes st: "fwd_start A i_v bos h S0 s" and j: "j < fa_BV A" "i_v * fa_BV A + j < fa_V A"
  shows "tl_sum P (fa_BK A) (\<lambda>i. fl_b_h (fwd_run P A i_v (Suc t) s) j i *
            (to_f32 P (load (fa_q A) (fl_p_q (fwd_run P A i_v t s)) (fa_BK A) (\<lambda>i. i < fa_K A) i) * fa_scale A))
       = rec_output P (fa_BK A) (fa_K A) (fa_scale A) (vq A bos h) (vk A bos h) (vv A bos h) (vb A bos h) S0 t
           (i_v * fa_BV A + j)"
proof -
  note lq = run_load_q[OF st, where P = P and t = t, THEN fun_cong]
  have bh: "fl_b_h (fwd_run P A i_v (Suc t) s) j i = ref_s P A bos h S0 (Suc t) i (i_v * fa_BV A + j)" for i
    using bh_run[OF st j, where P = P and t = "Suc t"] by (simp only: fun_eq_iff)
  show ?thesis by (simp only: lq bh rec_output_def)
qed

lemma store_other: "(\<And>j. j < n \<Longrightarrow> msk j \<Longrightarrow> a \<noteq> p + j) \<Longrightarrow> store m p n msk val a = m a"
  by (auto simp: store_def) (metis add_diff_inverse_nat less_diff_conv2 not_less add.commute)

lemma store_same: "j < n \<Longrightarrow> msk j \<Longrightarrow> store m p n msk val (p + j) = val j"
  by (simp add: store_def)

lemma u_run_frame:
  assumes st: "fwd_start A i_v bos h S0 s"
    and nw: "\<And>t' j. t' < t \<Longrightarrow> j < fa_BV A \<Longrightarrow> i_v * fa_BV A + j < fa_V A \<Longrightarrow>
               a \<noteq> cell (fa_H A) (fa_V A) (bos + t') h (i_v * fa_BV A + j)"
  shows "fl_u (fwd_run P A i_v t s) a = fl_u s a"
  using nw
proof (induction t)
  case 0
  show ?case by simp
next
  case (Suc t)
  have pu: "fl_p_u (fwd_run P A i_v t s) + j = cell (fa_H A) (fa_V A) (bos + t) h (i_v * fa_BV A + j)" for j
    using st by (simp add: fwd_start_def run_p_u cell_def algebra_simps)
  have "fl_u (fwd_run P A i_v (Suc t) s) a = fl_u (fwd_run P A i_v t s) a"
    unfolding funpow.simps o_apply step_u
    by (rule store_other) (use Suc.prems pu in auto)
  then show ?case using Suc by simp
qed

lemma o_run_frame:
  assumes st: "fwd_start A i_v bos h S0 s"
    and nw: "\<And>t' j. t' < t \<Longrightarrow> j < fa_BV A \<Longrightarrow> i_v * fa_BV A + j < fa_V A \<Longrightarrow>
               a \<noteq> cell (fa_H A) (fa_V A) (bos + t') h (i_v * fa_BV A + j)"
  shows "fl_o (fwd_run P A i_v t s) a = fl_o s a"
  using nw
proof (induction t)
  case 0
  show ?case by simp
next
  case (Suc t)
  have pu: "fl_p_o (fwd_run P A i_v t s) + j = cell (fa_H A) (fa_V A) (bos + t) h (i_v * fa_BV A + j)" for j
    using st by (simp add: fwd_start_def run_p_o cell_def algebra_simps)
  have "fl_o (fwd_run P A i_v (Suc t) s) a = fl_o (fwd_run P A i_v t s) a"
    unfolding funpow.simps o_apply step_o
    by (rule store_other) (use Suc.prems pu in auto)
  then show ?case using Suc by simp
qed

lemma u_run_own:
  assumes st: "fwd_start A i_v bos h S0 s" and h: "h < fa_H A"
    and t': "t' < t" and j: "j < fa_BV A" "i_v * fa_BV A + j < fa_V A"
  shows "fl_u (fwd_run P A i_v t s) (cell (fa_H A) (fa_V A) (bos + t') h (i_v * fa_BV A + j))
       = ref_u P A bos h S0 t' (i_v * fa_BV A + j)"
  using t'
proof (induction t)
  case 0
  then show ?case by simp
next
  case (Suc t)
  have pu: "fl_p_u (fwd_run P A i_v t s) + j = cell (fa_H A) (fa_V A) (bos + t) h (i_v * fa_BV A + j)" for j
    using st by (simp add: fwd_start_def run_p_u cell_def algebra_simps)
  show ?case
  proof (cases "t' = t")
    case True
    show ?thesis
      unfolding funpow.simps o_apply step_u True pu[symmetric]
      by (simp only: store_same[OF j(1), of "\<lambda>j. i_v * fa_BV A + j < fa_V A", OF j(2)] run_delta[OF st j])
  next
    case False
    then have lt: "t' < t" using Suc.prems by simp
    have "fl_u (fwd_run P A i_v (Suc t) s) (cell (fa_H A) (fa_V A) (bos + t') h (i_v * fa_BV A + j))
        = fl_u (fwd_run P A i_v t s) (cell (fa_H A) (fa_V A) (bos + t') h (i_v * fa_BV A + j))"
      unfolding funpow.simps o_apply step_u
    proof (rule store_other)
      fix j' assume j': "j' < fa_BV A" "i_v * fa_BV A + j' < fa_V A"
      show "cell (fa_H A) (fa_V A) (bos + t') h (i_v * fa_BV A + j) \<noteq> fl_p_u (fwd_run P A i_v t s) + j'"
        unfolding pu using cell_inj[OF h h j(2) j'(2), of "bos + t'" "bos + t"] lt by auto
    qed
    then show ?thesis using Suc.IH[OF lt] by simp
  qed
qed

lemma o_run_own:
  assumes st: "fwd_start A i_v bos h S0 s" and h: "h < fa_H A"
    and t': "t' < t" and j: "j < fa_BV A" "i_v * fa_BV A + j < fa_V A"
  shows "fl_o (fwd_run P A i_v t s) (cell (fa_H A) (fa_V A) (bos + t') h (i_v * fa_BV A + j))
       = ref_o P A bos h S0 t' (i_v * fa_BV A + j)"
  using t'
proof (induction t)
  case 0
  then show ?case by simp
next
  case (Suc t)
  have pu: "fl_p_o (fwd_run P A i_v t s) + j = cell (fa_H A) (fa_V A) (bos + t) h (i_v * fa_BV A + j)" for j
    using st by (simp add: fwd_start_def run_p_o cell_def algebra_simps)
  show ?case
  proof (cases "t' = t")
    case True
    have "fl_o (fwd_run P A i_v (Suc t) s) (fl_p_o (fwd_run P A i_v t s) + j) =
        to_elem P (tl_sum P (fa_BK A) (\<lambda>i. fl_b_h (fwd_run P A i_v (Suc t) s) j i *
            (to_f32 P (load (fa_q A) (fl_p_q (fwd_run P A i_v t s)) (fa_BK A) (\<lambda>i. i < fa_K A) i) * fa_scale A)))"
      using store_same[OF j(1), of "\<lambda>j. i_v * fa_BV A + j < fa_V A", OF j(2)]
      by (simp add: step_o)
    then show ?thesis
      unfolding True pu by (simp only: run_out[OF st j])
  next
    case False
    then have lt: "t' < t" using Suc.prems by simp
    have "fl_o (fwd_run P A i_v (Suc t) s) (cell (fa_H A) (fa_V A) (bos + t') h (i_v * fa_BV A + j))
        = fl_o (fwd_run P A i_v t s) (cell (fa_H A) (fa_V A) (bos + t') h (i_v * fa_BV A + j))"
      unfolding funpow.simps o_apply step_o
    proof (rule store_other)
      fix j' assume j': "j' < fa_BV A" "i_v * fa_BV A + j' < fa_V A"
      show "cell (fa_H A) (fa_V A) (bos + t') h (i_v * fa_BV A + j) \<noteq> fl_p_o (fwd_run P A i_v t s) + j'"
        unfolding pu using cell_inj[OF h h j(2) j'(2), of "bos + t'" "bos + t"] lt by auto
    qed
    then show ?thesis using Suc.IH[OF lt] by simp
  qed
qed

lemma np2_ge:
  assumes "1 \<le> n"
  shows "n \<le> next_power_of_2 n"
proof -
  have g: "0 \<le> a \<Longrightarrow> a \<le> a OR drop_bit m a" for a :: int and m
    by (rule or_greater_eq) simp
  define a0 where "a0 = n - 1"
  define a1 where "a1 = a0 OR drop_bit 1 a0"
  define a2 where "a2 = a1 OR drop_bit 2 a1"
  define a3 where "a3 = a2 OR drop_bit 4 a2"
  define a4 where "a4 = a3 OR drop_bit 8 a3"
  define a5 where "a5 = a4 OR drop_bit 16 a4"
  define a6 where "a6 = a5 OR drop_bit 32 a5"
  have "0 \<le> a0" using assms by (simp add: a0_def)
  then have 1: "a0 \<le> a1" "0 \<le> a1" using g[of a0 1] by (simp_all add: a1_def)
  then have 2: "a1 \<le> a2" "0 \<le> a2" using g[of a1 2] by (simp_all add: a2_def)
  then have 3: "a2 \<le> a3" "0 \<le> a3" using g[of a2 4] by (simp_all add: a3_def)
  then have 4: "a3 \<le> a4" "0 \<le> a4" using g[of a3 8] by (simp_all add: a4_def)
  then have 5: "a4 \<le> a5" "0 \<le> a5" using g[of a4 16] by (simp_all add: a5_def)
  then have 6: "a5 \<le> a6" "0 \<le> a6" using g[of a5 32] by (simp_all add: a6_def)
  have "next_power_of_2 n = a6 + 1"
    by (simp add: next_power_of_2_def Let_def a0_def a1_def a2_def a3_def a4_def a5_def a6_def)
  then show ?thesis using 1 2 3 4 5 6 by (simp add: a0_def)
qed

lemma cdiv_one: "0 < K \<Longrightarrow> K \<le> BK \<Longrightarrow> cdiv K BK = Inr 1"
proof -
  assume a: "0 < K" "K \<le> BK"
  then have "(K + BK - 1) div BK = 1"
    by (intro div_nat_eqI) auto
  then show ?thesis using a by (simp add: cdiv_def)
qed

lemma cdiv_cover:
  fixes c V BV :: nat
  assumes a: "0 < BV" "c < V"
  shows "c div BV < (V + BV - 1) div BV"
proof -
  have "c div BV * BV \<le> c" by simp
  then have "c div BV * BV + BV \<le> V + BV - 1" using a by linarith
  then have "(c div BV + 1) * BV \<le> V + BV - 1" by (simp add: algebra_simps)
  then have "c div BV + 1 \<le> (V + BV - 1) div BV" using a(1)
    by (simp add: less_eq_div_iff_mult_less_eq)
  then show ?thesis by simp
qed

lemma set_programs: "set (programs (n0, n1, n2)) = {(i0, i1, i2). i0 < n0 \<and> i1 < n1 \<and> i2 < n2}"
  by (force simp: programs_def)

lemma fold_upd_other:
  assumes "\<And>i j. (i, j) \<in> set xs \<Longrightarrow> c i j \<Longrightarrow> a \<noteq> addr i j"
  shows "fold (\<lambda>(i, j) m'. if c i j then m'(addr i j := val i j) else m') xs m a = m a"
  using assms by (induction xs arbitrary: m) auto

lemma fold_upd_same:
  assumes "\<exists>(i, j) \<in> set xs. c i j \<and> addr i j = a"
    and "\<And>i j. (i, j) \<in> set xs \<Longrightarrow> c i j \<Longrightarrow> addr i j = a \<Longrightarrow> val i j = w"
  shows "fold (\<lambda>(i, j) m'. if c i j then m'(addr i j := val i j) else m') xs m a = w"
  using assms
proof (induction xs arbitrary: m)
  case Nil
  then show ?case by simp
next
  case (Cons x xs)
  obtain i0 j0 where x: "x = (i0, j0)" by (cases x)
  let ?f = "(\<lambda>(i, j) m'. if c i j then m'(addr i j := val i j) else m')"
  show ?case
  proof (cases "\<exists>(i, j) \<in> set xs. c i j \<and> addr i j = a")
    case True
    have "fold ?f xs (?f x m) a = w"
      by (rule Cons.IH[OF True]) (use Cons.prems(2) in auto)
    then show ?thesis by simp
  next
    case False
    then have h: "c i0 j0" "addr i0 j0 = a" using Cons.prems(1) x by auto
    have "fold ?f xs (?f x m) a = (?f x m) a"
      by (rule fold_upd_other) (use False in auto)
    also have "\<dots> = w" using h x Cons.prems(2)[of i0 j0] by simp
    finally show ?thesis by simp
  qed
qed

lemma store_state_other:
  assumes "\<And>i j. i < BK \<Longrightarrow> j < BV \<Longrightarrow> mk i \<Longrightarrow> mv j \<Longrightarrow> a \<noteq> addr i j"
  shows "store_state m addr BK BV mk mv val a = m a"
  unfolding store_state_def
  by (rule fold_upd_other[where c = "\<lambda>i j. mk i \<and> mv j"]) (use assms in auto)

lemma store_state_same:
  assumes "i < BK" "j < BV" "mk i" "mv j"
    and "\<And>i' j'. i' < BK \<Longrightarrow> j' < BV \<Longrightarrow> mk i' \<Longrightarrow> mv j' \<Longrightarrow> addr i' j' = addr i j \<Longrightarrow> i' = i \<and> j' = j"
  shows "store_state m addr BK BV mk mv val (addr i j) = val i j"
  unfolding store_state_def
  by (rule fold_upd_same[where c = "\<lambda>i j. mk i \<and> mv j"]) (use assms in force)+


lemma fwd_init_start:
  "fa_K A \<le> fa_BK A \<Longrightarrow>
   fwd_start A i_v (seq_bos (fa_cu_seqlens A) (fa_B A) (fa_T A) (i_nh div fa_H A)) (i_nh mod fa_H A)
     (ref_init P A i_nh) (fwd_init P A i_v i_nh M)"
  by (cases "fa_h0 A") (simp_all add: fwd_start_def fwd_init_def Let_def rec_init_def fun_eq_iff)

lemma fwd_init_mem [simp]: "fl_u (fwd_init P A i_v i_nh M) = fm_u M" "fl_o (fwd_init P A i_v i_nh M) = fm_o M"
  by (simp_all add: fwd_init_def Let_def)

lemma kernel_unfold:
  assumes kb: "fa_K A \<le> fa_BK A"
  shows "fused_recurrent_delta_rule_fwd_kernel P A (i_v, 0, i_nh) M =
     (let s = fwd_run P A i_v (seq_len (fa_cu_seqlens A) (fa_B A) (fa_T A) (i_nh div fa_H A)) (fwd_init P A i_v i_nh M) in
      \<lparr>fm_u = fl_u s, fm_o = fl_o s,
       fm_ht = map_option (\<lambda>ht. store_state ht (\<lambda>i j. cell (fa_K A) (fa_V A) i_nh i (i_v * fa_BV A + j))
                 (fa_BK A) (fa_BV A) (\<lambda>i. i < fa_K A) (\<lambda>j. i_v * fa_BV A + j < fa_V A)
                 (\<lambda>i j. to_f32 P (fl_b_h s j i))) (fm_ht M)\<rparr>)"
proof -
  have addr: "state_addr (i_nh * fa_K A * fa_V A) (fa_V A) (fa_BK A) (fa_BV A) 0 i_v
      = (\<lambda>i j. cell (fa_K A) (fa_V A) i_nh i (i_v * fa_BV A + j))"
    by (simp add: state_addr_def cell_def fun_eq_iff algebra_simps)
  have c: "(i < fa_BK A \<and> j < fa_BV A \<and> i < fa_K A \<and> Q) = (i < fa_K A \<and> j < fa_BV A \<and> Q)" for i j Q
    using kb by auto
  obtain bos eos all_t T where sb: "seq_bounds (fa_cu_seqlens A) (fa_B A) (fa_T A) (i_nh div fa_H A) = (bos, eos, all_t, T)"
    by (cases "seq_bounds (fa_cu_seqlens A) (fa_B A) (fa_T A) (i_nh div fa_H A)") auto
  show ?thesis
    unfolding fused_recurrent_delta_rule_fwd_kernel_def
    by (cases "fa_h0 A"; cases "fm_ht M")
      (simp_all add: sb seq_len_def seq_bos_def fwd_init_def Let_def addr load_state_def c
            cell_def cong: if_cong)
qed


lemma kernel_u_own:
  assumes kb: "fa_K A \<le> fa_BK A" and h: "0 < fa_H A"
    and t: "t < flen A (i_nh div fa_H A)" and j: "j < fa_BV A" "i_v * fa_BV A + j < fa_V A"
  shows "fm_u (fused_recurrent_delta_rule_fwd_kernel P A (i_v, 0, i_nh) M)
           (cell (fa_H A) (fa_V A) (fbos A (i_nh div fa_H A) + t) (i_nh mod fa_H A) (i_v * fa_BV A + j))
       = ref_u P A (fbos A (i_nh div fa_H A)) (i_nh mod fa_H A) (ref_init P A i_nh) t (i_v * fa_BV A + j)"
  using u_run_own[where P = P, OF fwd_init_start[OF kb, where P = P and i_nh = i_nh and M = M] _ t j] h
  by (simp add: kernel_unfold[OF kb] Let_def)

lemma kernel_o_own:
  assumes kb: "fa_K A \<le> fa_BK A" and h: "0 < fa_H A"
    and t: "t < flen A (i_nh div fa_H A)" and j: "j < fa_BV A" "i_v * fa_BV A + j < fa_V A"
  shows "fm_o (fused_recurrent_delta_rule_fwd_kernel P A (i_v, 0, i_nh) M)
           (cell (fa_H A) (fa_V A) (fbos A (i_nh div fa_H A) + t) (i_nh mod fa_H A) (i_v * fa_BV A + j))
       = ref_o P A (fbos A (i_nh div fa_H A)) (i_nh mod fa_H A) (ref_init P A i_nh) t (i_v * fa_BV A + j)"
  using o_run_own[where P = P, OF fwd_init_start[OF kb, where P = P and i_nh = i_nh and M = M] _ t j] h
  by (simp add: kernel_unfold[OF kb] Let_def)

lemma kernel_u_frame:
  assumes kb: "fa_K A \<le> fa_BK A"
    and nw: "\<And>t j. t < flen A (i_nh div fa_H A) \<Longrightarrow> j < fa_BV A \<Longrightarrow> i_v * fa_BV A + j < fa_V A \<Longrightarrow>
               a \<noteq> cell (fa_H A) (fa_V A) (fbos A (i_nh div fa_H A) + t) (i_nh mod fa_H A) (i_v * fa_BV A + j)"
  shows "fm_u (fused_recurrent_delta_rule_fwd_kernel P A (i_v, 0, i_nh) M) a = fm_u M a"
proof -
  have "fl_u (fwd_run P A i_v (flen A (i_nh div fa_H A)) (fwd_init P A i_v i_nh M)) a = fl_u (fwd_init P A i_v i_nh M) a"
    by (rule u_run_frame[OF fwd_init_start[OF kb]]) (use nw in auto)
  then show ?thesis by (simp add: kernel_unfold[OF kb] Let_def)
qed

lemma kernel_o_frame:
  assumes kb: "fa_K A \<le> fa_BK A"
    and nw: "\<And>t j. t < flen A (i_nh div fa_H A) \<Longrightarrow> j < fa_BV A \<Longrightarrow> i_v * fa_BV A + j < fa_V A \<Longrightarrow>
               a \<noteq> cell (fa_H A) (fa_V A) (fbos A (i_nh div fa_H A) + t) (i_nh mod fa_H A) (i_v * fa_BV A + j)"
  shows "fm_o (fused_recurrent_delta_rule_fwd_kernel P A (i_v, 0, i_nh) M) a = fm_o M a"
proof -
  have "fl_o (fwd_run P A i_v (flen A (i_nh div fa_H A)) (fwd_init P A i_v i_nh M)) a = fl_o (fwd_init P A i_v i_nh M) a"
    by (rule o_run_frame[OF fwd_init_start[OF kb]]) (use nw in auto)
  then show ?thesis by (simp add: kernel_unfold[OF kb] Let_def)
qed

lemma kernel_ht_none:
  assumes kb: "fa_K A \<le> fa_BK A"
  shows "fm_ht (fused_recurrent_delta_rule_fwd_kernel P A (i_v, 0, i_nh) M) = None \<longleftrightarrow> fm_ht M = None"
  by (simp add: kernel_unfold[OF kb] Let_def)

lemma kernel_ht_own:
  assumes kb: "fa_K A \<le> fa_BK A"
    and i: "i < fa_K A" and j: "j < fa_BV A" "i_v * fa_BV A + j < fa_V A"
  shows "map_option (\<lambda>ht. ht (cell (fa_K A) (fa_V A) i_nh i (i_v * fa_BV A + j)))
           (fm_ht (fused_recurrent_delta_rule_fwd_kernel P A (i_v, 0, i_nh) M))
       = map_option (\<lambda>ht. to_f32 P (ref_s P A (fbos A (i_nh div fa_H A)) (i_nh mod fa_H A) (ref_init P A i_nh) (flen A (i_nh div fa_H A)) i (i_v * fa_BV A + j))) (fm_ht M)"
proof (cases "fm_ht M")
  case None
  then show ?thesis by (simp add: kernel_unfold[OF kb] Let_def)
next
  case (Some ht)
  have ib: "i < fa_BK A" using i kb by simp
  have inj: "i' = i \<and> j' = j"
    if "i' < fa_K A" "i_v * fa_BV A + j' < fa_V A"
      "cell (fa_K A) (fa_V A) i_nh i' (i_v * fa_BV A + j') = cell (fa_K A) (fa_V A) i_nh i (i_v * fa_BV A + j)"
    for i' j'
    using cell_inj[OF that(1) i that(2) j(2) that(3)] by simp
  have "store_state ht (\<lambda>i j. cell (fa_K A) (fa_V A) i_nh i (i_v * fa_BV A + j))
                 (fa_BK A) (fa_BV A) (\<lambda>i. i < fa_K A) (\<lambda>j. i_v * fa_BV A + j < fa_V A) val
                 (cell (fa_K A) (fa_V A) i_nh i (i_v * fa_BV A + j)) = val i j" for val
    by (rule store_state_same[where mk = "\<lambda>i. i < fa_K A" and mv = "\<lambda>j. i_v * fa_BV A + j < fa_V A"
          and addr = "\<lambda>i j. cell (fa_K A) (fa_V A) i_nh i (i_v * fa_BV A + j)", OF ib j(1) i j(2)])
       (rule inj)
  then show ?thesis
    using i j by (simp add: kernel_unfold[OF kb] Let_def Some bh_run[OF fwd_init_start[OF kb]])
qed

lemma kernel_ht_frame:
  assumes kb: "fa_K A \<le> fa_BK A"
    and nw: "\<And>i j. i < fa_K A \<Longrightarrow> j < fa_BV A \<Longrightarrow> i_v * fa_BV A + j < fa_V A \<Longrightarrow>
               a \<noteq> cell (fa_K A) (fa_V A) i_nh i (i_v * fa_BV A + j)"
  shows "map_option (\<lambda>ht. ht a) (fm_ht (fused_recurrent_delta_rule_fwd_kernel P A (i_v, 0, i_nh) M))
       = map_option (\<lambda>ht. ht a) (fm_ht M)"
proof (cases "fm_ht M")
  case None
  then show ?thesis by (simp add: kernel_unfold[OF kb] Let_def)
next
  case (Some ht)
  have "store_state ht (\<lambda>i j. cell (fa_K A) (fa_V A) i_nh i (i_v * fa_BV A + j))
                 (fa_BK A) (fa_BV A) (\<lambda>i. i < fa_K A) (\<lambda>j. i_v * fa_BV A + j < fa_V A) val a = ht a" for val
    by (rule store_state_other) (use nw in auto)
  then show ?thesis
    by (simp add: kernel_unfold[OF kb] Let_def Some)
qed

lemma fold_cell:
  assumes own: "\<And>M. p0 \<in> set ps \<Longrightarrow> get (f p0 M) = w M"
    and frame: "\<And>p M. p \<in> set ps \<Longrightarrow> p \<noteq> p0 \<Longrightarrow> get (f p M) = get M"
    and inv: "\<And>p M. p \<in> set ps \<Longrightarrow> w (f p M) = w M"
  shows "get (fold f ps M) = (if p0 \<in> set ps then w M else get M)"
  using assms
proof (induction ps arbitrary: M)
  case Nil
  show ?case by simp
next
  case (Cons p ps)
  have IH: "get (fold f ps (f p M)) = (if p0 \<in> set ps then w (f p M) else get (f p M))"
    by (rule Cons.IH) (use Cons.prems in auto)
  show ?case
  proof (cases "p0 \<in> set ps")
    case True
    then show ?thesis using IH Cons.prems(3)[of p M] by simp
  next
    case False
    show ?thesis
    proof (cases "p = p0")
      case True
      then show ?thesis using IH False Cons.prems(1)[of M] by simp
    next
      case False
      then show ?thesis using IH \<open>p0 \<notin> set ps\<close> Cons.prems(2)[of p M] by auto
    qed
  qed
qed

lemma seq_disjoint:
  assumes ok: "seqs_ok cu" and n: "n < seq_count cu B" "n' < seq_count cu B"
    and t: "t < seq_len cu B T n" "t' < seq_len cu B T n'"
    and e: "seq_bos cu B T n + t = seq_bos cu B T n' + t'"
  shows "n = n'"
proof (cases cu)
  case None
  then have tt: "t < T" "t' < T" and ee: "n * T + t = n' * T + t'"
    using t e by (simp_all add: seq_len_def seq_bos_def seq_bounds_def)
  have "(n * T + t) div T = n" "(n' * T + t') div T = n'" using tt by simp_all
  then show ?thesis using ee by simp
next
  case (Some c)
  then have s: "sorted c" and nn: "n + 1 < length c" "n' + 1 < length c"
    using ok n by (simp_all add: seqs_ok_def seq_count_def)
  have tt: "c ! n + t < c ! (n + 1)" "c ! n' + t' < c ! (n' + 1)" and ee: "c ! n + t = c ! n' + t'"
    using t e Some by (simp_all add: seq_len_def seq_bos_def seq_bounds_def)
  show ?thesis
  proof (rule ccontr)
    assume "n \<noteq> n'"
    then consider "n + 1 \<le> n'" | "n' + 1 \<le> n" by linarith
    then show False
    proof cases
      case 1
      then have "c ! (n + 1) \<le> c ! n'" using s nn by (simp add: sorted_nth_mono)
      then show False using tt ee by linarith
    next
      case 2
      then have "c ! (n' + 1) \<le> c ! n" using s nn by (simp add: sorted_nth_mono)
      then show False using tt ee by linarith
    qed
  qed
qed


lemma unit_index: "h < H \<Longrightarrow> (n * H + h) div H = n \<and> (n * H + h) mod H = (h::nat)"
  by simp

lemma unit_less: "n < N \<Longrightarrow> h < H \<Longrightarrow> n * H + h < N * (H::nat)"
proof -
  assume a: "n < N" "h < H"
  then have "n * H + h < (n + 1) * H" by simp
  also have "\<dots> \<le> N * H" using a(1) by (intro mult_le_mono1) simp
  finally show ?thesis .
qed

lemma block_index: "0 < BV \<Longrightarrow> c div BV * BV + c mod BV = (c::nat) \<and> c mod BV < BV"
  by simp

lemma not_owner:
  assumes ok: "seqs_ok (fa_cu_seqlens A)"
    and n: "n < seq_count (fa_cu_seqlens A) (fa_B A)" and h: "h < fa_H A"
    and t: "t < flen A n" and c: "c < fa_V A"
    and p: "i_nh' < seq_count (fa_cu_seqlens A) (fa_B A) * fa_H A" "(i_v', i_nh') \<noteq> (c div fa_BV A, n * fa_H A + h)"
    and t': "t' < flen A (i_nh' div fa_H A)" and j': "j' < fa_BV A" "i_v' * fa_BV A + j' < fa_V A"
  shows "cell (fa_H A) (fa_V A) (fbos A n + t) h c \<noteq>
         cell (fa_H A) (fa_V A) (fbos A (i_nh' div fa_H A) + t') (i_nh' mod fa_H A) (i_v' * fa_BV A + j')"
proof
  assume e: "cell (fa_H A) (fa_V A) (fbos A n + t) h c =
         cell (fa_H A) (fa_V A) (fbos A (i_nh' div fa_H A) + t') (i_nh' mod fa_H A) (i_v' * fa_BV A + j')"
  have h': "i_nh' mod fa_H A < fa_H A" using h by simp
  have n': "i_nh' div fa_H A < seq_count (fa_cu_seqlens A) (fa_B A)"
    using p(1) h by (simp add: less_mult_imp_div_less)
  from cell_inj[OF h h' c j'(2) e]
  have r: "fbos A n + t = fbos A (i_nh' div fa_H A) + t'" and hh: "h = i_nh' mod fa_H A" and cc: "c = i_v' * fa_BV A + j'"
    by simp_all
  have "n = i_nh' div fa_H A" by (rule seq_disjoint[OF ok n n' t t' r])
  then have "i_nh' = n * fa_H A + h" using hh by simp
  moreover have "c div fa_BV A = i_v'" using cc j'(1) by simp
  ultimately show False using p(2) by simp
qed

lemma launch_u:
  assumes kb: "fa_K A \<le> fa_BK A" and bv: "0 < fa_BV A" and ok: "seqs_ok (fa_cu_seqlens A)"
    and n: "n < seq_count (fa_cu_seqlens A) (fa_B A)" and h: "h < fa_H A"
    and t: "t < flen A n" and c: "c < fa_V A" and nv: "c div fa_BV A < NV"
  shows "fm_u (launch (NV, 1, seq_count (fa_cu_seqlens A) (fa_B A) * fa_H A)
                 (fused_recurrent_delta_rule_fwd_kernel P A) M)
           (cell (fa_H A) (fa_V A) (fbos A n + t) h c)
       = ref_u P A (fbos A n) h (ref_init P A (n * fa_H A + h)) t c"
proof -
  let ?ps = "programs (NV, 1, seq_count (fa_cu_seqlens A) (fa_B A) * fa_H A)"
  let ?p0 = "(c div fa_BV A, 0::nat, n * fa_H A + h)"
  let ?a = "cell (fa_H A) (fa_V A) (fbos A n + t) h c"
  let ?w = "ref_u P A (fbos A n) h (ref_init P A (n * fa_H A + h)) t c"
  have mem: "?p0 \<in> set ?ps"
    using nv unit_less[OF n h] by (simp add: set_programs)
  have hp: "0 < fa_H A" using h by simp
  have own: "fm_u (fused_recurrent_delta_rule_fwd_kernel P A ?p0 M') ?a = ?w" for M'
    using kernel_u_own[OF kb hp, where t = t and i_nh = "n * fa_H A + h" and j = "c mod fa_BV A"
        and i_v = "c div fa_BV A" and M = M' and P = P] t c bv h
    by simp
  have frame: "fm_u (fused_recurrent_delta_rule_fwd_kernel P A p M') ?a = fm_u M' ?a"
    if pin: "p \<in> set ?ps" and pne: "p \<noteq> ?p0" for p M'
  proof -
    obtain i_v' i_nh' where p: "p = (i_v', 0, i_nh')" "i_nh' < seq_count (fa_cu_seqlens A) (fa_B A) * fa_H A"
      by (cases p) (use pin in \<open>auto simp: set_programs\<close>)
    have ne: "(i_v', i_nh') \<noteq> (c div fa_BV A, n * fa_H A + h)" using pne p by simp
    show ?thesis unfolding p(1)
      by (rule kernel_u_frame[OF kb]) (rule not_owner[OF ok n h t c p(2) ne])
  qed
  have "(\<lambda>M. fm_u M ?a) (fold (fused_recurrent_delta_rule_fwd_kernel P A) ?ps M) =
        (if ?p0 \<in> set ?ps then (\<lambda>_. ?w) M else (\<lambda>M. fm_u M ?a) M)"
    by (rule fold_cell) (use own frame in auto)
  then show ?thesis using mem by (simp add: launch_def)
qed

lemma launch_o:
  assumes kb: "fa_K A \<le> fa_BK A" and bv: "0 < fa_BV A" and ok: "seqs_ok (fa_cu_seqlens A)"
    and n: "n < seq_count (fa_cu_seqlens A) (fa_B A)" and h: "h < fa_H A"
    and t: "t < flen A n" and c: "c < fa_V A" and nv: "c div fa_BV A < NV"
  shows "fm_o (launch (NV, 1, seq_count (fa_cu_seqlens A) (fa_B A) * fa_H A)
                 (fused_recurrent_delta_rule_fwd_kernel P A) M)
           (cell (fa_H A) (fa_V A) (fbos A n + t) h c)
       = ref_o P A (fbos A n) h (ref_init P A (n * fa_H A + h)) t c"
proof -
  let ?ps = "programs (NV, 1, seq_count (fa_cu_seqlens A) (fa_B A) * fa_H A)"
  let ?p0 = "(c div fa_BV A, 0::nat, n * fa_H A + h)"
  let ?a = "cell (fa_H A) (fa_V A) (fbos A n + t) h c"
  let ?w = "ref_o P A (fbos A n) h (ref_init P A (n * fa_H A + h)) t c"
  have mem: "?p0 \<in> set ?ps"
    using nv unit_less[OF n h] by (simp add: set_programs)
  have hp: "0 < fa_H A" using h by simp
  have own: "fm_o (fused_recurrent_delta_rule_fwd_kernel P A ?p0 M') ?a = ?w" for M'
    using kernel_o_own[OF kb hp, where t = t and i_nh = "n * fa_H A + h" and j = "c mod fa_BV A"
        and i_v = "c div fa_BV A" and M = M' and P = P] t c bv h
    by simp
  have frame: "fm_o (fused_recurrent_delta_rule_fwd_kernel P A p M') ?a = fm_o M' ?a"
    if pin: "p \<in> set ?ps" and pne: "p \<noteq> ?p0" for p M'
  proof -
    obtain i_v' i_nh' where p: "p = (i_v', 0, i_nh')" "i_nh' < seq_count (fa_cu_seqlens A) (fa_B A) * fa_H A"
      by (cases p) (use pin in \<open>auto simp: set_programs\<close>)
    have ne: "(i_v', i_nh') \<noteq> (c div fa_BV A, n * fa_H A + h)" using pne p by simp
    show ?thesis unfolding p(1)
      by (rule kernel_o_frame[OF kb]) (rule not_owner[OF ok n h t c p(2) ne])
  qed
  have "(\<lambda>M. fm_o M ?a) (fold (fused_recurrent_delta_rule_fwd_kernel P A) ?ps M) =
        (if ?p0 \<in> set ?ps then (\<lambda>_. ?w) M else (\<lambda>M. fm_o M ?a) M)"
    by (rule fold_cell) (use own frame in auto)
  then show ?thesis using mem by (simp add: launch_def)
qed

lemma launch_ht:
  fixes P :: "('a::{zero,plus,minus,times}) prims"
  assumes kb: "fa_K A \<le> fa_BK A" and bv: "0 < fa_BV A"
    and nh: "nh < NH" and i: "i < fa_K A" and c: "c < fa_V A" and nv: "c div fa_BV A < NV"
  shows "map_option (\<lambda>ht. ht (cell (fa_K A) (fa_V A) nh i c))
           (fm_ht (launch (NV, 1, NH) (fused_recurrent_delta_rule_fwd_kernel P A) M))
       = map_option (\<lambda>ht. to_f32 P (ref_s P A (fbos A (nh div fa_H A)) (nh mod fa_H A) (ref_init P A nh) (flen A (nh div fa_H A)) i c)) (fm_ht M)"
proof -
  let ?ps = "programs (NV, 1, NH)"
  let ?p0 = "(c div fa_BV A, 0::nat, nh)"
  let ?a = "cell (fa_K A) (fa_V A) nh i c"
  let ?w = "to_f32 P (ref_s P A (fbos A (nh div fa_H A)) (nh mod fa_H A) (ref_init P A nh) (flen A (nh div fa_H A)) i c)"
  let ?get = "\<lambda>M. map_option (\<lambda>ht. ht ?a) (fm_ht M)"
  let ?W = "\<lambda>M. map_option (\<lambda>ht::'a buffer. ?w) (fm_ht M)"
  have mem: "?p0 \<in> set ?ps"
    using nv nh by (simp add: set_programs)
  have own: "?get (fused_recurrent_delta_rule_fwd_kernel P A ?p0 M') = ?W M'" for M'
    using kernel_ht_own[OF kb i, where j = "c mod fa_BV A" and i_v = "c div fa_BV A" and i_nh = nh
        and M = M' and P = P] c bv
    by simp
  have frame: "?get (fused_recurrent_delta_rule_fwd_kernel P A p M') = ?get M'"
    if pin: "p \<in> set ?ps" and pne: "p \<noteq> ?p0" for p M'
  proof -
    obtain i_v' i_nh' where p: "p = (i_v', 0, i_nh')"
      by (cases p) (use pin in \<open>auto simp: set_programs\<close>)
    have ne: "(i_v', i_nh') \<noteq> (c div fa_BV A, nh)" using pne p by simp
    show ?thesis unfolding p(1)
    proof (rule kernel_ht_frame[OF kb])
      fix i' j' assume a: "i' < fa_K A" "j' < fa_BV A" "i_v' * fa_BV A + j' < fa_V A"
      show "?a \<noteq> cell (fa_K A) (fa_V A) i_nh' i' (i_v' * fa_BV A + j')"
      proof
        assume e: "?a = cell (fa_K A) (fa_V A) i_nh' i' (i_v' * fa_BV A + j')"
        from cell_inj[OF i a(1) c a(3) e] have "nh = i_nh'" "c = i_v' * fa_BV A + j'" by simp_all
        then show False using ne a(2) by simp
      qed
    qed
  qed
  have inv: "?W (fused_recurrent_delta_rule_fwd_kernel P A p M') = ?W M'" if pin: "p \<in> set ?ps" for p M'
  proof -
    obtain i_v' i_nh' where p: "p = (i_v', 0, i_nh')"
      by (cases p) (use pin in \<open>auto simp: set_programs\<close>)
    show ?thesis using kernel_ht_none[OF kb, where i_v = i_v' and i_nh = i_nh' and M = M' and P = P] unfolding p
      by (cases "fm_ht M'"; cases "fm_ht (fused_recurrent_delta_rule_fwd_kernel P A (i_v', 0, i_nh') M')") simp_all
  qed
  have "?get (fold (fused_recurrent_delta_rule_fwd_kernel P A) ?ps M) =
        (if ?p0 \<in> set ?ps then ?W M else ?get M)"
    by (rule fold_cell[where get = ?get and w = ?W]) (use own frame inv in auto)
  then show ?thesis using mem by (simp add: launch_def)
qed

lemma np2_nat: "0 < K \<Longrightarrow> K \<le> nat (next_power_of_2 (int K))"
  using np2_ge[of "int K"] by simp

lemma fwd_host_unfold:
  fixes P :: "('a::{zero,plus,minus,times}) prims"
    and q k v beta :: "'a tensor" and scale :: real and h0 :: "'a tensor option" and ofs :: bool
    and cu :: "nat list option" and fresh :: "nat \<Rightarrow> 'a buffer"
  assumes sk: "shape k = [B, T, H, K]" and sv: "shape v \<noteq> []" "last (shape v) = V"
    and K: "0 < K" and V: "0 < V" and ok: "seqs_ok cu"
  defines "BK \<equiv> nat (next_power_of_2 (int K))" and "BV \<equiv> min (nat (next_power_of_2 (int V))) 8"
  defines "M \<equiv> launch ((V + BV - 1) div BV, 1, seq_count cu B * H)
                  (fused_recurrent_delta_rule_fwd_kernel P (fwd_launch_args P q k v beta scale h0 cu T B H K V BK BV))
                  \<lparr>fm_u = fresh 2, fm_o = fresh 0, fm_ht = (if ofs then Some (fresh 1) else None)\<rparr>"
  shows "fused_recurrent_delta_rule_fwd P q k v beta scale h0 ofs cu fresh =
     Inr (\<lparr>shape = shape v, data = fm_o M, requires_grad = False\<rparr>,
          \<lparr>shape = shape v, data = fm_u M, requires_grad = False\<rparr>,
          (case fm_ht M of None \<Rightarrow> None
           | Some ht \<Rightarrow> if ofs then Some \<lparr>shape = [seq_count cu B, H, K, V], data = ht, requires_grad = False\<rparr> else None))"
proof -
  have kb: "K \<le> BK" unfolding BK_def by (rule np2_nat[OF K])
  have bv: "0 < BV" unfolding BV_def using np2_nat[OF V] V by simp
  have c1: "cdiv K BK = Inr 1" by (rule cdiv_one[OF K kb])
  have c2: "cdiv V BV = Inr ((V + BV - 1) div BV)" using bv by (simp add: cdiv_def)
  have N: "(case cu of None \<Rightarrow> int B | Some c \<Rightarrow> int (length c) - 1) = int (seq_count cu B)"
    using ok by (cases cu) (auto simp: seqs_ok_def seq_count_def Suc_leI of_nat_diff)
  show ?thesis
    unfolding fused_recurrent_delta_rule_fwd_def fwd_blocks_def sk
    using sv
    by (cases ofs; cases "fm_ht M")
       (simp_all add: Let_def c1 c2 N ebind_def new_empty_def M_def BK_def[symmetric] BV_def[symmetric])
qed


lemma fwd_launch_args_sel [simp]:
  "fa_q (fwd_launch_args P q k v beta scale h0 cu T B H K V BK BV) = data q"
  "fa_k (fwd_launch_args P q k v beta scale h0 cu T B H K V BK BV) = data k"
  "fa_v (fwd_launch_args P q k v beta scale h0 cu T B H K V BK BV) = data v"
  "fa_beta (fwd_launch_args P q k v beta scale h0 cu T B H K V BK BV) = data beta"
  "fa_h0 (fwd_launch_args P q k v beta scale h0 cu T B H K V BK BV) = map_option data h0"
  "fa_cu_seqlens (fwd_launch_args P q k v beta scale h0 cu T B H K V BK BV) = cu"
  "fa_scale (fwd_launch_args P q k v beta scale h0 cu T B H K V BK BV) = of_float P scale"
  "fa_T (fwd_launch_args P q k v beta scale h0 cu T B H K V BK BV) = T"
  "fa_B (fwd_launch_args P q k v beta scale h0 cu T B H K V BK BV) = B"
  "fa_H (fwd_launch_args P q k v beta scale h0 cu T B H K V BK BV) = H"
  "fa_K (fwd_launch_args P q k v beta scale h0 cu T B H K V BK BV) = K"
  "fa_V (fwd_launch_args P q k v beta scale h0 cu T B H K V BK BV) = V"
  "fa_BK (fwd_launch_args P q k v beta scale h0 cu T B H K V BK BV) = BK"
  "fa_BV (fwd_launch_args P q k v beta scale h0 cu T B H K V BK BV) = BV"
  "fa_IS_BETA_HEADWISE (fwd_launch_args P q k v beta scale h0 cu T B H K V BK BV) = (length (shape beta) = length (shape v))"
  by (simp_all add: fwd_launch_args_def)

lemma fwd_host_gen:
  fixes P :: "('a::{zero,plus,minus,times}) prims"
    and q k v beta :: "'a tensor" and scale :: real and h0 :: "'a tensor option" and ofs :: bool
    and cu :: "nat list option" and fresh :: "nat \<Rightarrow> 'a buffer"
  assumes sk: "shape k = [B, T, H, K]" and sv: "shape v \<noteq> []" "last (shape v) = V"
    and K: "0 < K" and V: "0 < V" and ok: "seqs_ok cu"
    and n: "n < seq_count cu B" and h: "h < H"
  defines "bos \<equiv> seq_bos cu B T n" and "L \<equiv> seq_len cu B T n"
  defines "qs \<equiv> rows (data q) H K bos h" and "ks \<equiv> rows (data k) H K bos h"
    and "vs \<equiv> rows (data v) H V bos h"
    and "bs \<equiv> beta_rows (data beta) (length (shape beta) = length (shape v)) H V bos h"
    and "BK \<equiv> nat (next_power_of_2 (int K))"
    and "S0 \<equiv> rec_init P (map_option data h0) K V (n * H + h)"
  shows "\<exists>o_t u ht. fused_recurrent_delta_rule_fwd P q k v beta scale h0 ofs cu fresh = Inr (o_t, u, ht) \<and>
     shape o_t = shape v \<and> shape u = shape v \<and>
     (\<forall>t<L. \<forall>c<V. data u (cell H V (bos + t) h c) = to_elem P (rec_delta P BK K ks vs bs S0 t c) \<and>
                    data o_t (cell H V (bos + t) h c) = to_elem P (rec_output P BK K (of_float P scale) qs ks vs bs S0 t c)) \<and>
     (if ofs
      then \<exists>f. ht = Some f \<and> shape f = [seq_count cu B, H, K, V] \<and>
             (\<forall>i<K. \<forall>c<V. data f (cell K V (n * H + h) i c) = to_f32 P (rec_state P BK K ks vs bs S0 L i c))
      else ht = None)"
proof -
  define BV where "BV = min (nat (next_power_of_2 (int V))) 8"
  define A where "A = fwd_launch_args P q k v beta scale h0 cu T B H K V BK BV"
  define NV where "NV = (V + BV - 1) div BV"
  define M0 where "M0 = \<lparr>fm_u = fresh 2, fm_o = fresh 0, fm_ht = (if ofs then Some (fresh 1) else None)\<rparr>"
  define M where "M = launch (NV, 1, seq_count cu B * H) (fused_recurrent_delta_rule_fwd_kernel P A) M0"
  have res: "fused_recurrent_delta_rule_fwd P q k v beta scale h0 ofs cu fresh =
     Inr (\<lparr>shape = shape v, data = fm_o M, requires_grad = False\<rparr>,
          \<lparr>shape = shape v, data = fm_u M, requires_grad = False\<rparr>,
          (case fm_ht M of None \<Rightarrow> None
           | Some ht \<Rightarrow> if ofs then Some \<lparr>shape = [seq_count cu B, H, K, V], data = ht, requires_grad = False\<rparr> else None))"
    unfolding M_def M0_def A_def NV_def BK_def BV_def
    by (rule fwd_host_unfold[OF sk sv K V ok])
  have kb: "fa_K A \<le> fa_BK A" unfolding A_def BK_def using np2_nat[OF K] by simp
  have bv: "0 < fa_BV A" unfolding A_def BV_def using np2_nat[OF V] V by simp
  have ok': "seqs_ok (fa_cu_seqlens A)" using ok by (simp add: A_def)
  have n': "n < seq_count (fa_cu_seqlens A) (fa_B A)" using n by (simp add: A_def)
  have h': "h < fa_H A" using h by (simp add: A_def)
  have nv: "c div fa_BV A < NV" if "c < V" for c
    unfolding NV_def using cdiv_cover[of "fa_BV A" c V] bv that by (simp add: A_def)
  have u: "fm_u M (cell H V (bos + t) h c) = to_elem P (rec_delta P BK K ks vs bs S0 t c)" if "t < L" "c < V" for t c
    using launch_u[OF kb bv ok' n' h', where t = t and c = c and NV = NV and M = M0 and P = P] that nv[OF that(2)]
    by (simp add: A_def M_def bos_def L_def ks_def vs_def bs_def S0_def BK_def)
  have o: "fm_o M (cell H V (bos + t) h c) = to_elem P (rec_output P BK K (of_float P scale) qs ks vs bs S0 t c)" if "t < L" "c < V" for t c
    using launch_o[OF kb bv ok' n' h', where t = t and c = c and NV = NV and M = M0 and P = P] that nv[OF that(2)]
    by (simp add: A_def M_def bos_def L_def qs_def ks_def vs_def bs_def S0_def BK_def)
  have nh: "n * H + h < seq_count cu B * H" by (rule unit_less[OF n h])
  have ht: "map_option (\<lambda>ht. ht (cell K V (n * H + h) i c)) (fm_ht M)
       = map_option (\<lambda>ht. to_f32 P (rec_state P BK K ks vs bs S0 L i c)) (fm_ht M0)" if "i < K" "c < V" for i c
    using launch_ht[OF kb bv nh, where i = i and c = c and NV = NV and M = M0 and P = P] that nv[OF that(2)] h
    by (simp add: A_def M_def bos_def L_def ks_def vs_def bs_def S0_def BK_def)
  show ?thesis
  proof (cases ofs)
    case True
    have "fm_ht M \<noteq> None" using ht[OF K V] True by (auto simp: M0_def)
    then obtain hb where hb: "fm_ht M = Some hb" by auto
    have "hb (cell K V (n * H + h) i c) = to_f32 P (rec_state P BK K ks vs bs S0 L i c)" if "i < K" "c < V" for i c
      using ht[OF that] hb True by (simp add: M0_def)
    then show ?thesis using res u o hb True by simp
  next
    case False
    have "fm_ht M = None" using ht[OF K V] False by (simp add: M0_def)
    then show ?thesis using res u o False by simp
  qed
qed


subsection \<open>With exact arithmetic: the recurrence of the specification\<close>

lemma rec_state_exact:
  assumes kb: "K \<le> BK"
  shows "rec_state exact BK K ks vs bs (\<lambda>i j. if i < K then H0 i j else 0) t i j =
         (if i < K then spec_state K ks vs bs H0 t i j else 0)"
proof (induction t arbitrary: i j)
  case 0
  show ?case by simp
next
  case (Suc t)
  have "(\<Sum>i<BK. (if i < K then spec_state K ks vs bs H0 t i j else 0) * (if i < K then ks t i else 0)) =
        (\<Sum>i<BK. (if i < K then spec_state K ks vs bs H0 t i j * ks t i else 0))"
    by (rule sum.cong) simp_all
  also have "\<dots> = (\<Sum>i<K. spec_state K ks vs bs H0 t i j * ks t i)"
    by (rule sum_block[OF kb])
  finally show ?case
    by (simp add: Suc.IH Let_def lanes_def)
qed

lemma rec_delta_exact:
  assumes kb: "K \<le> BK"
  shows "rec_delta exact BK K ks vs bs (\<lambda>i j. if i < K then H0 i j else 0) t j = spec_delta K ks vs bs H0 t j"
proof -
  have "(\<Sum>i<BK. (if i < K then spec_state K ks vs bs H0 t i j else 0) * (if i < K then ks t i else 0)) =
        (\<Sum>i<BK. (if i < K then spec_state K ks vs bs H0 t i j * ks t i else 0))"
    by (rule sum.cong) simp_all
  also have "\<dots> = (\<Sum>i<K. spec_state K ks vs bs H0 t i j * ks t i)"
    by (rule sum_block[OF kb])
  finally show ?thesis
    by (simp add: rec_delta_def spec_delta_def rec_state_exact[OF kb] lanes_def)
qed

lemma rec_output_exact:
  assumes kb: "K \<le> BK"
  shows "rec_output exact BK K scale qs ks vs bs (\<lambda>i j. if i < K then H0 i j else 0) t j =
         spec_output K scale qs ks vs bs H0 t j"
proof -
  have "(\<Sum>i<BK. (if i < K then spec_state K ks vs bs H0 (Suc t) i j else 0) * ((if i < K then qs t i else 0) * scale)) =
        (\<Sum>i<BK. (if i < K then spec_state K ks vs bs H0 (Suc t) i j * (qs t i * scale) else 0))"
    by (rule sum.cong) simp_all
  also have "\<dots> = (\<Sum>i<K. spec_state K ks vs bs H0 (Suc t) i j * (qs t i * scale))"
    by (rule sum_block[OF kb])
  finally show ?thesis
    by (simp only: rec_output_def spec_output_def rec_state_exact[OF kb] lanes_def exact_sel)
qed

lemma rec_init_exact:
  "rec_init exact h0 K V nh = (\<lambda>i j. if i < K then state_of h0 K V nh i j else 0)"
  by (cases h0) (simp_all add: rec_init_def state_of_def fun_eq_iff)

lemma fwd_host:
  fixes q k v beta :: "real tensor" and scale :: real and h0 :: "real tensor option" and ofs :: bool
    and cu :: "nat list option" and fresh :: "nat \<Rightarrow> real buffer"
  assumes sk: "shape k = [B, T, H, K]" and sv: "shape v \<noteq> []" "last (shape v) = V"
    and K: "0 < K" and V: "0 < V" and ok: "seqs_ok cu"
    and n: "n < seq_count cu B" and h: "h < H"
  defines "bos \<equiv> seq_bos cu B T n" and "L \<equiv> seq_len cu B T n"
  defines "qs \<equiv> rows (data q) H K bos h" and "ks \<equiv> rows (data k) H K bos h"
    and "vs \<equiv> rows (data v) H V bos h"
    and "bs \<equiv> beta_rows (data beta) (length (shape beta) = length (shape v)) H V bos h"
    and "H0 \<equiv> state_of (map_option data h0) K V (n * H + h)"
  shows "\<exists>o_t u ht. fused_recurrent_delta_rule_fwd exact q k v beta scale h0 ofs cu fresh = Inr (o_t, u, ht) \<and>
     shape o_t = shape v \<and> shape u = shape v \<and>
     (\<forall>t<L. \<forall>c<V. data u (cell H V (bos + t) h c) = spec_delta K ks vs bs H0 t c \<and>
                    data o_t (cell H V (bos + t) h c) = spec_output K scale qs ks vs bs H0 t c) \<and>
     (if ofs
      then \<exists>f. ht = Some f \<and> shape f = [seq_count cu B, H, K, V] \<and>
             (\<forall>i<K. \<forall>c<V. data f (cell K V (n * H + h) i c) = spec_state K ks vs bs H0 L i c)
      else ht = None)"
proof -
  have kb: "K \<le> nat (next_power_of_2 (int K))" by (rule np2_nat[OF K])
  note e = rec_init_exact rec_delta_exact[OF kb] rec_output_exact[OF kb] rec_state_exact[OF kb] exact_sel
  show ?thesis
    unfolding bos_def L_def qs_def ks_def vs_def bs_def H0_def
    using fwd_host_gen[OF sk sv K V ok n h, where P = exact and q = q and beta = beta and scale = scale
        and ?h0.0 = h0 and ofs = ofs and fresh = fresh, unfolded e]
    by (simp cong: if_cong)
qed

lemma example_run:
  "\<exists>o_t u f. fused_recurrent_delta_rule_fwd exact example_qkv example_qkv example_qkv example_beta 1
            (Some example_h0) True None fresh = Inr (o_t, u, Some f) \<and>
      map (data o_t) [0, 1, 2] = [1, 1, 1] \<and> map (data u) [0, 1, 2] = [1, 0, 0] \<and> data f 0 = 1"
  by (simp add: fused_recurrent_delta_rule_fwd_def fwd_blocks_def example_qkv_def example_beta_def example_h0_def
      next_power_of_2_def cdiv_def ebind_def fwd_launch_args_def
      new_empty_def launch_def programs_def fused_recurrent_delta_rule_fwd_kernel_def seq_bounds_def
      eval_nat_numeral fwd_step_def load_def store_def load_state_def store_state_def state_addr_def Let_def)

section \<open>Properties of the recurrence\<close>

lemma spec_state_cong:
  assumes "\<And>t i. t < L \<Longrightarrow> i < K \<Longrightarrow> ks t i = ks' t i"
    and "\<And>t j. t < L \<Longrightarrow> j < V \<Longrightarrow> vs t j = vs' t j"
    and "\<And>t j. t < L \<Longrightarrow> j < V \<Longrightarrow> bs t j = bs' t j"
    and "\<And>i j. i < K \<Longrightarrow> j < V \<Longrightarrow> H0 i j = H0' i j"
    and "t \<le> L" "i < K" "j < V"
  shows "spec_state K ks vs bs H0 t i j = spec_state K ks' vs' bs' H0' t i j"
  using assms(5,6,7)
proof (induction t arbitrary: i j)
  case 0
  then show ?case using assms(4) by simp
next
  case (Suc t)
  have t: "t < L" "t \<le> L" using Suc.prems by simp_all
  have s: "(\<Sum>i<K. spec_state K ks vs bs H0 t i j * ks t i) = (\<Sum>i<K. spec_state K ks' vs' bs' H0' t i j * ks' t i)"
    by (rule sum.cong) (use Suc.IH[OF t(2) _ Suc.prems(3)] assms(1)[OF t(1)] in auto)
  show ?case
    using Suc.IH[OF t(2) Suc.prems(2,3)] assms(1)[OF t(1) Suc.prems(2)] assms(2)[OF t(1) Suc.prems(3)]
      assms(3)[OF t(1) Suc.prems(3)] s
    by (simp add: Let_def)
qed

lemma spec_delta_cong:
  assumes "\<And>t i. t < L \<Longrightarrow> i < K \<Longrightarrow> ks t i = ks' t i"
    and "\<And>t j. t < L \<Longrightarrow> j < V \<Longrightarrow> vs t j = vs' t j"
    and "\<And>t j. t < L \<Longrightarrow> j < V \<Longrightarrow> bs t j = bs' t j"
    and "\<And>i j. i < K \<Longrightarrow> j < V \<Longrightarrow> H0 i j = H0' i j"
    and "t < L" "j < V"
  shows "spec_delta K ks vs bs H0 t j = spec_delta K ks' vs' bs' H0' t j"
proof -
  have "(\<Sum>i<K. spec_state K ks vs bs H0 t i j * ks t i) = (\<Sum>i<K. spec_state K ks' vs' bs' H0' t i j * ks' t i)"
    by (rule sum.cong) (use spec_state_cong[OF assms(1-4), where t = t and j = j] assms(1)[OF assms(5)] assms(5,6) in auto)
  then show ?thesis using assms(2)[OF assms(5,6)] by (simp add: spec_delta_def)
qed

lemma spec_output_cong:
  assumes "\<And>t i. t < L \<Longrightarrow> i < K \<Longrightarrow> qs t i = qs' t i"
    and "\<And>t i. t < L \<Longrightarrow> i < K \<Longrightarrow> ks t i = ks' t i"
    and "\<And>t j. t < L \<Longrightarrow> j < V \<Longrightarrow> vs t j = vs' t j"
    and "\<And>t j. t < L \<Longrightarrow> j < V \<Longrightarrow> bs t j = bs' t j"
    and "\<And>i j. i < K \<Longrightarrow> j < V \<Longrightarrow> H0 i j = H0' i j"
    and "t < L" "j < V"
  shows "spec_output K scale qs ks vs bs H0 t j = spec_output K scale qs' ks' vs' bs' H0' t j"
proof -
  have "(\<Sum>i<K. spec_state K ks vs bs H0 (Suc t) i j * (qs t i * scale)) =
        (\<Sum>i<K. spec_state K ks' vs' bs' H0' (Suc t) i j * (qs' t i * scale))"
  proof (rule sum.cong)
    fix i assume "i \<in> {..<K}"
    then have i: "i < K" by simp
    have "spec_state K ks vs bs H0 (Suc t) i j = spec_state K ks' vs' bs' H0' (Suc t) i j"
      by (rule spec_state_cong[OF assms(2-5)]) (use assms(6,7) i in auto)
    then show "spec_state K ks vs bs H0 (Suc t) i j * (qs t i * scale) =
        spec_state K ks' vs' bs' H0' (Suc t) i j * (qs' t i * scale)"
      using assms(1)[OF assms(6) i] by simp
  qed simp
  then show ?thesis by (simp only: spec_output_def)
qed

lemma spec_state_shift:
  "spec_state K ks vs bs H0 (T1 + t) =
   spec_state K (\<lambda>t. ks (T1 + t)) (\<lambda>t. vs (T1 + t)) (\<lambda>t. bs (T1 + t)) (spec_state K ks vs bs H0 T1) t"
  by (induction t) (simp_all add: Let_def)

lemma spec_state_zero_beta:
  assumes "\<And>t j. bs t j = 0"
  shows "spec_state K ks vs bs H0 t = H0"
  by (induction t) (simp_all add: Let_def assms)

section \<open>The initial-state gradient buffer through a launch\<close>

lemma bwd_kernel_cases:
  "fused_recurrent_delta_rule_bwd_kernel exact A p M =
     (if ba_h0 A \<noteq> None \<and> bm_dh0 M = None then Inl TypeError
      else Inr (projr (fused_recurrent_delta_rule_bwd_kernel exact A p M)))"
  unfolding fused_recurrent_delta_rule_bwd_kernel_def
  by (cases p; cases "ba_h0 A"; cases "bm_dh0 M")
     (simp_all add: ebind_def Let_def split: prod.splits)

lemma bwd_kernel_dh0:
  assumes "fused_recurrent_delta_rule_bwd_kernel exact A p M = Inr M'"
  shows "bm_dh0 M' = None \<longleftrightarrow> bm_dh0 M = None"
  using assms unfolding fused_recurrent_delta_rule_bwd_kernel_def
  by (cases p; cases "ba_h0 A"; cases "bm_dh0 M")
     (auto simp: ebind_def Let_def split: prod.splits)

lemma ebind_Inl: "ebind (Inl e) f = Inl e" and ebind_Inr: "ebind (Inr x) f = f x"
  by (simp_all add: ebind_def)

lemma fold_ebind_Inl: "fold (\<lambda>p r. ebind r (kern p)) ps (Inl e) = Inl e"
  by (induction ps) (simp_all add: ebind_Inl)

lemma launch_e_dh0:
  assumes "fold (\<lambda>p r. ebind r (fused_recurrent_delta_rule_bwd_kernel exact A p)) ps (Inr M) = Inr M'"
  shows "bm_dh0 M' = None \<longleftrightarrow> bm_dh0 M = None"
  using assms
proof (induction ps arbitrary: M)
  case Nil
  then show ?case by simp
next
  case (Cons p ps)
  show ?case
  proof (cases "fused_recurrent_delta_rule_bwd_kernel exact A p M")
    case (Inl e)
    then show ?thesis using Cons.prems by (simp add: ebind_Inl ebind_Inr fold_ebind_Inl)
  next
    case (Inr M1)
    then have "fold (\<lambda>p r. ebind r (fused_recurrent_delta_rule_bwd_kernel exact A p)) ps (Inr M1) = Inr M'"
      using Cons.prems by (simp add: ebind_Inr)
    then show ?thesis using Cons.IH bwd_kernel_dh0[OF Inr] by simp
  qed
qed

lemma launch_e_total:
  assumes "ba_h0 A = None \<or> bm_dh0 M \<noteq> None"
  shows "\<exists>M'. fold (\<lambda>p r. ebind r (fused_recurrent_delta_rule_bwd_kernel exact A p)) ps (Inr M) = Inr M'"
  using assms
proof (induction ps arbitrary: M)
  case Nil
  then show ?case by simp
next
  case (Cons p ps)
  from Cons.prems bwd_kernel_cases[of A p M]
  obtain M1 where m: "fused_recurrent_delta_rule_bwd_kernel exact A p M = Inr M1" by auto
  have "ba_h0 A = None \<or> bm_dh0 M1 \<noteq> None" using Cons.prems bwd_kernel_dh0[OF m] by auto
  from Cons.IH[OF this] show ?case by (simp add: m ebind_Inr)
qed

lemma launch_e_fails:
  assumes "ba_h0 A \<noteq> None" "bm_dh0 M = None" "ps \<noteq> []"
  shows "fold (\<lambda>p r. ebind r (fused_recurrent_delta_rule_bwd_kernel exact A p)) ps (Inr M) = Inl TypeError"
proof (cases ps)
  case Nil
  then show ?thesis using assms by simp
next
  case (Cons p ps')
  have "fused_recurrent_delta_rule_bwd_kernel exact A p M = Inl TypeError"
    using bwd_kernel_cases[of A p M] assms by simp
  then show ?thesis by (simp add: Cons ebind_Inr fold_ebind_Inl)
qed

section \<open>Time slices\<close>

lemma time_slice_cell:
  assumes "shape x = [B, T, H, D]" "t < t1 - t0" "h < H" "i < D"
  shows "data (time_slice t0 t1 x) (cell H D (b * (t1 - t0) + t) h i) = data x (cell H D (b * T + t0 + t) h i)"
proof -
  let ?L = "t1 - t0"
  let ?a = "cell H D (b * ?L + t) h i"
  have hd: "h * D + i < H * D"
  proof -
    have "h * D + i < (h + 1) * D" using assms(4) by simp
    also have "\<dots> \<le> H * D" using assms(3) by (intro mult_le_mono1) simp
    finally show ?thesis .
  qed
  have dm: "(r * n + c) div n = r \<and> (r * n + c) mod n = c" if "c < n" for r n c :: nat
    using that by simp
  have a: "?a = (b * ?L + t) * (H * D) + (h * D + i)" by (simp add: cell_def algebra_simps)
  have d: "?a div (H * D) = b * ?L + t" unfolding a using dm[OF hd] by blast
  have m: "?a mod (H * D) = h * D + i" unfolding a using dm[OF hd] by blast
  have "(b * ?L + t) div ?L = b" "(b * ?L + t) mod ?L = t" using assms(2) by simp_all
  then show ?thesis
    using d m by (simp add: time_slice_def assms(1) Let_def) (simp add: cell_def algebra_simps)
qed

lemma time_slice_row:
  assumes "shape x = [B, T, H]" "t < t1 - t0" "h < H"
  shows "data (time_slice t0 t1 x) ((b * (t1 - t0) + t) * H + h) = data x ((b * T + t0 + t) * H + h)"
proof -
  let ?L = "t1 - t0"
  have "(b * ?L + t) div ?L = b" "(b * ?L + t) mod ?L = t" using assms(2) by simp_all
  then show ?thesis
    using assms(3) by (simp add: time_slice_def assms(1) Let_def)
qed

lemma time_slice_shape:
  "shape x = B # T # rest \<Longrightarrow> shape (time_slice t0 t1 x) = B # (t1 - t0) # rest"
  by (simp add: time_slice_def)


lemma spec_delta_shift:
  "spec_delta K ks vs bs H0 (T1 + t) =
   spec_delta K (\<lambda>t. ks (T1 + t)) (\<lambda>t. vs (T1 + t)) (\<lambda>t. bs (T1 + t)) (spec_state K ks vs bs H0 T1) t"
  by (simp add: spec_delta_def spec_state_shift[symmetric])

lemma spec_output_shift:
  "spec_output K scale qs ks vs bs H0 (T1 + t) =
   spec_output K scale (\<lambda>t. qs (T1 + t)) (\<lambda>t. ks (T1 + t)) (\<lambda>t. vs (T1 + t)) (\<lambda>t. bs (T1 + t))
     (spec_state K ks vs bs H0 T1) t"
  using spec_state_shift[of K ks vs bs H0 T1 "Suc t"]
  by (simp only: spec_output_def add_Suc_right)

lemma seq_fixed [simp]:
  "seq_count None B = B" "seq_bos None B T n = n * T" "seq_len None B T n = T" "seqs_ok None"
  by (simp_all add: seq_count_def seq_bos_def seq_len_def seq_bounds_def seqs_ok_def)

lemma beta_rows_slice:
  assumes sb: "shape beta = [B, T, H] \<or> shape beta = [B, T, H, V]" and sv: "shape v = [B, T, H, V]"
    and t: "t < t1 - t0" and h: "h < H" and j: "j < V"
  shows "beta_rows (data (time_slice t0 t1 beta))
           (length (shape (time_slice t0 t1 beta)) = length (shape (time_slice t0 t1 v))) H V (b * (t1 - t0)) h t j
       = beta_rows (data beta) (length (shape beta) = length (shape v)) H V (b * T) h (t0 + t) j"
  using sb
proof
  assume s: "shape beta = [B, T, H]"
  show ?thesis
    using time_slice_row[OF s t h, of b]
    by (simp add: beta_rows_def time_slice_shape[OF s] time_slice_shape[OF sv] s sv add.assoc)
next
  assume s: "shape beta = [B, T, H, V]"
  show ?thesis
    using time_slice_cell[OF s t h j, of b]
    by (simp add: beta_rows_def time_slice_shape[OF s] time_slice_shape[OF sv] s sv add.assoc)
qed

lemma rows_slice:
  assumes "shape x = [B, T, H, D]" "t < t1 - t0" "h < H" "i < D"
  shows "rows (data (time_slice t0 t1 x)) H D (b * (t1 - t0)) h t i = rows (data x) H D (b * T) h (t0 + t) i"
  using time_slice_cell[OF assms, of b] by (simp add: rows_def add.assoc)


section \<open>The host functions: block counts and the initial-state gradient\<close>

lemma blocks_assert:
  assumes "0 < BV" "cdiv K BK = Inr NK" "NK \<noteq> 1"
  shows "fwd_blocks exact q k v beta scale h0 ofs cu fresh B T H K V N BK BV = Inl (AssertionError ''NK > 1 is not supported yet'')"
    and "bwd_blocks exact q k v beta dht d_o scale h0 cu fresh B T H K V N BK BV = Inl (AssertionError ''NK > 1 is not supported yet'')"
  using assms by (simp_all add: fwd_blocks_def bwd_blocks_def ebind_def cdiv_def)

lemma blocks_run:
  shows "fwd_blocks exact q k v beta scale h0 ofs cu fresh B T H K V N BK BV = Inr r \<Longrightarrow> cdiv K BK = Inr 1"
    and "bwd_blocks exact q k v beta dht d_o scale h0 cu fresh B T H K V N BK BV = Inr r' \<Longrightarrow> cdiv K BK = Inr 1"
  by (auto simp: fwd_blocks_def bwd_blocks_def ebind_def Let_def split: sum.splits if_splits)

lemma bwd_blocks_unfold:
  assumes "cdiv K BK = Inr 1" "0 < BV"
  shows "bwd_blocks exact q k v beta dht d_o scale h0 cu fresh B T H K V N BK BV =
     ebind (launch_e ((V + BV - 1) div BV, 1, nat N * H)
              (fused_recurrent_delta_rule_bwd_kernel exact
                 (bwd_launch_args exact q k v beta dht d_o scale h0 cu T B H K V BK BV 1))
              \<lparr>bm_dq = fresh 0, bm_dk = fresh 1, bm_dv = fresh 2, bm_db = fresh 3,
               bm_dh0 = map_option data (alloc_dh0 h0 (fresh 4))\<rparr>)
       (\<lambda>M. Inr (sum0 exact ((V + BV - 1) div BV) (shape q) (bm_dq M),
                  sum0 exact ((V + BV - 1) div BV) (shape k) (bm_dk M),
                  sum0 exact 1 (shape v) (bm_dv M),
                  (if length (shape beta) = length (shape v)
                   then sum0 exact ((V + BV - 1) div BV * 1) [B, T, H, V] (bm_db M)
                   else sum0 exact ((V + BV - 1) div BV) [B, T, H] (bm_db M)),
                  (case (alloc_dh0 h0 (fresh 4), bm_dh0 M) of
                     (Some t, Some d) \<Rightarrow> Some (t\<lparr>data := d\<rparr>)
                   | _ \<Rightarrow> None)))"
proof -
  have c2: "cdiv V BV = Inr ((V + BV - 1) div BV)" using assms(2) by (simp add: cdiv_def)
  show ?thesis
    by (simp add: bwd_blocks_def assms(1) c2 ebind_Inr Let_def new_empty_def if_distrib cong: if_cong)
qed

lemma bwd_blocks_total:
  assumes "cdiv K BK = Inr 1" "0 < BV" "0 \<le> N"
    and "h0 = None \<or> (\<exists>h. h0 = Some h \<and> requires_grad h)"
  shows "\<exists>dq dk dv db dh0. bwd_blocks exact q k v beta dht d_o scale h0 cu fresh B T H K V N BK BV = Inr (dq, dk, dv, db, dh0) \<and>
      (dh0 \<noteq> None \<longleftrightarrow> h0 \<noteq> None)"
proof -
  define NV where "NV = (V + BV - 1) div BV"
  define A where "A = bwd_launch_args exact q k v beta dht d_o scale h0 cu T B H K V BK BV 1"
  define M0 where "M0 = \<lparr>bm_dq = fresh 0, bm_dk = fresh 1, bm_dv = fresh 2, bm_db = fresh 3,
      bm_dh0 = map_option data (alloc_dh0 h0 (fresh 4))\<rparr>"
  have pre: "ba_h0 A = None \<or> bm_dh0 M0 \<noteq> None"
    using assms(4) by (auto simp: A_def M0_def bwd_launch_args_def alloc_dh0_def)
  from launch_e_total[OF pre, of "programs (NV, 1, nat N * H)"]
  obtain M' where m: "launch_e (NV, 1, nat N * H) (fused_recurrent_delta_rule_bwd_kernel exact A) M0 = Inr M'"
    by (auto simp: launch_e_def)
  have d: "bm_dh0 M' = None \<longleftrightarrow> bm_dh0 M0 = None"
    using launch_e_dh0[of A "programs (NV, 1, nat N * H)" M0 M'] m by (simp add: launch_e_def)
  have dd: "alloc_dh0 h0 (fresh 4) = None \<longleftrightarrow> h0 = None" "bm_dh0 M0 = None \<longleftrightarrow> h0 = None"
    using assms(4) by (auto simp: M0_def alloc_dh0_def)
  have "bwd_blocks exact q k v beta dht d_o scale h0 cu fresh B T H K V N BK BV =
       Inr (sum0 exact NV (shape q) (bm_dq M'), sum0 exact NV (shape k) (bm_dk M'), sum0 exact 1 (shape v) (bm_dv M'),
                  (if length (shape beta) = length (shape v)
                   then sum0 exact (NV * 1) [B, T, H, V] (bm_db M')
                   else sum0 exact NV [B, T, H] (bm_db M')),
                  (case (alloc_dh0 h0 (fresh 4), bm_dh0 M') of
                     (Some t, Some d) \<Rightarrow> Some (t\<lparr>data := d\<rparr>)
                   | _ \<Rightarrow> None))"
    unfolding bwd_blocks_unfold[OF assms(1,2)] NV_def[symmetric] A_def[symmetric] M0_def[symmetric] m
    by (simp add: ebind_Inr)
  moreover have "(case (alloc_dh0 h0 (fresh 4), bm_dh0 M') of
                     (Some t, Some d) \<Rightarrow> Some (t\<lparr>data := d\<rparr>)
                   | _ \<Rightarrow> None) \<noteq> None \<longleftrightarrow> h0 \<noteq> None"
    using d dd by (cases "alloc_dh0 h0 (fresh 4)"; cases "bm_dh0 M'") auto
  ultimately show ?thesis by blast
qed

lemma bwd_blocks_dh0:
  assumes "bwd_blocks exact q k v beta dht d_o scale h0 cu fresh B T H K V N BK BV = Inr (dq, dk, dv, db, dh0)"
  shows "dh0 \<noteq> None \<longleftrightarrow> (\<exists>h. h0 = Some h \<and> requires_grad h)"
proof -
  have c1: "cdiv K BK = Inr 1" by (rule blocks_run(2)[OF assms])
  have bv: "0 < BV"
    using assms by (auto simp: bwd_blocks_def ebind_def cdiv_def c1 split: if_splits)
  define NV where "NV = (V + BV - 1) div BV"
  define A where "A = bwd_launch_args exact q k v beta dht d_o scale h0 cu T B H K V BK BV 1"
  define M0 where "M0 = \<lparr>bm_dq = fresh 0, bm_dk = fresh 1, bm_dv = fresh 2, bm_db = fresh 3,
      bm_dh0 = map_option data (alloc_dh0 h0 (fresh 4))\<rparr>"
  from assms obtain M' where m: "launch_e (NV, 1, nat N * H) (fused_recurrent_delta_rule_bwd_kernel exact A) M0 = Inr M'"
    and r: "dh0 = (case (alloc_dh0 h0 (fresh 4), bm_dh0 M') of
                     (Some t, Some d) \<Rightarrow> Some (t\<lparr>data := d\<rparr>)
                   | _ \<Rightarrow> None)"
    unfolding bwd_blocks_unfold[OF c1 bv] NV_def[symmetric] A_def[symmetric] M0_def[symmetric]
    by (cases "launch_e (NV, 1, nat N * H) (fused_recurrent_delta_rule_bwd_kernel exact A) M0")
       (auto simp: ebind_Inl ebind_Inr)
  have d: "bm_dh0 M' = None \<longleftrightarrow> bm_dh0 M0 = None"
    using launch_e_dh0[of A "programs (NV, 1, nat N * H)" M0 M'] m by (simp add: launch_e_def)
  have a: "alloc_dh0 h0 (fresh 4) \<noteq> None \<longleftrightarrow> (\<exists>h. h0 = Some h \<and> requires_grad h)"
    by (auto simp: alloc_dh0_def split: option.splits)
  have "bm_dh0 M0 = None \<longleftrightarrow> alloc_dh0 h0 (fresh 4) = None" by (simp add: M0_def)
  then show ?thesis using r d a
    by (cases "alloc_dh0 h0 (fresh 4)"; cases "bm_dh0 M'") auto
qed

lemma bwd_blocks_fails:
  assumes "cdiv K BK = Inr 1" "0 < BV" "0 < N" "0 < H" "0 < V"
    and "h0 = Some h" "\<not> requires_grad h"
  shows "bwd_blocks exact q k v beta dht d_o scale h0 cu fresh B T H K V N BK BV = Inl TypeError"
proof -
  define NV where "NV = (V + BV - 1) div BV"
  define A where "A = bwd_launch_args exact q k v beta dht d_o scale h0 cu T B H K V BK BV 1"
  define M0 where "M0 = \<lparr>bm_dq = fresh 0, bm_dk = fresh 1, bm_dv = fresh 2, bm_db = fresh 3,
      bm_dh0 = map_option data (alloc_dh0 h0 (fresh 4))\<rparr>"
  have nv: "0 < NV" unfolding NV_def using cdiv_cover[of BV 0 V] assms(2,5) by simp
  have "(0, 0, 0) \<in> set (programs (NV, 1, nat N * H))"
    using nv assms(3,4) by (simp add: set_programs)
  then have ne: "programs (NV, 1, nat N * H) \<noteq> []" by auto
  have "ba_h0 A \<noteq> None" "bm_dh0 M0 = None"
    using assms(6,7) by (simp_all add: A_def M0_def bwd_launch_args_def alloc_dh0_def)
  from launch_e_fails[OF this ne]
  have "launch_e (NV, 1, nat N * H) (fused_recurrent_delta_rule_bwd_kernel exact A) M0 = Inl TypeError"
    by (simp add: launch_e_def)
  then show ?thesis
    using assms(3) unfolding bwd_blocks_unfold[OF assms(1,2)] NV_def[symmetric] A_def[symmetric] M0_def[symmetric]
    by (simp add: ebind_Inl)
qed

lemma host_bwd_blocks:
  assumes "fused_recurrent_delta_rule_bwd exact q k v beta dht d_o scale h0 cu fresh = Inr r"
  obtains B T H K where "shape k = [B, T, H, K]" "shape v \<noteq> []"
    "bwd_blocks exact q k v beta dht d_o scale h0 cu fresh B T H K (last (shape v))
       (case cu of None \<Rightarrow> int B | Some c \<Rightarrow> int (length c) - 1)
       (nat (next_power_of_2 (int K))) (min (nat (next_power_of_2 (int (last (shape v))))) 32) = Inr r"
  using assms unfolding fused_recurrent_delta_rule_bwd_def
  by (auto simp: Let_def split: list.splits if_splits)

lemma host_fwd_blocks:
  assumes "fused_recurrent_delta_rule_fwd exact q k v beta scale h0 ofs cu fresh = Inr r"
  obtains B T H K where "shape k = [B, T, H, K]" "shape v \<noteq> []"
    "fwd_blocks exact q k v beta scale h0 ofs cu fresh B T H K (last (shape v))
       (case cu of None \<Rightarrow> int B | Some c \<Rightarrow> int (length c) - 1)
       (nat (next_power_of_2 (int K))) (min (nat (next_power_of_2 (int (last (shape v))))) 8) = Inr r"
  using assms unfolding fused_recurrent_delta_rule_fwd_def
  by (auto simp: Let_def split: list.splits if_splits)

lemma host_bwd_dh0:
  assumes "fused_recurrent_delta_rule_bwd exact q k v beta dht d_o scale h0 cu fresh = Inr (dq, dk, dv, db, dh0)"
  shows "dh0 \<noteq> None \<longleftrightarrow> (\<exists>h. h0 = Some h \<and> requires_grad h)"
proof (rule host_bwd_blocks[OF assms])
  fix B T H K
  assume "bwd_blocks exact q k v beta dht d_o scale h0 cu fresh B T H K (last (shape v))
       (case cu of None \<Rightarrow> int B | Some c \<Rightarrow> int (length c) - 1)
       (nat (next_power_of_2 (int K))) (min (nat (next_power_of_2 (int (last (shape v))))) 32) = Inr (dq, dk, dv, db, dh0)"
  then show ?thesis by (rule bwd_blocks_dh0)
qed

lemma host_bwd_total:
  assumes sk: "shape k = [B, T, H, K]" and sv: "shape v \<noteq> []" and K: "0 < K" and V: "0 < last (shape v)"
    and cu: "cu \<noteq> Some []"
    and h: "h0 = None \<or> (\<exists>h. h0 = Some h \<and> requires_grad h)"
  shows "\<exists>dq dk dv db dh0. fused_recurrent_delta_rule_bwd exact q k v beta dht d_o scale h0 cu fresh = Inr (dq, dk, dv, db, dh0) \<and>
      (dh0 \<noteq> None \<longleftrightarrow> h0 \<noteq> None)"
proof -
  have c1: "cdiv K (nat (next_power_of_2 (int K))) = Inr 1" by (rule cdiv_one[OF K np2_nat[OF K]])
  have bv: "0 < min (nat (next_power_of_2 (int (last (shape v))))) 32" using np2_nat[OF V] V by simp
  have N: "0 \<le> (case cu of None \<Rightarrow> int B | Some c \<Rightarrow> int (length c) - 1)"
    using cu by (cases cu) (auto simp: Suc_leI of_nat_diff)
  have "fused_recurrent_delta_rule_bwd exact q k v beta dht d_o scale h0 cu fresh =
      bwd_blocks exact q k v beta dht d_o scale h0 cu fresh B T H K (last (shape v))
       (case cu of None \<Rightarrow> int B | Some c \<Rightarrow> int (length c) - 1)
       (nat (next_power_of_2 (int K))) (min (nat (next_power_of_2 (int (last (shape v))))) 32)"
    unfolding fused_recurrent_delta_rule_bwd_def sk using sv by (simp add: Let_def)
  then show ?thesis using bwd_blocks_total[OF c1 bv N h] by simp
qed

lemma host_bwd_fails:
  assumes sk: "shape k = [B, T, H, K]" and sv: "shape v \<noteq> []" and K: "0 < K" and V: "0 < last (shape v)"
    and N: "0 < (case cu of None \<Rightarrow> int B | Some c \<Rightarrow> int (length c) - 1)" and H: "0 < H"
    and h: "h0 = Some h" "\<not> requires_grad h"
  shows "fused_recurrent_delta_rule_bwd exact q k v beta dht d_o scale h0 cu fresh = Inl TypeError"
proof -
  have c1: "cdiv K (nat (next_power_of_2 (int K))) = Inr 1" by (rule cdiv_one[OF K np2_nat[OF K]])
  have bv: "0 < min (nat (next_power_of_2 (int (last (shape v))))) 32" using np2_nat[OF V] V by simp
  show ?thesis
    unfolding fused_recurrent_delta_rule_bwd_def sk using sv
    by (simp add: Let_def bwd_blocks_fails[OF c1 bv N H V h])
qed


section \<open>Evaluating the operation on the examples\<close>

lemmas wrapper_eval = fused_recurrent_delta_rule_def check_cu_seqlens_def default_scale_def default_beta_def
  FusedRecurrentFunction_forward_def no_l2norm_def zero_fresh_def
  fused_recurrent_delta_rule_fwd_def fwd_blocks_def example_qkv_def example_beta_def example_h0_def example_k2_def
      next_power_of_2_def cdiv_def ebind_def fwd_launch_args_def
      new_empty_def launch_def programs_def fused_recurrent_delta_rule_fwd_kernel_def seq_bounds_def
      eval_nat_numeral fwd_step_def load_def store_def load_state_def store_state_def state_addr_def Let_def



lemmas fval_eval = zero_fval_def one_fval_def plus_fval_def minus_fval_def times_fval_def fin_def
  inf_of_def sum_left_def overflowing_def full_def

lemmas fwd_eval = fused_recurrent_delta_rule_fwd_def fwd_blocks_def
      next_power_of_2_def cdiv_def ebind_def fwd_launch_args_def
      new_empty_def launch_def programs_def fused_recurrent_delta_rule_fwd_kernel_def seq_bounds_def
      eval_nat_numeral fwd_step_def load_def store_def load_state_def store_state_def state_addr_def Let_def

lemma example_run_overflowing:
  "\<exists>o_t u f. fused_recurrent_delta_rule_fwd overflowing (full [1, 3, 1, 1] 1) (full [1, 3, 1, 1] 1)
       (full [1, 3, 1, 1] 1) (full [1, 3, 1] 1) 1 (Some (full [1, 1, 1, 1] 0)) True None fresh = Inr (o_t, u, Some f) \<and>
      map (data o_t) [0, 1, 2] = [1, 1, 1] \<and> map (data u) [0, 1, 2] = [1, 0, 0] \<and> data f 0 = 1"
  by (simp add: fwd_eval fval_eval)

section \<open>A zero update rate\<close>

lemma rec_state_zero_beta:
  fixes P :: "('a::{zero,plus,minus,times}) prims"
  assumes add0: "\<And>x::'a. x + 0 = x"
    and bz: "\<And>t. t < L \<Longrightarrow> to_f32 P (bs t j) = 0"
    and kz: "\<And>t i. t < L \<Longrightarrow> lanes P K (ks t) i * 0 = 0"
    and dz: "\<And>t. t < L \<Longrightarrow>
               (to_f32 P (vs t j) - tl_sum P BK (\<lambda>i. S0 i j * lanes P K (ks t) i)) * 0 = 0"
    and t: "t \<le> L"
  shows "rec_state P BK K ks vs bs S0 t i j = S0 i j"
  using t
proof (induction t arbitrary: i)
  case 0
  show ?case by simp
next
  case (Suc t)
  have tl: "t < L" "t \<le> L" using Suc.prems by simp_all
  have s: "(\<lambda>i. rec_state P BK K ks vs bs S0 t i j * lanes P K (ks t) i) = (\<lambda>i. S0 i j * lanes P K (ks t) i)"
    using Suc.IH[OF tl(2)] by simp
  show ?case
    by (simp only: rec_state.simps Let_def s bz[OF tl(1)] dz[OF tl(1)] kz[OF tl(1)] add0 Suc.IH[OF tl(2)])
qed
section \<open>The backward kernel computes the two passes\<close>

lemma stepa_ptr [simp]:
  "la_p_q (bwd_step_a exact A mk mv s) = la_p_q s - ba_H A * ba_K A"
  "la_p_k (bwd_step_a exact A mk mv s) = la_p_k s - ba_H A * ba_K A"
  "la_p_v (bwd_step_a exact A mk mv s) = la_p_v s - ba_H A * ba_V A"
  "la_p_do (bwd_step_a exact A mk mv s) = la_p_do s - ba_H A * ba_V A"
  "la_p_dk (bwd_step_a exact A mk mv s) = la_p_dk s - ba_H A * ba_K A"
  "la_p_dv (bwd_step_a exact A mk mv s) = la_p_dv s - ba_H A * ba_V A"
  "la_p_dbeta (bwd_step_a exact A mk mv s) = la_p_dbeta s - ba_H A * (if ba_IS_BETA_HEADWISE A then ba_V A else 1)"
  "la_p_beta (bwd_step_a exact A mk mv s) = la_p_beta s - ba_H A * (if ba_IS_BETA_HEADWISE A then ba_V A else 1)"
  by (simp_all add: bwd_step_a_def Let_def)

lemma runa_ptr:
  "la_p_q ((bwd_step_a exact A mk mv ^^ m) s) = la_p_q s - m * (ba_H A * ba_K A)"
  "la_p_k ((bwd_step_a exact A mk mv ^^ m) s) = la_p_k s - m * (ba_H A * ba_K A)"
  "la_p_v ((bwd_step_a exact A mk mv ^^ m) s) = la_p_v s - m * (ba_H A * ba_V A)"
  "la_p_do ((bwd_step_a exact A mk mv ^^ m) s) = la_p_do s - m * (ba_H A * ba_V A)"
  "la_p_dk ((bwd_step_a exact A mk mv ^^ m) s) = la_p_dk s - m * (ba_H A * ba_K A)"
  "la_p_dv ((bwd_step_a exact A mk mv ^^ m) s) = la_p_dv s - m * (ba_H A * ba_V A)"
  "la_p_dbeta ((bwd_step_a exact A mk mv ^^ m) s) = la_p_dbeta s - m * (ba_H A * (if ba_IS_BETA_HEADWISE A then ba_V A else 1))"
  "la_p_beta ((bwd_step_a exact A mk mv ^^ m) s) = la_p_beta s - m * (ba_H A * (if ba_IS_BETA_HEADWISE A then ba_V A else 1))"
  by (induction m) (simp_all add: algebra_simps)

lemma back_ptr:
  fixes p X Ts m :: nat
  assumes "m < Ts"
  shows "p + (Ts - 1) * X - m * X = p + (Ts - Suc m) * X"
proof -
  have e: "(Ts - 1) * X = (Ts - Suc m) * X + m * X"
  proof -
    have "Ts - 1 = (Ts - Suc m) + m" using assms by simp
    then show ?thesis by (simp only: add_mult_distrib)
  qed
  show ?thesis unfolding e by simp
qed

lemma stepa_b_dh: "la_b_dh (bwd_step_a exact A mk mv s) =
  (\<lambda>i j. (la_b_dh s i j + load (ba_q A) (la_p_q s) (ba_BK A) mk i * ba_scale A * load (ba_do A) (la_p_do s) (ba_BV A) mv j)
        - load (ba_k A) (la_p_k s) (ba_BK A) mk i *
          ((\<Sum>i<ba_BK A. (la_b_dh s i j + load (ba_q A) (la_p_q s) (ba_BK A) mk i * ba_scale A * load (ba_do A) (la_p_do s) (ba_BV A) mv j)
                * load (ba_k A) (la_p_k s) (ba_BK A) mk i)
           * (if ba_IS_BETA_HEADWISE A then load (ba_beta A) (la_p_beta s) (ba_BV A) mv j else ba_beta A (la_p_beta s))))"
  by (simp add: bwd_step_a_def Let_def fun_eq_iff)

lemma stepa_dv: "la_dv (bwd_step_a exact A mk mv s) =
  store (la_dv s) (la_p_dv s) (ba_BV A) mv
    (\<lambda>j. (\<Sum>i<ba_BK A. (la_b_dh s i j + load (ba_q A) (la_p_q s) (ba_BK A) mk i * ba_scale A * load (ba_do A) (la_p_do s) (ba_BV A) mv j)
                * load (ba_k A) (la_p_k s) (ba_BK A) mk i)
           * (if ba_IS_BETA_HEADWISE A then load (ba_beta A) (la_p_beta s) (ba_BV A) mv j else ba_beta A (la_p_beta s)))"
  by (simp add: bwd_step_a_def Let_def)

lemma stepa_dk: "la_dk (bwd_step_a exact A mk mv s) =
  store (la_dk s) (la_p_dk s) (ba_BK A) mk
    (\<lambda>i. \<Sum>j<ba_BV A. (la_b_dh s i j + load (ba_q A) (la_p_q s) (ba_BK A) mk i * ba_scale A * load (ba_do A) (la_p_do s) (ba_BV A) mv j)
            * (load (ba_v A) (la_p_v s) (ba_BV A) mv j *
               (if ba_IS_BETA_HEADWISE A then load (ba_beta A) (la_p_beta s) (ba_BV A) mv j else ba_beta A (la_p_beta s))))"
  by (simp add: bwd_step_a_def Let_def)

lemma stepa_db: "la_db (bwd_step_a exact A mk mv s) =
  (if ba_IS_BETA_HEADWISE A
   then store (la_db s) (la_p_dbeta s) (ba_BV A) mv
     (\<lambda>j. (\<Sum>i<ba_BK A. (la_b_dh s i j + load (ba_q A) (la_p_q s) (ba_BK A) mk i * ba_scale A * load (ba_do A) (la_p_do s) (ba_BV A) mv j)
                * load (ba_k A) (la_p_k s) (ba_BK A) mk i) * load (ba_v A) (la_p_v s) (ba_BV A) mv j)
   else (la_db s)(la_p_dbeta s :=
     (\<Sum>j<ba_BV A. (\<Sum>i<ba_BK A. (la_b_dh s i j + load (ba_q A) (la_p_q s) (ba_BK A) mk i * ba_scale A * load (ba_do A) (la_p_do s) (ba_BV A) mv j)
                * load (ba_k A) (la_p_k s) (ba_BK A) mk i) * load (ba_v A) (la_p_v s) (ba_BV A) mv j)))"
  by (simp add: bwd_step_a_def Let_def)

lemma back_cell:
  assumes "m < Ts"
  shows "cell H V r h c + (Ts - 1) * (H * V) - m * (H * V) = cell H V (r + (Ts - Suc m)) h c"
  unfolding back_ptr[OF assms] by (simp add: cell_def algebra_simps)

lemma back_row:
  assumes "m < Ts"
  shows "r * H + h + (Ts - 1) * H - m * H = (r + (Ts - Suc m)) * H + (h::nat)"
  unfolding back_ptr[OF assms] by (simp add: algebra_simps)

lemma runa_at:
  assumes st: "bwd_start_a A i_v bos srow Ts h GT s" and m: "m < Ts"
  shows "la_p_q (bwd_run_a A i_v m s) = cell (ba_H A) (ba_K A) (bos + (Ts - Suc m)) h 0"
    and "la_p_k (bwd_run_a A i_v m s) = cell (ba_H A) (ba_K A) (bos + (Ts - Suc m)) h 0"
    and "la_p_v (bwd_run_a A i_v m s) = cell (ba_H A) (ba_V A) (bos + (Ts - Suc m)) h (i_v * ba_BV A)"
    and "la_p_do (bwd_run_a A i_v m s) = cell (ba_H A) (ba_V A) (bos + (Ts - Suc m)) h (i_v * ba_BV A)"
    and "la_p_dk (bwd_run_a A i_v m s) = cell (ba_H A) (ba_K A) (srow + (Ts - Suc m)) h 0"
    and "la_p_dv (bwd_run_a A i_v m s) = cell (ba_H A) (ba_V A) (bos + (Ts - Suc m)) h (i_v * ba_BV A)"
    and "la_p_beta (bwd_run_a A i_v m s) =
           (if ba_IS_BETA_HEADWISE A then cell (ba_H A) (ba_V A) (bos + (Ts - Suc m)) h (i_v * ba_BV A)
            else (bos + (Ts - Suc m)) * ba_H A + h)"
    and "la_p_dbeta (bwd_run_a A i_v m s) =
           (if ba_IS_BETA_HEADWISE A then cell (ba_H A) (ba_V A) (srow + (Ts - Suc m)) h 0
            else (srow + (Ts - Suc m)) * ba_H A + h)"
proof -
  have f: "la_p_q s = cell (ba_H A) (ba_K A) bos h 0 + (Ts - 1) * (ba_H A * ba_K A)"
     "la_p_k s = cell (ba_H A) (ba_K A) bos h 0 + (Ts - 1) * (ba_H A * ba_K A)"
     "la_p_v s = cell (ba_H A) (ba_V A) bos h (i_v * ba_BV A) + (Ts - 1) * (ba_H A * ba_V A)"
     "la_p_do s = cell (ba_H A) (ba_V A) bos h (i_v * ba_BV A) + (Ts - 1) * (ba_H A * ba_V A)"
     "la_p_dk s = cell (ba_H A) (ba_K A) srow h 0 + (Ts - 1) * (ba_H A * ba_K A)"
     "la_p_dv s = cell (ba_H A) (ba_V A) bos h (i_v * ba_BV A) + (Ts - 1) * (ba_H A * ba_V A)"
     "la_p_beta s = (if ba_IS_BETA_HEADWISE A
                    then cell (ba_H A) (ba_V A) bos h (i_v * ba_BV A) + (Ts - 1) * (ba_H A * ba_V A)
                    else bos * ba_H A + h + (Ts - 1) * ba_H A)"
     "la_p_dbeta s = (if ba_IS_BETA_HEADWISE A
                     then cell (ba_H A) (ba_V A) srow h 0 + (Ts - 1) * (ba_H A * ba_V A)
                     else srow * ba_H A + h + (Ts - 1) * ba_H A)"
    using st m unfolding bwd_start_a_def by auto
  show "la_p_q (bwd_run_a A i_v m s) = cell (ba_H A) (ba_K A) (bos + (Ts - Suc m)) h 0"
    unfolding runa_ptr f by (rule back_cell[OF m])
  show "la_p_k (bwd_run_a A i_v m s) = cell (ba_H A) (ba_K A) (bos + (Ts - Suc m)) h 0"
    unfolding runa_ptr f by (rule back_cell[OF m])
  show "la_p_v (bwd_run_a A i_v m s) = cell (ba_H A) (ba_V A) (bos + (Ts - Suc m)) h (i_v * ba_BV A)"
    unfolding runa_ptr f by (rule back_cell[OF m])
  show "la_p_do (bwd_run_a A i_v m s) = cell (ba_H A) (ba_V A) (bos + (Ts - Suc m)) h (i_v * ba_BV A)"
    unfolding runa_ptr f by (rule back_cell[OF m])
  show "la_p_dk (bwd_run_a A i_v m s) = cell (ba_H A) (ba_K A) (srow + (Ts - Suc m)) h 0"
    unfolding runa_ptr f by (rule back_cell[OF m])
  show "la_p_dv (bwd_run_a A i_v m s) = cell (ba_H A) (ba_V A) (bos + (Ts - Suc m)) h (i_v * ba_BV A)"
    unfolding runa_ptr f by (rule back_cell[OF m])
  show "la_p_beta (bwd_run_a A i_v m s) =
           (if ba_IS_BETA_HEADWISE A then cell (ba_H A) (ba_V A) (bos + (Ts - Suc m)) h (i_v * ba_BV A)
            else (bos + (Ts - Suc m)) * ba_H A + h)"
    unfolding runa_ptr f using back_cell[OF m] back_row[OF m] by (simp del: One_nat_def)
  show "la_p_dbeta (bwd_run_a A i_v m s) =
           (if ba_IS_BETA_HEADWISE A then cell (ba_H A) (ba_V A) (srow + (Ts - Suc m)) h 0
            else (srow + (Ts - Suc m)) * ba_H A + h)"
    unfolding runa_ptr f using back_cell[OF m] back_row[OF m] by (simp del: One_nat_def)
qed

lemma load_cell:
  "load m (cell H V r h c0) n msk j = (if j < n \<and> msk j then m (cell H V r h (c0 + j)) else 0)"
  by (simp add: load_def cell_def algebra_simps)

lemma runa_load_q:
  assumes "bwd_start_a A i_v bos srow Ts h GT s" "m < Ts"
  shows "load (ba_q A) (la_p_q (bwd_run_a A i_v m s)) (ba_BK A) (\<lambda>i. i < ba_K A) i
       = (if i < ba_K A then wq A bos h (Ts - Suc m) i else 0)"
  using assms(1) unfolding runa_at[OF assms] by (simp add: bwd_start_a_def load_cell rows_def)

lemma runa_load_k:
  assumes "bwd_start_a A i_v bos srow Ts h GT s" "m < Ts"
  shows "load (ba_k A) (la_p_k (bwd_run_a A i_v m s)) (ba_BK A) (\<lambda>i. i < ba_K A) i
       = (if i < ba_K A then wk A bos h (Ts - Suc m) i else 0)"
  using assms(1) unfolding runa_at[OF assms] by (simp add: bwd_start_a_def load_cell rows_def)

lemma runa_load_v:
  assumes "bwd_start_a A i_v bos srow Ts h GT s" "m < Ts"
  shows "load (ba_v A) (la_p_v (bwd_run_a A i_v m s)) (ba_BV A) (\<lambda>j. i_v * ba_BV A + j < ba_V A) j
       = (if j < ba_BV A \<and> i_v * ba_BV A + j < ba_V A then wd A bos h (Ts - Suc m) (i_v * ba_BV A + j) else 0)"
  unfolding runa_at[OF assms] by (simp add: load_cell rows_def)

lemma runa_load_do:
  assumes "bwd_start_a A i_v bos srow Ts h GT s" "m < Ts"
  shows "load (ba_do A) (la_p_do (bwd_run_a A i_v m s)) (ba_BV A) (\<lambda>j. i_v * ba_BV A + j < ba_V A) j
       = (if j < ba_BV A \<and> i_v * ba_BV A + j < ba_V A then wdo A bos h (Ts - Suc m) (i_v * ba_BV A + j) else 0)"
  unfolding runa_at[OF assms] by (simp add: load_cell rows_def)

lemma runa_load_beta:
  assumes st: "bwd_start_a A i_v bos srow Ts h GT s" and m: "m < Ts"
    and j: "j < ba_BV A" "i_v * ba_BV A + j < ba_V A"
  shows "(if ba_IS_BETA_HEADWISE A
          then load (ba_beta A) (la_p_beta (bwd_run_a A i_v m s)) (ba_BV A) (\<lambda>j. i_v * ba_BV A + j < ba_V A) j
          else ba_beta A (la_p_beta (bwd_run_a A i_v m s)))
      = wb A bos h (Ts - Suc m) (i_v * ba_BV A + j)"
  unfolding runa_at[OF st m] using j by (simp add: load_cell beta_rows_def)

lemma sum_block2:
  fixes f :: "nat \<Rightarrow> real"
  shows "(\<Sum>j<BV. (if j < BV \<and> P j then f j else 0)) = (\<Sum>j<BV. (if P j then f j else 0))"
  by (rule sum.cong) auto

lemma bdh_run:
  assumes st: "bwd_start_a A i_v bos srow Ts h GT s" and m: "m \<le> Ts"
  shows "la_b_dh (bwd_run_a A i_v m s) =
    (\<lambda>i j. if i < ba_K A \<and> j < ba_BV A \<and> i_v * ba_BV A + j < ba_V A
       then sG A bos h GT Ts m i (i_v * ba_BV A + j) else 0)"
  using m
proof (induction m)
  case 0
  show ?case using st by (simp add: bwd_start_a_def cong: if_cong)
next
  case (Suc m)
  then have m: "m < Ts" and IH: "la_b_dh (bwd_run_a A i_v m s) =
    (\<lambda>i j. if i < ba_K A \<and> j < ba_BV A \<and> i_v * ba_BV A + j < ba_V A
       then sG A bos h GT Ts m i (i_v * ba_BV A + j) else 0)" by simp_all
  let ?s = "bwd_run_a A i_v m s"
  let ?t = "Ts - Suc m"
  have kb: "ba_K A \<le> ba_BK A" using st by (simp add: bwd_start_a_def)
  note lq = runa_load_q[OF st m] and lk = runa_load_k[OF st m] and ldo = runa_load_do[OF st m]
    and lb = runa_load_beta[OF st m]
  let ?G = "\<lambda>i c. sG A bos h GT Ts m i c + wq A bos h ?t i * ba_scale A * wdo A bos h ?t c"
  have sm: "(\<Sum>i<ba_BK A. (la_b_dh ?s i j + load (ba_q A) (la_p_q ?s) (ba_BK A) (\<lambda>i. i < ba_K A) i * ba_scale A *
                 load (ba_do A) (la_p_do ?s) (ba_BV A) (\<lambda>j. i_v * ba_BV A + j < ba_V A) j)
                * load (ba_k A) (la_p_k ?s) (ba_BK A) (\<lambda>i. i < ba_K A) i) =
      (if j < ba_BV A \<and> i_v * ba_BV A + j < ba_V A
       then (\<Sum>i<ba_K A. ?G i (i_v * ba_BV A + j) * wk A bos h ?t i) else 0)" for j
  proof -
    have "(\<Sum>i<ba_BK A. (la_b_dh ?s i j + load (ba_q A) (la_p_q ?s) (ba_BK A) (\<lambda>i. i < ba_K A) i * ba_scale A *
                 load (ba_do A) (la_p_do ?s) (ba_BV A) (\<lambda>j. i_v * ba_BV A + j < ba_V A) j)
                * load (ba_k A) (la_p_k ?s) (ba_BK A) (\<lambda>i. i < ba_K A) i) =
       (\<Sum>i<ba_BK A. (if i < ba_K A then (if j < ba_BV A \<and> i_v * ba_BV A + j < ba_V A
           then ?G i (i_v * ba_BV A + j) * wk A bos h ?t i else 0) else 0))"
      by (rule sum.cong) (simp_all add: IH lq lk ldo)
    also have "\<dots> = (\<Sum>i<ba_K A. (if j < ba_BV A \<and> i_v * ba_BV A + j < ba_V A
           then ?G i (i_v * ba_BV A + j) * wk A bos h ?t i else 0))"
      by (rule sum_block[OF kb])
    finally show ?thesis by auto
  qed
  show ?case
    apply (simp only: funpow.simps o_apply stepa_b_dh sm)
    apply (rule ext)+
    apply (simp add: IH lq lk ldo lb Let_def)
    done
qed

lemma store_seq_frame:
  assumes step: "\<And>m. m < M \<Longrightarrow> f (Suc m) = store (f m) (p m) n msk (val m)"
    and nw: "\<And>m j. m < M \<Longrightarrow> j < n \<Longrightarrow> msk j \<Longrightarrow> a \<noteq> p m + j"
  shows "f M a = f 0 a"
  using assms
proof (induction M)
  case 0
  show ?case by simp
next
  case (Suc M)
  have "f (Suc M) a = f M a"
    unfolding Suc.prems(1)[of M, simplified]
    by (rule store_other) (use Suc.prems(2)[of M] in auto)
  moreover have "f M a = f 0 a"
    by (rule Suc.IH) (use Suc.prems in auto)
  ultimately show ?case by simp
qed

lemma store_seq_own:
  assumes step: "\<And>m. m < M \<Longrightarrow> f (Suc m) = store (f m) (p m) n msk (val m)"
    and inj: "\<And>m m' j j'. m < M \<Longrightarrow> m' < M \<Longrightarrow> j < n \<Longrightarrow> j' < n \<Longrightarrow> msk j \<Longrightarrow> msk j' \<Longrightarrow>
                p m + j = p m' + j' \<Longrightarrow> m = m'"
    and m: "m < M" and j: "j < n" "msk j"
  shows "f M (p m + j) = val m j"
  using step inj m
proof (induction M)
  case 0
  then show ?case by simp
next
  case (Suc M)
  show ?case
  proof (cases "m = M")
    case True
    show ?thesis unfolding Suc.prems(1)[of M, simplified] True
      using j by (simp add: store_same)
  next
    case False
    then have lt: "m < M" using Suc.prems(3) by simp
    have "f (Suc M) (p m + j) = f M (p m + j)"
      unfolding Suc.prems(1)[of M, simplified]
    proof (rule store_other)
      fix j' assume "j' < n" "msk j'"
      then show "p m + j \<noteq> p M + j'"
        using Suc.prems(2)[of m M j j'] j lt by auto
    qed
    moreover have "f M (p m + j) = val m j"
      by (rule Suc.IH) (use Suc.prems lt in auto)
    ultimately show ?thesis by simp
  qed
qed

lemma upd_as_store: "m(p := v) = store m p 1 (\<lambda>j. True) (\<lambda>j. v)"
  by (auto simp: store_def fun_eq_iff)

lemma runa_dvp:
  assumes st: "bwd_start_a A i_v bos srow Ts h GT s" and m: "m < Ts"
  shows "(\<Sum>i<ba_BK A. (la_b_dh (bwd_run_a A i_v m s) i j +
              load (ba_q A) (la_p_q (bwd_run_a A i_v m s)) (ba_BK A) (\<lambda>i. i < ba_K A) i * ba_scale A *
              load (ba_do A) (la_p_do (bwd_run_a A i_v m s)) (ba_BV A) (\<lambda>j. i_v * ba_BV A + j < ba_V A) j)
            * load (ba_k A) (la_p_k (bwd_run_a A i_v m s)) (ba_BK A) (\<lambda>i. i < ba_K A) i) =
      (if j < ba_BV A \<and> i_v * ba_BV A + j < ba_V A
       then spec_dvp (ba_K A) (ba_scale A) (wq A bos h) (wk A bos h) (wdo A bos h) (wb A bos h) GT Ts (Ts - Suc m)
              (i_v * ba_BV A + j)
       else 0)"
proof -
  let ?s = "bwd_run_a A i_v m s"
  let ?t = "Ts - Suc m"
  have kb: "ba_K A \<le> ba_BK A" using st by (simp add: bwd_start_a_def)
  have tm: "Ts - Suc ?t = m" using m by simp
  note lq = runa_load_q[OF st m] and lk = runa_load_k[OF st m] and ldo = runa_load_do[OF st m]
  have IH: "la_b_dh ?s = (\<lambda>i j. if i < ba_K A \<and> j < ba_BV A \<and> i_v * ba_BV A + j < ba_V A
       then sG A bos h GT Ts m i (i_v * ba_BV A + j) else 0)"
    by (rule bdh_run[OF st]) (use m in simp)
  have "(\<Sum>i<ba_BK A. (la_b_dh ?s i j + load (ba_q A) (la_p_q ?s) (ba_BK A) (\<lambda>i. i < ba_K A) i * ba_scale A *
                 load (ba_do A) (la_p_do ?s) (ba_BV A) (\<lambda>j. i_v * ba_BV A + j < ba_V A) j)
                * load (ba_k A) (la_p_k ?s) (ba_BK A) (\<lambda>i. i < ba_K A) i) =
       (\<Sum>i<ba_BK A. (if i < ba_K A then (if j < ba_BV A \<and> i_v * ba_BV A + j < ba_V A
           then sGacc A bos h GT Ts ?t i (i_v * ba_BV A + j) * wk A bos h ?t i else 0) else 0))"
    by (rule sum.cong) (simp_all add: IH lq lk ldo spec_Gacc_def tm)
  also have "\<dots> = (\<Sum>i<ba_K A. (if j < ba_BV A \<and> i_v * ba_BV A + j < ba_V A
           then sGacc A bos h GT Ts ?t i (i_v * ba_BV A + j) * wk A bos h ?t i else 0))"
    by (rule sum_block[OF kb])
  finally show ?thesis by (auto simp: spec_dvp_def)
qed

lemma runa_gacc:
  assumes st: "bwd_start_a A i_v bos srow Ts h GT s" and m: "m < Ts"
    and i: "i < ba_K A" and j: "j < ba_BV A" "i_v * ba_BV A + j < ba_V A"
  shows "la_b_dh (bwd_run_a A i_v m s) i j +
              load (ba_q A) (la_p_q (bwd_run_a A i_v m s)) (ba_BK A) (\<lambda>i. i < ba_K A) i * ba_scale A *
              load (ba_do A) (la_p_do (bwd_run_a A i_v m s)) (ba_BV A) (\<lambda>j. i_v * ba_BV A + j < ba_V A) j
       = sGacc A bos h GT Ts (Ts - Suc m) i (i_v * ba_BV A + j)"
proof -
  have tm: "Ts - Suc (Ts - Suc m) = m" using m by simp
  have IH: "la_b_dh (bwd_run_a A i_v m s) = (\<lambda>i j. if i < ba_K A \<and> j < ba_BV A \<and> i_v * ba_BV A + j < ba_V A
       then sG A bos h GT Ts m i (i_v * ba_BV A + j) else 0)"
    by (rule bdh_run[OF st]) (use m in simp)
  show ?thesis using i j
    by (simp add: IH runa_load_q[OF st m] runa_load_do[OF st m] spec_Gacc_def tm)
qed

lemma runa_dv_val:
  assumes st: "bwd_start_a A i_v bos srow Ts h GT s" and m: "m < Ts"
    and j: "j < ba_BV A" "i_v * ba_BV A + j < ba_V A"
  shows "(\<Sum>i<ba_BK A. (la_b_dh (bwd_run_a A i_v m s) i j +
              load (ba_q A) (la_p_q (bwd_run_a A i_v m s)) (ba_BK A) (\<lambda>i. i < ba_K A) i * ba_scale A *
              load (ba_do A) (la_p_do (bwd_run_a A i_v m s)) (ba_BV A) (\<lambda>j. i_v * ba_BV A + j < ba_V A) j)
            * load (ba_k A) (la_p_k (bwd_run_a A i_v m s)) (ba_BK A) (\<lambda>i. i < ba_K A) i)
         * (if ba_IS_BETA_HEADWISE A
            then load (ba_beta A) (la_p_beta (bwd_run_a A i_v m s)) (ba_BV A) (\<lambda>j. i_v * ba_BV A + j < ba_V A) j
            else ba_beta A (la_p_beta (bwd_run_a A i_v m s)))
       = spec_dv (ba_K A) (ba_scale A) (wq A bos h) (wk A bos h) (wdo A bos h) (wb A bos h) GT Ts (Ts - Suc m)
              (i_v * ba_BV A + j)"
  unfolding runa_dvp[OF st m] runa_load_beta[OF st m j] using j by (simp add: spec_dv_def)

lemma runa_dbv_val:
  assumes st: "bwd_start_a A i_v bos srow Ts h GT s" and m: "m < Ts"
    and j: "j < ba_BV A" "i_v * ba_BV A + j < ba_V A"
  shows "(\<Sum>i<ba_BK A. (la_b_dh (bwd_run_a A i_v m s) i j +
              load (ba_q A) (la_p_q (bwd_run_a A i_v m s)) (ba_BK A) (\<lambda>i. i < ba_K A) i * ba_scale A *
              load (ba_do A) (la_p_do (bwd_run_a A i_v m s)) (ba_BV A) (\<lambda>j. i_v * ba_BV A + j < ba_V A) j)
            * load (ba_k A) (la_p_k (bwd_run_a A i_v m s)) (ba_BK A) (\<lambda>i. i < ba_K A) i)
         * load (ba_v A) (la_p_v (bwd_run_a A i_v m s)) (ba_BV A) (\<lambda>j. i_v * ba_BV A + j < ba_V A) j
       = spec_dbeta (ba_K A) (ba_scale A) (wq A bos h) (wk A bos h) (wd A bos h) (wdo A bos h) (wb A bos h) GT Ts
            (Ts - Suc m) (i_v * ba_BV A + j)"
  unfolding runa_dvp[OF st m] runa_load_v[OF st m] using j by (simp add: spec_dbeta_def)

lemma runa_dbs_val:
  assumes st: "bwd_start_a A i_v bos srow Ts h GT s" and m: "m < Ts"
  shows "(\<Sum>j<ba_BV A. (\<Sum>i<ba_BK A. (la_b_dh (bwd_run_a A i_v m s) i j +
              load (ba_q A) (la_p_q (bwd_run_a A i_v m s)) (ba_BK A) (\<lambda>i. i < ba_K A) i * ba_scale A *
              load (ba_do A) (la_p_do (bwd_run_a A i_v m s)) (ba_BV A) (\<lambda>j. i_v * ba_BV A + j < ba_V A) j)
            * load (ba_k A) (la_p_k (bwd_run_a A i_v m s)) (ba_BK A) (\<lambda>i. i < ba_K A) i)
         * load (ba_v A) (la_p_v (bwd_run_a A i_v m s)) (ba_BV A) (\<lambda>j. i_v * ba_BV A + j < ba_V A) j)
       = block_sum (ba_BV A) (ba_V A) i_v
           (spec_dbeta (ba_K A) (ba_scale A) (wq A bos h) (wk A bos h) (wd A bos h) (wdo A bos h) (wb A bos h) GT Ts
              (Ts - Suc m))"
  unfolding block_sum_def
  by (rule sum.cong) (simp_all add: runa_dvp[OF st m] runa_load_v[OF st m] spec_dbeta_def)

lemma runa_dk_val:
  assumes st: "bwd_start_a A i_v bos srow Ts h GT s" and m: "m < Ts" and i: "i < ba_K A"
  shows "(\<Sum>j<ba_BV A. (la_b_dh (bwd_run_a A i_v m s) i j +
              load (ba_q A) (la_p_q (bwd_run_a A i_v m s)) (ba_BK A) (\<lambda>i. i < ba_K A) i * ba_scale A *
              load (ba_do A) (la_p_do (bwd_run_a A i_v m s)) (ba_BV A) (\<lambda>j. i_v * ba_BV A + j < ba_V A) j)
            * (load (ba_v A) (la_p_v (bwd_run_a A i_v m s)) (ba_BV A) (\<lambda>j. i_v * ba_BV A + j < ba_V A) j *
               (if ba_IS_BETA_HEADWISE A
                then load (ba_beta A) (la_p_beta (bwd_run_a A i_v m s)) (ba_BV A) (\<lambda>j. i_v * ba_BV A + j < ba_V A) j
                else ba_beta A (la_p_beta (bwd_run_a A i_v m s)))))
       = block_sum (ba_BV A) (ba_V A) i_v
           (\<lambda>c. sGacc A bos h GT Ts (Ts - Suc m) i c * (wd A bos h (Ts - Suc m) c * wb A bos h (Ts - Suc m) c))"
  unfolding block_sum_def
proof (rule sum.cong)
  fix j assume "j \<in> {..<ba_BV A}"
  then have j: "j < ba_BV A" by simp
  show "(la_b_dh (bwd_run_a A i_v m s) i j +
              load (ba_q A) (la_p_q (bwd_run_a A i_v m s)) (ba_BK A) (\<lambda>i. i < ba_K A) i * ba_scale A *
              load (ba_do A) (la_p_do (bwd_run_a A i_v m s)) (ba_BV A) (\<lambda>j. i_v * ba_BV A + j < ba_V A) j)
            * (load (ba_v A) (la_p_v (bwd_run_a A i_v m s)) (ba_BV A) (\<lambda>j. i_v * ba_BV A + j < ba_V A) j *
               (if ba_IS_BETA_HEADWISE A
                then load (ba_beta A) (la_p_beta (bwd_run_a A i_v m s)) (ba_BV A) (\<lambda>j. i_v * ba_BV A + j < ba_V A) j
                else ba_beta A (la_p_beta (bwd_run_a A i_v m s))))
      = (if i_v * ba_BV A + j < ba_V A
         then sGacc A bos h GT Ts (Ts - Suc m) i (i_v * ba_BV A + j) *
              (wd A bos h (Ts - Suc m) (i_v * ba_BV A + j) * wb A bos h (Ts - Suc m) (i_v * ba_BV A + j))
         else 0)"
  proof (cases "i_v * ba_BV A + j < ba_V A")
    case True
    show ?thesis
      unfolding runa_gacc[OF st m i j True] runa_load_beta[OF st m j True]
      using j True by (simp add: runa_load_v[OF st m])
  next
    case False
    then show ?thesis by (simp add: runa_load_v[OF st m])
  qed
qed simp

lemma cell_add: "cell H V r h c + j = cell H V r h (c + j)"
  by (simp add: cell_def)

lemma rows_back_store_own:
  assumes step: "\<And>m. m < Ts \<Longrightarrow> f (Suc m) = store (f m) (cell H V (rb + (Ts - Suc m)) h cb) n msk (val m)"
    and h: "h < H" and bound: "\<And>j. j < n \<Longrightarrow> msk j \<Longrightarrow> cb + j < V"
    and t: "t < Ts" and j: "j < n" "msk j"
  shows "f Ts (cell H V (rb + t) h (cb + j)) = val (Ts - Suc t) j"
proof -
  have tm: "Ts - Suc (Ts - Suc t) = t" using t by simp
  have "f Ts (cell H V (rb + (Ts - Suc (Ts - Suc t))) h cb + j) = val (Ts - Suc t) j"
  proof (rule store_seq_own[where f = f and p = "\<lambda>m. cell H V (rb + (Ts - Suc m)) h cb" and n = n and msk = msk
        and val = val and M = Ts and m = "Ts - Suc t" and j = j])
    fix m assume "m < Ts"
    then show "f (Suc m) = store (f m) (cell H V (rb + (Ts - Suc m)) h cb) n msk (val m)" by (rule step)
  next
    fix m m' j j'
    assume a: "m < Ts" "m' < Ts" "j < n" "j' < n" "msk j" "msk j'"
      "cell H V (rb + (Ts - Suc m)) h cb + j = cell H V (rb + (Ts - Suc m')) h cb + j'"
    have "rb + (Ts - Suc m) = rb + (Ts - Suc m')"
      using cell_inj[OF h h bound[OF a(3) a(5)] bound[OF a(4) a(6)]] a(7) unfolding cell_add by blast
    then show "m = m'" using a(1,2) by simp
  next
    show "Ts - Suc t < Ts" using t by simp
  qed (use j in auto)
  then show ?thesis unfolding tm cell_add .
qed

lemma rows_back_store_frame:
  assumes step: "\<And>m. m < Ts \<Longrightarrow> f (Suc m) = store (f m) (cell H V (rb + (Ts - Suc m)) h cb) n msk (val m)"
    and nw: "\<And>t j. t < Ts \<Longrightarrow> j < n \<Longrightarrow> msk j \<Longrightarrow> a \<noteq> cell H V (rb + t) h (cb + j)"
  shows "f Ts a = f 0 a"
proof (rule store_seq_frame[where f = f and p = "\<lambda>m. cell H V (rb + (Ts - Suc m)) h cb" and n = n and msk = msk
        and val = val and M = Ts])
  fix m assume "m < Ts"
  then show "f (Suc m) = store (f m) (cell H V (rb + (Ts - Suc m)) h cb) n msk (val m)" by (rule step)
next
  fix m j assume a: "m < Ts" "j < n" "msk j"
  have "Ts - Suc m < Ts" using a(1) by simp
  from nw[OF this a(2,3)] show "a \<noteq> cell H V (rb + (Ts - Suc m)) h cb + j" unfolding cell_add .
qed

lemma rows_store_own:
  assumes step: "\<And>m. m < Ts \<Longrightarrow> f (Suc m) = store (f m) (cell H V (rb + m) h cb) n msk (val m)"
    and h: "h < H" and bound: "\<And>j. j < n \<Longrightarrow> msk j \<Longrightarrow> cb + j < V"
    and t: "t < Ts" and j: "j < n" "msk j"
  shows "f Ts (cell H V (rb + t) h (cb + j)) = val t j"
proof -
  have "f Ts (cell H V (rb + t) h cb + j) = val t j"
  proof (rule store_seq_own[where f = f and p = "\<lambda>m. cell H V (rb + m) h cb" and n = n and msk = msk
        and val = val and M = Ts and m = t and j = j])
    fix m assume "m < Ts"
    then show "f (Suc m) = store (f m) (cell H V (rb + m) h cb) n msk (val m)" by (rule step)
  next
    fix m m' j j'
    assume a: "m < Ts" "m' < Ts" "j < n" "j' < n" "msk j" "msk j'"
      "cell H V (rb + m) h cb + j = cell H V (rb + m') h cb + j'"
    have "rb + m = rb + m'"
      using cell_inj[OF h h bound[OF a(3) a(5)] bound[OF a(4) a(6)]] a(7) unfolding cell_add by blast
    then show "m = m'" by simp
  qed (use t j in auto)
  then show ?thesis unfolding cell_add .
qed

lemma rows_store_frame:
  assumes step: "\<And>m. m < Ts \<Longrightarrow> f (Suc m) = store (f m) (cell H V (rb + m) h cb) n msk (val m)"
    and nw: "\<And>t j. t < Ts \<Longrightarrow> j < n \<Longrightarrow> msk j \<Longrightarrow> a \<noteq> cell H V (rb + t) h (cb + j)"
  shows "f Ts a = f 0 a"
proof (rule store_seq_frame[where f = f and p = "\<lambda>m. cell H V (rb + m) h cb" and n = n and msk = msk
        and val = val and M = Ts])
  fix m assume "m < Ts"
  then show "f (Suc m) = store (f m) (cell H V (rb + m) h cb) n msk (val m)" by (rule step)
next
  fix m j assume a: "m < Ts" "j < n" "msk j"
  from nw[OF a] show "a \<noteq> cell H V (rb + m) h cb + j" unfolding cell_add .
qed

lemma runa_dv_step:
  assumes st: "bwd_start_a A i_v bos srow Ts h GT s" and m: "m < Ts"
  shows "la_dv (bwd_run_a A i_v (Suc m) s) =
    store (la_dv (bwd_run_a A i_v m s)) (cell (ba_H A) (ba_V A) (bos + (Ts - Suc m)) h (i_v * ba_BV A)) (ba_BV A)
      (\<lambda>j. i_v * ba_BV A + j < ba_V A)
      (\<lambda>j. (\<Sum>i<ba_BK A. (la_b_dh (bwd_run_a A i_v m s) i j +
              load (ba_q A) (la_p_q (bwd_run_a A i_v m s)) (ba_BK A) (\<lambda>i. i < ba_K A) i * ba_scale A *
              load (ba_do A) (la_p_do (bwd_run_a A i_v m s)) (ba_BV A) (\<lambda>j. i_v * ba_BV A + j < ba_V A) j)
            * load (ba_k A) (la_p_k (bwd_run_a A i_v m s)) (ba_BK A) (\<lambda>i. i < ba_K A) i)
         * (if ba_IS_BETA_HEADWISE A
            then load (ba_beta A) (la_p_beta (bwd_run_a A i_v m s)) (ba_BV A) (\<lambda>j. i_v * ba_BV A + j < ba_V A) j
            else ba_beta A (la_p_beta (bwd_run_a A i_v m s))))"
  by (simp only: funpow.simps o_apply stepa_dv runa_at(6)[OF st m])

lemma dv_a_own:
  assumes st: "bwd_start_a A i_v bos srow Ts h GT s" and h: "h < ba_H A"
    and t: "t < Ts" and j: "j < ba_BV A" "i_v * ba_BV A + j < ba_V A"
  shows "la_dv (bwd_run_a A i_v Ts s) (cell (ba_H A) (ba_V A) (bos + t) h (i_v * ba_BV A + j))
       = spec_dv (ba_K A) (ba_scale A) (wq A bos h) (wk A bos h) (wdo A bos h) (wb A bos h) GT Ts t
              (i_v * ba_BV A + j)"
proof -
  have m: "Ts - Suc t < Ts" and tm: "Ts - Suc (Ts - Suc t) = t" using t by simp_all
  note own = rows_back_store_own[where f = "\<lambda>m. la_dv (bwd_run_a A i_v m s)" and msk = "\<lambda>j. i_v * ba_BV A + j < ba_V A",
        OF runa_dv_step[OF st] h _ t j]
  show ?thesis
    by (subst own) (simp_all add: runa_dv_val[OF st m j, unfolded tm])
qed

lemma dv_a_frame:
  assumes st: "bwd_start_a A i_v bos srow Ts h GT s"
    and nw: "\<And>t j. t < Ts \<Longrightarrow> j < ba_BV A \<Longrightarrow> i_v * ba_BV A + j < ba_V A \<Longrightarrow>
               a \<noteq> cell (ba_H A) (ba_V A) (bos + t) h (i_v * ba_BV A + j)"
  shows "la_dv (bwd_run_a A i_v Ts s) a = la_dv s a"
  using rows_back_store_frame[where f = "\<lambda>m. la_dv (bwd_run_a A i_v m s)" and msk = "\<lambda>j. i_v * ba_BV A + j < ba_V A",
        OF runa_dv_step[OF st] nw]
  by simp

lemma runa_dk_step:
  assumes st: "bwd_start_a A i_v bos srow Ts h GT s" and m: "m < Ts"
  shows "la_dk (bwd_run_a A i_v (Suc m) s) =
    store (la_dk (bwd_run_a A i_v m s)) (cell (ba_H A) (ba_K A) (srow + (Ts - Suc m)) h 0) (ba_BK A)
      (\<lambda>i. i < ba_K A)
      (\<lambda>i. \<Sum>j<ba_BV A. (la_b_dh (bwd_run_a A i_v m s) i j +
              load (ba_q A) (la_p_q (bwd_run_a A i_v m s)) (ba_BK A) (\<lambda>i. i < ba_K A) i * ba_scale A *
              load (ba_do A) (la_p_do (bwd_run_a A i_v m s)) (ba_BV A) (\<lambda>j. i_v * ba_BV A + j < ba_V A) j)
            * (load (ba_v A) (la_p_v (bwd_run_a A i_v m s)) (ba_BV A) (\<lambda>j. i_v * ba_BV A + j < ba_V A) j *
               (if ba_IS_BETA_HEADWISE A
                then load (ba_beta A) (la_p_beta (bwd_run_a A i_v m s)) (ba_BV A) (\<lambda>j. i_v * ba_BV A + j < ba_V A) j
                else ba_beta A (la_p_beta (bwd_run_a A i_v m s)))))"
  by (simp only: funpow.simps o_apply stepa_dk runa_at(5)[OF st m])

lemma dk_a_own:
  assumes st: "bwd_start_a A i_v bos srow Ts h GT s" and h: "h < ba_H A"
    and t: "t < Ts" and i: "i < ba_K A"
  shows "la_dk (bwd_run_a A i_v Ts s) (cell (ba_H A) (ba_K A) (srow + t) h i)
       = block_sum (ba_BV A) (ba_V A) i_v
           (\<lambda>c. sGacc A bos h GT Ts t i c * (wd A bos h t c * wb A bos h t c))"
proof -
  have m: "Ts - Suc t < Ts" and tm: "Ts - Suc (Ts - Suc t) = t" using t by simp_all
  have ib: "i < ba_BK A" using st i by (simp add: bwd_start_a_def)
  note own = rows_back_store_own[where f = "\<lambda>m. la_dk (bwd_run_a A i_v m s)" and msk = "\<lambda>i. i < ba_K A"
        and cb = 0 and j = i, OF runa_dk_step[OF st] h _ t ib i]
  show ?thesis using own
    by (simp add: runa_dk_val[OF st m i, unfolded tm])
qed

lemma dk_a_frame:
  assumes st: "bwd_start_a A i_v bos srow Ts h GT s"
    and nw: "\<And>t i. t < Ts \<Longrightarrow> i < ba_K A \<Longrightarrow> a \<noteq> cell (ba_H A) (ba_K A) (srow + t) h i"
  shows "la_dk (bwd_run_a A i_v Ts s) a = la_dk s a"
  using rows_back_store_frame[where f = "\<lambda>m. la_dk (bwd_run_a A i_v m s)" and msk = "\<lambda>i. i < ba_K A"
        and cb = 0 and a = a, OF runa_dk_step[OF st]] nw
  by simp

lemma runa_dbv_step:
  assumes st: "bwd_start_a A i_v bos srow Ts h GT s" and m: "m < Ts" and hw: "ba_IS_BETA_HEADWISE A"
  shows "la_db (bwd_run_a A i_v (Suc m) s) =
    store (la_db (bwd_run_a A i_v m s)) (cell (ba_H A) (ba_V A) (srow + (Ts - Suc m)) h 0) (ba_BV A)
      (\<lambda>j. i_v * ba_BV A + j < ba_V A)
      (\<lambda>j. (\<Sum>i<ba_BK A. (la_b_dh (bwd_run_a A i_v m s) i j +
              load (ba_q A) (la_p_q (bwd_run_a A i_v m s)) (ba_BK A) (\<lambda>i. i < ba_K A) i * ba_scale A *
              load (ba_do A) (la_p_do (bwd_run_a A i_v m s)) (ba_BV A) (\<lambda>j. i_v * ba_BV A + j < ba_V A) j)
            * load (ba_k A) (la_p_k (bwd_run_a A i_v m s)) (ba_BK A) (\<lambda>i. i < ba_K A) i)
         * load (ba_v A) (la_p_v (bwd_run_a A i_v m s)) (ba_BV A) (\<lambda>j. i_v * ba_BV A + j < ba_V A) j)"
  using hw by (simp only: funpow.simps o_apply stepa_db runa_at(8)[OF st m] if_True)

lemma dbv_a_own:
  assumes st: "bwd_start_a A i_v bos srow Ts h GT s" and h: "h < ba_H A" and hw: "ba_IS_BETA_HEADWISE A"
    and t: "t < Ts" and j: "j < ba_BV A" "i_v * ba_BV A + j < ba_V A"
  shows "la_db (bwd_run_a A i_v Ts s) (cell (ba_H A) (ba_V A) (srow + t) h j)
       = spec_dbeta (ba_K A) (ba_scale A) (wq A bos h) (wk A bos h) (wd A bos h) (wdo A bos h) (wb A bos h) GT Ts
            t (i_v * ba_BV A + j)"
proof -
  have m: "Ts - Suc t < Ts" and tm: "Ts - Suc (Ts - Suc t) = t" using t by simp_all
  note own = rows_back_store_own[where f = "\<lambda>m. la_db (bwd_run_a A i_v m s)"
        and msk = "\<lambda>j. i_v * ba_BV A + j < ba_V A" and cb = 0 and V = "ba_V A" and j = j,
        OF runa_dbv_step[OF st _ hw] h _ t j]
  show ?thesis using own
    by (simp add: runa_dbv_val[OF st m j, unfolded tm])
qed

lemma dbv_a_frame:
  assumes st: "bwd_start_a A i_v bos srow Ts h GT s" and hw: "ba_IS_BETA_HEADWISE A"
    and nw: "\<And>t j. t < Ts \<Longrightarrow> j < ba_BV A \<Longrightarrow> i_v * ba_BV A + j < ba_V A \<Longrightarrow>
               a \<noteq> cell (ba_H A) (ba_V A) (srow + t) h j"
  shows "la_db (bwd_run_a A i_v Ts s) a = la_db s a"
  using rows_back_store_frame[where f = "\<lambda>m. la_db (bwd_run_a A i_v m s)"
        and msk = "\<lambda>j. i_v * ba_BV A + j < ba_V A" and cb = 0 and a = a, OF runa_dbv_step[OF st _ hw]] nw
  by simp

lemma runa_dbs_step:
  assumes st: "bwd_start_a A i_v bos srow Ts h GT s" and m: "m < Ts" and hw: "\<not> ba_IS_BETA_HEADWISE A"
  shows "la_db (bwd_run_a A i_v (Suc m) s) =
    store (la_db (bwd_run_a A i_v m s)) (cell (ba_H A) 1 (srow + (Ts - Suc m)) h 0) 1 (\<lambda>j. True)
      (\<lambda>j'. (\<Sum>j<ba_BV A. (\<Sum>i<ba_BK A. (la_b_dh (bwd_run_a A i_v m s) i j +
              load (ba_q A) (la_p_q (bwd_run_a A i_v m s)) (ba_BK A) (\<lambda>i. i < ba_K A) i * ba_scale A *
              load (ba_do A) (la_p_do (bwd_run_a A i_v m s)) (ba_BV A) (\<lambda>j. i_v * ba_BV A + j < ba_V A) j)
            * load (ba_k A) (la_p_k (bwd_run_a A i_v m s)) (ba_BK A) (\<lambda>i. i < ba_K A) i)
         * load (ba_v A) (la_p_v (bwd_run_a A i_v m s)) (ba_BV A) (\<lambda>j. i_v * ba_BV A + j < ba_V A) j))"
proof -
  have c: "cell (ba_H A) 1 (srow + (Ts - Suc m)) h 0 = (srow + (Ts - Suc m)) * ba_H A + h"
    by (simp add: cell_def)
  show ?thesis
    unfolding c upd_as_store[symmetric]
    using hw by (simp only: funpow.simps o_apply stepa_db runa_at(8)[OF st m] if_False)
qed

lemma dbs_a_own:
  assumes st: "bwd_start_a A i_v bos srow Ts h GT s" and h: "h < ba_H A" and hw: "\<not> ba_IS_BETA_HEADWISE A"
    and t: "t < Ts"
  shows "la_db (bwd_run_a A i_v Ts s) ((srow + t) * ba_H A + h)
       = block_sum (ba_BV A) (ba_V A) i_v
           (spec_dbeta (ba_K A) (ba_scale A) (wq A bos h) (wk A bos h) (wd A bos h) (wdo A bos h) (wb A bos h) GT Ts t)"
proof -
  have m: "Ts - Suc t < Ts" and tm: "Ts - Suc (Ts - Suc t) = t" using t by simp_all
  note own = rows_back_store_own[where f = "\<lambda>m. la_db (bwd_run_a A i_v m s)"
        and msk = "\<lambda>j. True" and cb = 0 and V = 1 and j = 0 and n = 1,
        OF runa_dbs_step[OF st _ hw] h _ t]
  show ?thesis using own
    by (simp add: runa_dbs_val[OF st m, unfolded tm] cell_def)
qed

lemma dbs_a_frame:
  assumes st: "bwd_start_a A i_v bos srow Ts h GT s" and hw: "\<not> ba_IS_BETA_HEADWISE A"
    and nw: "\<And>t. t < Ts \<Longrightarrow> a \<noteq> (srow + t) * ba_H A + h"
  shows "la_db (bwd_run_a A i_v Ts s) a = la_db s a"
  using rows_back_store_frame[where f = "\<lambda>m. la_db (bwd_run_a A i_v m s)"
        and msk = "\<lambda>j. True" and cb = 0 and V = 1 and n = 1 and a = a, OF runa_dbs_step[OF st _ hw]] nw
  by (simp add: cell_def)

lemma stepb_ptr [simp]:
  "lb_p_k (bwd_step_b exact A dv mk mv s) = lb_p_k s + ba_H A * ba_K A"
  "lb_p_v (bwd_step_b exact A dv mk mv s) = lb_p_v s + ba_H A * ba_V A"
  "lb_p_do (bwd_step_b exact A dv mk mv s) = lb_p_do s + ba_H A * ba_V A"
  "lb_p_dq (bwd_step_b exact A dv mk mv s) = lb_p_dq s + ba_H A * ba_K A"
  "lb_p_dk (bwd_step_b exact A dv mk mv s) = lb_p_dk s + ba_H A * ba_K A"
  "lb_p_dv (bwd_step_b exact A dv mk mv s) = lb_p_dv s + ba_H A * ba_V A"
  "lb_p_beta (bwd_step_b exact A dv mk mv s) = lb_p_beta s + ba_H A * (if ba_IS_BETA_HEADWISE A then ba_V A else 1)"
  by (simp_all add: bwd_step_b_def Let_def)

lemma runb_ptr:
  "lb_p_k ((bwd_step_b exact A dv mk mv ^^ t) s) = lb_p_k s + t * (ba_H A * ba_K A)"
  "lb_p_v ((bwd_step_b exact A dv mk mv ^^ t) s) = lb_p_v s + t * (ba_H A * ba_V A)"
  "lb_p_do ((bwd_step_b exact A dv mk mv ^^ t) s) = lb_p_do s + t * (ba_H A * ba_V A)"
  "lb_p_dq ((bwd_step_b exact A dv mk mv ^^ t) s) = lb_p_dq s + t * (ba_H A * ba_K A)"
  "lb_p_dk ((bwd_step_b exact A dv mk mv ^^ t) s) = lb_p_dk s + t * (ba_H A * ba_K A)"
  "lb_p_dv ((bwd_step_b exact A dv mk mv ^^ t) s) = lb_p_dv s + t * (ba_H A * ba_V A)"
  "lb_p_beta ((bwd_step_b exact A dv mk mv ^^ t) s) = lb_p_beta s + t * (ba_H A * (if ba_IS_BETA_HEADWISE A then ba_V A else 1))"
  by (induction t) (simp_all add: algebra_simps)

lemma fwd_cell: "cell H V r h c + t * (H * V) = cell H V (r + t) h c"
  by (simp add: cell_def algebra_simps)

lemma runb_at:
  assumes st: "bwd_start_b A i_v bos srow h H0 s"
  shows "lb_p_k (bwd_run_b A dv i_v t s) = cell (ba_H A) (ba_K A) (bos + t) h 0"
    and "lb_p_v (bwd_run_b A dv i_v t s) = cell (ba_H A) (ba_V A) (bos + t) h (i_v * ba_BV A)"
    and "lb_p_do (bwd_run_b A dv i_v t s) = cell (ba_H A) (ba_V A) (bos + t) h (i_v * ba_BV A)"
    and "lb_p_dq (bwd_run_b A dv i_v t s) = cell (ba_H A) (ba_K A) (srow + t) h 0"
    and "lb_p_dk (bwd_run_b A dv i_v t s) = cell (ba_H A) (ba_K A) (srow + t) h 0"
    and "lb_p_dv (bwd_run_b A dv i_v t s) = cell (ba_H A) (ba_V A) (bos + t) h (i_v * ba_BV A)"
    and "lb_p_beta (bwd_run_b A dv i_v t s) =
           (if ba_IS_BETA_HEADWISE A then cell (ba_H A) (ba_V A) (bos + t) h (i_v * ba_BV A)
            else (bos + t) * ba_H A + h)"
  using st unfolding runb_ptr bwd_start_b_def
  by (simp_all add: fwd_cell) (simp add: algebra_simps)

lemma stepb_b_h: "lb_b_h (bwd_step_b exact A dv mk mv s) =
  (\<lambda>i j. lb_b_h s i j + load (ba_k A) (lb_p_k s) (ba_BK A) mk i *
     (load (ba_v A) (lb_p_v s) (ba_BV A) mv j *
      (if ba_IS_BETA_HEADWISE A then load (ba_beta A) (lb_p_beta s) (ba_BV A) mv j else ba_beta A (lb_p_beta s))))"
  by (simp add: bwd_step_b_def Let_def fun_eq_iff)

lemma stepb_dq: "lb_dq (bwd_step_b exact A dv mk mv s) =
  store (lb_dq s) (lb_p_dq s) (ba_BK A) mk
    (\<lambda>i. (\<Sum>j<ba_BV A. lb_b_h (bwd_step_b exact A dv mk mv s) i j * load (ba_do A) (lb_p_do s) (ba_BV A) mv j) * ba_scale A)"
  by (simp add: bwd_step_b_def Let_def)

lemma stepb_dk: "lb_dk (bwd_step_b exact A dv mk mv s) =
  store (lb_dk s) (lb_p_dk s) (ba_BK A) mk
    (\<lambda>i. load (lb_dk s) (lb_p_dk s) (ba_BK A) mk i -
         (\<Sum>j<ba_BV A. load dv (lb_p_dv s) (ba_BV A) mv j * lb_b_h s i j))"
  by (simp add: bwd_step_b_def Let_def)

lemma bhb_run:
  assumes st: "bwd_start_b A i_v bos srow h H0 s"
  shows "lb_b_h (bwd_run_b A dv i_v t s) =
    (\<lambda>i j. if i < ba_K A \<and> j < ba_BV A \<and> i_v * ba_BV A + j < ba_V A
       then sHb A bos h H0 t i (i_v * ba_BV A + j) else 0)"
proof (induction t)
  case 0
  show ?case using st by (simp add: bwd_start_b_def cong: if_cong)
next
  case (Suc t)
  note at = runb_at[OF st, where dv = dv and t = t]
  have kb: "ba_K A \<le> ba_BK A" using st by (simp add: bwd_start_b_def)
  show ?case
    apply (simp only: funpow.simps o_apply stepb_b_h Suc.IH at)
    apply (rule ext)+
    apply (use kb in \<open>auto simp: load_cell rows_def beta_rows_def\<close>)
    done
qed

lemma runb_dq_step:
  assumes st: "bwd_start_b A i_v bos srow h H0 s"
  shows "lb_dq (bwd_run_b A dv i_v (Suc t) s) =
    store (lb_dq (bwd_run_b A dv i_v t s)) (cell (ba_H A) (ba_K A) (srow + t) h 0) (ba_BK A) (\<lambda>i. i < ba_K A)
      (\<lambda>i. (\<Sum>j<ba_BV A. lb_b_h (bwd_run_b A dv i_v (Suc t) s) i j *
              load (ba_do A) (lb_p_do (bwd_run_b A dv i_v t s)) (ba_BV A) (\<lambda>j. i_v * ba_BV A + j < ba_V A) j)
            * ba_scale A)"
  by (simp only: funpow.simps o_apply stepb_dq runb_at(4)[OF st])

lemma runb_dq_val:
  assumes st: "bwd_start_b A i_v bos srow h H0 s" and i: "i < ba_K A"
  shows "(\<Sum>j<ba_BV A. lb_b_h (bwd_run_b A dv i_v (Suc t) s) i j *
              load (ba_do A) (lb_p_do (bwd_run_b A dv i_v t s)) (ba_BV A) (\<lambda>j. i_v * ba_BV A + j < ba_V A) j)
       = block_sum (ba_BV A) (ba_V A) i_v (\<lambda>c. sHb A bos h H0 (Suc t) i c * wdo A bos h t c)"
  unfolding block_sum_def bhb_run[OF st] runb_at[OF st]
  by (rule sum.cong) (use i in \<open>simp_all add: load_cell rows_def\<close>)

lemma dq_b_own:
  assumes st: "bwd_start_b A i_v bos srow h H0 s" and h: "h < ba_H A"
    and t: "t < Ts" and i: "i < ba_K A"
  shows "lb_dq (bwd_run_b A dv i_v Ts s) (cell (ba_H A) (ba_K A) (srow + t) h i)
       = block_sum (ba_BV A) (ba_V A) i_v (\<lambda>c. sHb A bos h H0 (Suc t) i c * wdo A bos h t c) * ba_scale A"
proof -
  have ib: "i < ba_BK A" using st i by (simp add: bwd_start_b_def)
  note own = rows_store_own[where f = "\<lambda>m. lb_dq (bwd_run_b A dv i_v m s)" and msk = "\<lambda>i. i < ba_K A"
        and cb = 0 and j = i, OF runb_dq_step[OF st] h _ t ib i, simplified add_0]
  show ?thesis by (simp only: own runb_dq_val[OF st i])
qed

lemma dq_b_frame:
  assumes st: "bwd_start_b A i_v bos srow h H0 s"
    and nw: "\<And>t i. t < Ts \<Longrightarrow> i < ba_K A \<Longrightarrow> a \<noteq> cell (ba_H A) (ba_K A) (srow + t) h i"
  shows "lb_dq (bwd_run_b A dv i_v Ts s) a = lb_dq s a"
  using rows_store_frame[where f = "\<lambda>m. lb_dq (bwd_run_b A dv i_v m s)" and msk = "\<lambda>i. i < ba_K A"
        and cb = 0 and a = a, OF runb_dq_step[OF st]] nw
  by simp

lemma runb_dk_step:
  assumes st: "bwd_start_b A i_v bos srow h H0 s"
  shows "lb_dk (bwd_run_b A dv i_v (Suc t) s) =
    store (lb_dk (bwd_run_b A dv i_v t s)) (cell (ba_H A) (ba_K A) (srow + t) h 0) (ba_BK A) (\<lambda>i. i < ba_K A)
      (\<lambda>i. load (lb_dk (bwd_run_b A dv i_v t s)) (cell (ba_H A) (ba_K A) (srow + t) h 0) (ba_BK A) (\<lambda>i. i < ba_K A) i -
         (\<Sum>j<ba_BV A. load dv (cell (ba_H A) (ba_V A) (bos + t) h (i_v * ba_BV A)) (ba_BV A)
                          (\<lambda>j. i_v * ba_BV A + j < ba_V A) j *
                        lb_b_h (bwd_run_b A dv i_v t s) i j))"
  by (simp only: funpow.simps o_apply stepb_dk runb_at(5,6)[OF st])

lemma dk_b_frame:
  assumes st: "bwd_start_b A i_v bos srow h H0 s"
    and nw: "\<And>t i. t < Ts \<Longrightarrow> i < ba_K A \<Longrightarrow> a \<noteq> cell (ba_H A) (ba_K A) (srow + t) h i"
  shows "lb_dk (bwd_run_b A dv i_v Ts s) a = lb_dk s a"
  using rows_store_frame[where f = "\<lambda>m. lb_dk (bwd_run_b A dv i_v m s)" and msk = "\<lambda>i. i < ba_K A"
        and cb = 0 and a = a, OF runb_dk_step[OF st]] nw
  by simp

lemma dk_b_own:
  assumes st: "bwd_start_b A i_v bos srow h H0 s" and h: "h < ba_H A"
    and t: "t < Ts" and i: "i < ba_K A"
  shows "lb_dk (bwd_run_b A dv i_v Ts s) (cell (ba_H A) (ba_K A) (srow + t) h i)
       = lb_dk s (cell (ba_H A) (ba_K A) (srow + t) h i) -
         block_sum (ba_BV A) (ba_V A) i_v
           (\<lambda>c. dv (cell (ba_H A) (ba_V A) (bos + t) h c) * sHb A bos h H0 t i c)"
proof -
  have ib: "i < ba_BK A" using st i by (simp add: bwd_start_b_def)
  note own = rows_store_own[where f = "\<lambda>m. lb_dk (bwd_run_b A dv i_v m s)" and msk = "\<lambda>i. i < ba_K A"
        and cb = 0 and j = i, OF runb_dk_step[OF st] h _ t ib i, simplified add_0]
  have before: "lb_dk (bwd_run_b A dv i_v t s) (cell (ba_H A) (ba_K A) (srow + t) h i)
      = lb_dk s (cell (ba_H A) (ba_K A) (srow + t) h i)"
  proof (rule dk_b_frame[OF st])
    fix t' i' assume a: "t' < t" "i' < ba_K A"
    show "cell (ba_H A) (ba_K A) (srow + t) h i \<noteq> cell (ba_H A) (ba_K A) (srow + t') h i'"
      using cell_inj[OF h h i a(2), of "srow + t" "srow + t'"] a(1) by auto
  qed
  have corr: "(\<Sum>j<ba_BV A. load dv (cell (ba_H A) (ba_V A) (bos + t) h (i_v * ba_BV A)) (ba_BV A)
                          (\<lambda>j. i_v * ba_BV A + j < ba_V A) j *
                        lb_b_h (bwd_run_b A dv i_v t s) i j)
      = block_sum (ba_BV A) (ba_V A) i_v
           (\<lambda>c. dv (cell (ba_H A) (ba_V A) (bos + t) h c) * sHb A bos h H0 t i c)"
    unfolding block_sum_def bhb_run[OF st]
    by (rule sum.cong) (use i in \<open>simp_all add: load_cell\<close>)
  have "lb_dk (bwd_run_b A dv i_v Ts s) (cell (ba_H A) (ba_K A) (srow + t) h i)
      = load (lb_dk (bwd_run_b A dv i_v t s)) (cell (ba_H A) (ba_K A) (srow + t) h 0) (ba_BK A) (\<lambda>i. i < ba_K A) i -
        block_sum (ba_BV A) (ba_V A) i_v
           (\<lambda>c. dv (cell (ba_H A) (ba_V A) (bos + t) h c) * sHb A bos h H0 t i c)"
    by (simp only: own corr)
  then show ?thesis using i ib before by (simp add: load_cell)
qed

lemma bwd_init_a_mem [simp]:
  "la_dk (bwd_init_a A i_v i_nh M) = bm_dk M"
  "la_dv (bwd_init_a A i_v i_nh M) = bm_dv M"
  "la_db (bwd_init_a A i_v i_nh M) = bm_db M"
  by (simp_all add: bwd_init_a_def Let_def)

lemma bwd_init_b_mem [simp]:
  "lb_dq (bwd_init_b A i_v i_nh dq dk) = dq"
  "lb_dk (bwd_init_b A i_v i_nh dq dk) = dk"
  by (simp_all add: bwd_init_b_def Let_def)

lemma bwd_init_a_start:
  assumes kb: "ba_K A \<le> ba_BK A" and nk: "ba_NK A = 1"
  shows "bwd_start_a A i_v (bbos A (i_nh div ba_H A))
           (i_v * ball A (i_nh div ba_H A) + bbos A (i_nh div ba_H A))
           (blen A (i_nh div ba_H A)) (i_nh mod ba_H A)
           (state_of (ba_dht A) (ba_K A) (ba_V A) i_nh) (bwd_init_a A i_v i_nh M)"
proof -
  define T where "T = blen A (i_nh div ba_H A)"
  define bos where "bos = bbos A (i_nh div ba_H A)"
  define al where "al = ball A (i_nh div ba_H A)"
  define h where "h = i_nh mod ba_H A"
  have p1: "(r * H + h) * K + c + u * H * K = cell H K r h c + u * (H * K)" for r H h K c u :: nat
    by (simp add: cell_def)
  have p2: "(r * H + h) * K + u * H * K = cell H K r h 0 + u * (H * K)" for r H h K u :: nat
    by (simp add: cell_def)
  have p3: "(r + u) * H * V + h * V + c = cell H V r h c + u * (H * V)" for r H h V c u :: nat
    by (simp add: cell_def algebra_simps)
  have p4: "(r + u) * H * V + h * V = cell H V r h 0 + u * (H * V)" for r H h V u :: nat
    by (simp add: cell_def algebra_simps)
  have p5: "(r + u) * H + h = r * H + h + u * H" for r H h u :: nat
    by (simp add: algebra_simps)
  have ptr: "la_p_q (bwd_init_a A i_v i_nh M) = cell (ba_H A) (ba_K A) bos h 0 + (T - 1) * (ba_H A * ba_K A)"
      "la_p_k (bwd_init_a A i_v i_nh M) = cell (ba_H A) (ba_K A) bos h 0 + (T - 1) * (ba_H A * ba_K A)"
      "la_p_v (bwd_init_a A i_v i_nh M) = cell (ba_H A) (ba_V A) bos h (i_v * ba_BV A) + (T - 1) * (ba_H A * ba_V A)"
      "la_p_do (bwd_init_a A i_v i_nh M) = cell (ba_H A) (ba_V A) bos h (i_v * ba_BV A) + (T - 1) * (ba_H A * ba_V A)"
      "la_p_dk (bwd_init_a A i_v i_nh M) = cell (ba_H A) (ba_K A) (i_v * al + bos) h 0 + (T - 1) * (ba_H A * ba_K A)"
      "la_p_dv (bwd_init_a A i_v i_nh M) = cell (ba_H A) (ba_V A) bos h (i_v * ba_BV A) + (T - 1) * (ba_H A * ba_V A)"
    unfolding bwd_init_a_def Let_def T_def[symmetric] bos_def[symmetric] al_def[symmetric] h_def[symmetric]
    by (simp_all only: bwd_loop_a.simps p1 p2)
  have ptr2: "la_p_beta (bwd_init_a A i_v i_nh M) = (if ba_IS_BETA_HEADWISE A
                      then cell (ba_H A) (ba_V A) bos h (i_v * ba_BV A) + (T - 1) * (ba_H A * ba_V A)
                      else bos * ba_H A + h + (T - 1) * ba_H A)"
      "la_p_dbeta (bwd_init_a A i_v i_nh M) = (if ba_IS_BETA_HEADWISE A
                       then cell (ba_H A) (ba_V A) (i_v * al + bos) h 0 + (T - 1) * (ba_H A * ba_V A)
                       else (i_v * al + bos) * ba_H A + h + (T - 1) * ba_H A)" if "0 < T"
  proof -
    have e: "x + T - 1 = x + (T - 1)" for x using that by simp
    show "la_p_beta (bwd_init_a A i_v i_nh M) = (if ba_IS_BETA_HEADWISE A
                      then cell (ba_H A) (ba_V A) bos h (i_v * ba_BV A) + (T - 1) * (ba_H A * ba_V A)
                      else bos * ba_H A + h + (T - 1) * ba_H A)"
      unfolding bwd_init_a_def Let_def T_def[symmetric] bos_def[symmetric] al_def[symmetric] h_def[symmetric]
      by (simp only: bwd_loop_a.simps e p3 p5)
    show "la_p_dbeta (bwd_init_a A i_v i_nh M) = (if ba_IS_BETA_HEADWISE A
                       then cell (ba_H A) (ba_V A) (i_v * al + bos) h 0 + (T - 1) * (ba_H A * ba_V A)
                       else (i_v * al + bos) * ba_H A + h + (T - 1) * ba_H A)"
      unfolding bwd_init_a_def Let_def T_def[symmetric] bos_def[symmetric] al_def[symmetric] h_def[symmetric]
      by (simp only: bwd_loop_a.simps nk mult_1_right e p4 p5)
  qed
  have dh: "la_b_dh (bwd_init_a A i_v i_nh M) = (\<lambda>i j. if i < ba_K A \<and> j < ba_BV A \<and> i_v * ba_BV A + j < ba_V A
                        then state_of (ba_dht A) (ba_K A) (ba_V A) i_nh i (i_v * ba_BV A + j) else 0)"
    unfolding bwd_init_a_def Let_def by (simp only: bwd_loop_a.simps)
  show ?thesis
    unfolding bwd_start_a_def T_def[symmetric] bos_def[symmetric] al_def[symmetric] h_def[symmetric]
    using kb ptr ptr2 dh by blast
qed

lemma bwd_init_b_start:
  assumes kb: "ba_K A \<le> ba_BK A"
  shows "bwd_start_b A i_v (bbos A (i_nh div ba_H A))
           (i_v * ball A (i_nh div ba_H A) + bbos A (i_nh div ba_H A))
           (i_nh mod ba_H A)
           (state_of (ba_h0 A) (ba_K A) (ba_V A) i_nh) (bwd_init_b A i_v i_nh dq dk)"
  unfolding bwd_start_b_def bwd_init_b_def Let_def
  using kb by (simp add: cell_def)

lemma bwd_kernel_unfold:
  assumes kb: "ba_K A \<le> ba_BK A"
  shows "fused_recurrent_delta_rule_bwd_kernel exact A (i_v, 0, i_nh) M =
     (let sa = bwd_run_a A i_v (blen A (i_nh div ba_H A)) (bwd_init_a A i_v i_nh M) in
      ebind
        (case ba_h0 A of
           None \<Rightarrow> Inr (bm_dh0 M)
         | Some h0 \<Rightarrow>
             (case bm_dh0 M of
                None \<Rightarrow> Inl TypeError
              | Some dh0 \<Rightarrow>
                  Inr (Some (store_state dh0 (\<lambda>i j. cell (ba_K A) (ba_V A) i_nh i (i_v * ba_BV A + j))
                     (ba_BK A) (ba_BV A) (\<lambda>i. i < ba_K A) (\<lambda>j. i_v * ba_BV A + j < ba_V A) (la_b_dh sa)))))
        (\<lambda>dh0'.
           let sb = bwd_run_b A (la_dv sa) i_v (blen A (i_nh div ba_H A))
                      (bwd_init_b A i_v i_nh (bm_dq M) (la_dk sa))
           in Inr \<lparr>bm_dq = lb_dq sb, bm_dk = lb_dk sb, bm_dv = la_dv sa, bm_db = la_db sa,
                   bm_dh0 = dh0'\<rparr>))"
proof -
  have addr: "state_addr (i_nh * ba_K A * ba_V A) (ba_V A) (ba_BK A) (ba_BV A) 0 i_v
      = (\<lambda>i j. cell (ba_K A) (ba_V A) i_nh i (i_v * ba_BV A + j))"
    by (simp add: state_addr_def cell_def fun_eq_iff algebra_simps)
  have c: "(i < ba_BK A \<and> j < ba_BV A \<and> i < ba_K A \<and> Q) = (i < ba_K A \<and> j < ba_BV A \<and> Q)" for i j Q
    using kb by auto
  obtain bos eos all_t T where sb: "seq_bounds (ba_cu_seqlens A) (ba_B A) (ba_T A) (i_nh div ba_H A) = (bos, eos, all_t, T)"
    by (cases "seq_bounds (ba_cu_seqlens A) (ba_B A) (ba_T A) (i_nh div ba_H A)") auto
  show ?thesis
    unfolding fused_recurrent_delta_rule_bwd_kernel_def
    by (cases "ba_h0 A"; cases "ba_dht A"; cases "bm_dh0 M")
      (simp_all add: sb seq_len_def seq_bos_def seq_all_def bwd_init_a_def bwd_init_b_def Let_def state_of_def
         addr load_state_def c cong: if_cong)
qed

lemma block_sum_cong:
  assumes "\<And>j. j < BV \<Longrightarrow> i_v * BV + j < V \<Longrightarrow> f (i_v * BV + j) = g (i_v * BV + j)"
  shows "block_sum BV V i_v f = block_sum BV V i_v g"
  unfolding block_sum_def by (rule sum.cong) (use assms in auto)

lemma block_sum_diff:
  "block_sum BV V i_v f - block_sum BV V i_v g = block_sum BV V i_v (\<lambda>c. f c - g c)"
  unfolding block_sum_def sum_subtractf[symmetric] by (rule sum.cong) auto

lemma bwd_kernel_sel:
  assumes kb: "ba_K A \<le> ba_BK A"
    and ok: "fused_recurrent_delta_rule_bwd_kernel exact A (i_v, 0, i_nh) M = Inr M1"
  shows "bm_dv M1 = la_dv (bwd_run_a A i_v (blen A (i_nh div ba_H A)) (bwd_init_a A i_v i_nh M))"
    and "bm_db M1 = la_db (bwd_run_a A i_v (blen A (i_nh div ba_H A)) (bwd_init_a A i_v i_nh M))"
    and "bm_dq M1 = lb_dq (bwd_run_b A (la_dv (bwd_run_a A i_v (blen A (i_nh div ba_H A)) (bwd_init_a A i_v i_nh M)))
            i_v (blen A (i_nh div ba_H A))
            (bwd_init_b A i_v i_nh (bm_dq M)
               (la_dk (bwd_run_a A i_v (blen A (i_nh div ba_H A)) (bwd_init_a A i_v i_nh M)))))"
    and "bm_dk M1 = lb_dk (bwd_run_b A (la_dv (bwd_run_a A i_v (blen A (i_nh div ba_H A)) (bwd_init_a A i_v i_nh M)))
            i_v (blen A (i_nh div ba_H A))
            (bwd_init_b A i_v i_nh (bm_dq M)
               (la_dk (bwd_run_a A i_v (blen A (i_nh div ba_H A)) (bwd_init_a A i_v i_nh M)))))"
  using ok unfolding bwd_kernel_unfold[OF kb] Let_def
  by (cases "ba_h0 A"; cases "bm_dh0 M"; auto simp: ebind_Inl ebind_Inr)+

lemma k_dv_own:
  assumes kb: "ba_K A \<le> ba_BK A" and nk: "ba_NK A = 1" and h: "0 < ba_H A"
    and ok: "fused_recurrent_delta_rule_bwd_kernel exact A (i_v, 0, i_nh) M = Inr M1"
    and t: "t < blen A (i_nh div ba_H A)" and j: "j < ba_BV A" "i_v * ba_BV A + j < ba_V A"
  shows "bm_dv M1 (cell (ba_H A) (ba_V A) (bbos A (i_nh div ba_H A) + t) (i_nh mod ba_H A) (i_v * ba_BV A + j))
       = rdv A i_nh t (i_v * ba_BV A + j)"
  unfolding bwd_kernel_sel(1)[OF kb ok]
  by (rule dv_a_own[OF bwd_init_a_start[OF kb nk] _ t j]) (use h in simp)

lemma k_dv_frame:
  assumes kb: "ba_K A \<le> ba_BK A" and nk: "ba_NK A = 1"
    and ok: "fused_recurrent_delta_rule_bwd_kernel exact A (i_v, 0, i_nh) M = Inr M1"
    and nw: "\<And>t j. t < blen A (i_nh div ba_H A) \<Longrightarrow> j < ba_BV A \<Longrightarrow> i_v * ba_BV A + j < ba_V A \<Longrightarrow>
               a \<noteq> cell (ba_H A) (ba_V A) (bbos A (i_nh div ba_H A) + t) (i_nh mod ba_H A) (i_v * ba_BV A + j)"
  shows "bm_dv M1 a = bm_dv M a"
  unfolding bwd_kernel_sel(1)[OF kb ok]
  using dv_a_frame[OF bwd_init_a_start[OF kb nk, where i_v = i_v and i_nh = i_nh and M = M], where a = a] nw by simp

lemma k_dbv_own:
  assumes kb: "ba_K A \<le> ba_BK A" and nk: "ba_NK A = 1" and h: "0 < ba_H A" and hw: "ba_IS_BETA_HEADWISE A"
    and ok: "fused_recurrent_delta_rule_bwd_kernel exact A (i_v, 0, i_nh) M = Inr M1"
    and t: "t < blen A (i_nh div ba_H A)" and j: "j < ba_BV A" "i_v * ba_BV A + j < ba_V A"
  shows "bm_db M1 (cell (ba_H A) (ba_V A) (i_v * ball A (i_nh div ba_H A) + bbos A (i_nh div ba_H A) + t)
            (i_nh mod ba_H A) j)
       = rdbeta A i_nh t (i_v * ba_BV A + j)"
  unfolding bwd_kernel_sel(2)[OF kb ok]
  by (rule dbv_a_own[OF bwd_init_a_start[OF kb nk] _ hw t j]) (use h in simp)

lemma k_dbv_frame:
  assumes kb: "ba_K A \<le> ba_BK A" and nk: "ba_NK A = 1" and hw: "ba_IS_BETA_HEADWISE A"
    and ok: "fused_recurrent_delta_rule_bwd_kernel exact A (i_v, 0, i_nh) M = Inr M1"
    and nw: "\<And>t j. t < blen A (i_nh div ba_H A) \<Longrightarrow> j < ba_BV A \<Longrightarrow> i_v * ba_BV A + j < ba_V A \<Longrightarrow>
               a \<noteq> cell (ba_H A) (ba_V A) (i_v * ball A (i_nh div ba_H A) + bbos A (i_nh div ba_H A) + t)
                      (i_nh mod ba_H A) j"
  shows "bm_db M1 a = bm_db M a"
  unfolding bwd_kernel_sel(2)[OF kb ok]
  using dbv_a_frame[OF bwd_init_a_start[OF kb nk, where i_v = i_v and i_nh = i_nh and M = M] hw, where a = a] nw by simp

lemma k_dbs_own:
  assumes kb: "ba_K A \<le> ba_BK A" and nk: "ba_NK A = 1" and h: "0 < ba_H A" and hw: "\<not> ba_IS_BETA_HEADWISE A"
    and ok: "fused_recurrent_delta_rule_bwd_kernel exact A (i_v, 0, i_nh) M = Inr M1"
    and t: "t < blen A (i_nh div ba_H A)"
  shows "bm_db M1 ((i_v * ball A (i_nh div ba_H A) + bbos A (i_nh div ba_H A) + t) * ba_H A + i_nh mod ba_H A)
       = block_sum (ba_BV A) (ba_V A) i_v (rdbeta A i_nh t)"
  unfolding bwd_kernel_sel(2)[OF kb ok]
  by (rule dbs_a_own[OF bwd_init_a_start[OF kb nk] _ hw t]) (use h in simp)

lemma k_dbs_frame:
  assumes kb: "ba_K A \<le> ba_BK A" and nk: "ba_NK A = 1" and hw: "\<not> ba_IS_BETA_HEADWISE A"
    and ok: "fused_recurrent_delta_rule_bwd_kernel exact A (i_v, 0, i_nh) M = Inr M1"
    and nw: "\<And>t. t < blen A (i_nh div ba_H A) \<Longrightarrow>
               a \<noteq> (i_v * ball A (i_nh div ba_H A) + bbos A (i_nh div ba_H A) + t) * ba_H A + i_nh mod ba_H A"
  shows "bm_db M1 a = bm_db M a"
  unfolding bwd_kernel_sel(2)[OF kb ok]
  using dbs_a_frame[OF bwd_init_a_start[OF kb nk, where i_v = i_v and i_nh = i_nh and M = M] hw, where a = a] nw by simp

lemma k_dq_own:
  assumes kb: "ba_K A \<le> ba_BK A" and h: "0 < ba_H A"
    and ok: "fused_recurrent_delta_rule_bwd_kernel exact A (i_v, 0, i_nh) M = Inr M1"
    and t: "t < blen A (i_nh div ba_H A)" and i: "i < ba_K A"
  shows "bm_dq M1 (cell (ba_H A) (ba_K A) (i_v * ball A (i_nh div ba_H A) + bbos A (i_nh div ba_H A) + t)
            (i_nh mod ba_H A) i)
       = block_sum (ba_BV A) (ba_V A) i_v
           (\<lambda>c. rHb A i_nh (Suc t) i c * wdo A (bbos A (i_nh div ba_H A)) (i_nh mod ba_H A) t c) * ba_scale A"
  unfolding bwd_kernel_sel(3)[OF kb ok]
  by (rule dq_b_own[OF bwd_init_b_start[OF kb] _ t i]) (use h in simp)

lemma k_dq_frame:
  assumes kb: "ba_K A \<le> ba_BK A"
    and ok: "fused_recurrent_delta_rule_bwd_kernel exact A (i_v, 0, i_nh) M = Inr M1"
    and nw: "\<And>t i. t < blen A (i_nh div ba_H A) \<Longrightarrow> i < ba_K A \<Longrightarrow>
               a \<noteq> cell (ba_H A) (ba_K A) (i_v * ball A (i_nh div ba_H A) + bbos A (i_nh div ba_H A) + t)
                      (i_nh mod ba_H A) i"
  shows "bm_dq M1 a = bm_dq M a"
  unfolding bwd_kernel_sel(3)[OF kb ok]
  using dq_b_frame[OF bwd_init_b_start[OF kb, where i_v = i_v and i_nh = i_nh], where a = a and Ts = "blen A (i_nh div ba_H A)"] nw by simp

lemma k_dk_frame:
  assumes kb: "ba_K A \<le> ba_BK A" and nk: "ba_NK A = 1"
    and ok: "fused_recurrent_delta_rule_bwd_kernel exact A (i_v, 0, i_nh) M = Inr M1"
    and nw: "\<And>t i. t < blen A (i_nh div ba_H A) \<Longrightarrow> i < ba_K A \<Longrightarrow>
               a \<noteq> cell (ba_H A) (ba_K A) (i_v * ball A (i_nh div ba_H A) + bbos A (i_nh div ba_H A) + t)
                      (i_nh mod ba_H A) i"
  shows "bm_dk M1 a = bm_dk M a"
proof -
  have "bm_dk M1 a = la_dk (bwd_run_a A i_v (blen A (i_nh div ba_H A)) (bwd_init_a A i_v i_nh M)) a"
    unfolding bwd_kernel_sel(4)[OF kb ok]
    using dk_b_frame[OF bwd_init_b_start[OF kb, where i_v = i_v and i_nh = i_nh], where a = a and Ts = "blen A (i_nh div ba_H A)"] nw by simp
  also have "\<dots> = bm_dk M a"
    using dk_a_frame[OF bwd_init_a_start[OF kb nk, where i_v = i_v and i_nh = i_nh and M = M], where a = a] nw by simp
  finally show ?thesis .
qed

lemma k_dk_own:
  assumes kb: "ba_K A \<le> ba_BK A" and nk: "ba_NK A = 1" and h: "0 < ba_H A"
    and ok: "fused_recurrent_delta_rule_bwd_kernel exact A (i_v, 0, i_nh) M = Inr M1"
    and t: "t < blen A (i_nh div ba_H A)" and i: "i < ba_K A"
  shows "bm_dk M1 (cell (ba_H A) (ba_K A) (i_v * ball A (i_nh div ba_H A) + bbos A (i_nh div ba_H A) + t)
            (i_nh mod ba_H A) i)
       = block_sum (ba_BV A) (ba_V A) i_v
           (\<lambda>c. rGacc A i_nh t i c *
                  (wd A (bbos A (i_nh div ba_H A)) (i_nh mod ba_H A) t c *
                   wb A (bbos A (i_nh div ba_H A)) (i_nh mod ba_H A) t c) -
                rHb A i_nh t i c * rdv A i_nh t c)"
proof -
  let ?sa = "bwd_run_a A i_v (blen A (i_nh div ba_H A)) (bwd_init_a A i_v i_nh M)"
  have hh: "i_nh mod ba_H A < ba_H A" using h by simp
  note sta = bwd_init_a_start[OF kb nk, where i_v = i_v and i_nh = i_nh and M = M]
  have "bm_dk M1 (cell (ba_H A) (ba_K A) (i_v * ball A (i_nh div ba_H A) + bbos A (i_nh div ba_H A) + t)
            (i_nh mod ba_H A) i)
      = la_dk ?sa (cell (ba_H A) (ba_K A) (i_v * ball A (i_nh div ba_H A) + bbos A (i_nh div ba_H A) + t)
            (i_nh mod ba_H A) i) -
        block_sum (ba_BV A) (ba_V A) i_v
           (\<lambda>c. la_dv ?sa (cell (ba_H A) (ba_V A) (bbos A (i_nh div ba_H A) + t) (i_nh mod ba_H A) c) *
                 rHb A i_nh t i c)"
    unfolding bwd_kernel_sel(4)[OF kb ok]
    by (rule dk_b_own[OF bwd_init_b_start[OF kb] hh t i, simplified bwd_init_b_mem])
  also have "block_sum (ba_BV A) (ba_V A) i_v
           (\<lambda>c. la_dv ?sa (cell (ba_H A) (ba_V A) (bbos A (i_nh div ba_H A) + t) (i_nh mod ba_H A) c) *
                 rHb A i_nh t i c)
      = block_sum (ba_BV A) (ba_V A) i_v (\<lambda>c. rHb A i_nh t i c * rdv A i_nh t c)"
    by (rule block_sum_cong) (simp add: dv_a_own[OF sta hh t])
  also have "la_dk ?sa (cell (ba_H A) (ba_K A) (i_v * ball A (i_nh div ba_H A) + bbos A (i_nh div ba_H A) + t)
            (i_nh mod ba_H A) i)
      = block_sum (ba_BV A) (ba_V A) i_v
           (\<lambda>c. rGacc A i_nh t i c *
                  (wd A (bbos A (i_nh div ba_H A)) (i_nh mod ba_H A) t c *
                   wb A (bbos A (i_nh div ba_H A)) (i_nh mod ba_H A) t c))"
    by (rule dk_a_own[OF sta hh t i])
  finally show ?thesis unfolding block_sum_diff .
qed

lemma fold_cell_e:
  assumes run: "fold (\<lambda>p r. ebind r (f p)) ps (Inr M) = Inr M'"
    and own: "\<And>M M1. p0 \<in> set ps \<Longrightarrow> f p0 M = Inr M1 \<Longrightarrow> get M1 = w"
    and frame: "\<And>p M M1. p \<in> set ps \<Longrightarrow> p \<noteq> p0 \<Longrightarrow> f p M = Inr M1 \<Longrightarrow> get M1 = get M"
  shows "get M' = (if p0 \<in> set ps then w else get M)"
  using assms
proof (induction ps arbitrary: M)
  case Nil
  then show ?case by simp
next
  case (Cons p ps)
  show ?case
  proof (cases "f p M")
    case (Inl e)
    then show ?thesis using Cons.prems(1) by (simp add: ebind_Inl ebind_Inr fold_ebind_Inl)
  next
    case (Inr M1)
    then have r: "fold (\<lambda>p r. ebind r (f p)) ps (Inr M1) = Inr M'"
      using Cons.prems(1) by (simp add: ebind_Inr)
    have IH: "get M' = (if p0 \<in> set ps then w else get M1)"
    proof (rule Cons.IH[OF r])
      fix Ma Mb assume "p0 \<in> set ps" "f p0 Ma = Inr Mb"
      then show "get Mb = w" using Cons.prems(2)[of Ma Mb] by simp
    next
      fix q Ma Mb assume "q \<in> set ps" "q \<noteq> p0" "f q Ma = Inr Mb"
      then show "get Mb = get Ma" using Cons.prems(3)[of q Ma Mb] by simp
    qed
    show ?thesis
    proof (cases "p0 \<in> set ps")
      case True
      then show ?thesis using IH by simp
    next
      case False
      show ?thesis
      proof (cases "p = p0")
        case True
        then show ?thesis using IH False Cons.prems(2)[of M M1] Inr by simp
      next
        case ne: False
        then show ?thesis using IH False Cons.prems(3)[of p M M1] Inr by auto
      qed
    qed
  qed
qed

lemma launch_e_cell:
  assumes run: "launch_e (NV, 1, NH) kern M = Inr M'"
    and p0: "i_v < NV" "nh < NH"
    and own: "\<And>M M1. kern (i_v, 0, nh) M = Inr M1 \<Longrightarrow> get M1 = w"
    and frame: "\<And>i_v' nh' M M1. i_v' < NV \<Longrightarrow> nh' < NH \<Longrightarrow> (i_v', nh') \<noteq> (i_v, nh) \<Longrightarrow>
                  kern (i_v', 0, nh') M = Inr M1 \<Longrightarrow> get M1 = get M"
  shows "get M' = w"
proof -
  let ?ps = "programs (NV, 1, NH)"
  have mem: "(i_v, 0, nh) \<in> set ?ps" using p0 by (simp add: set_programs)
  have "get M' = (if (i_v, 0, nh) \<in> set ?ps then w else get M)"
  proof (rule fold_cell_e[where f = kern and ps = ?ps and M = M])
    show "fold (\<lambda>p r. ebind r (kern p)) ?ps (Inr M) = Inr M'" using run by (simp add: launch_e_def)
  next
    fix M M1 assume "kern (i_v, 0, nh) M = Inr M1"
    then show "get M1 = w" by (rule own)
  next
    fix p M M1 assume a: "p \<in> set ?ps" "p \<noteq> (i_v, 0, nh)" "kern p M = Inr M1"
    obtain i_v' nh' where p: "p = (i_v', 0, nh')" "i_v' < NV" "nh' < NH"
      by (cases p) (use a(1) in \<open>auto simp: set_programs\<close>)
    show "get M1 = get M"
      by (rule frame[OF p(2,3)]) (use a p in auto)
  qed
  then show ?thesis using mem by simp
qed

lemma launch_e_frame:
  assumes run: "launch_e (NV, 1, NH) kern M = Inr M'"
    and frame: "\<And>i_v' nh' M M1. i_v' < NV \<Longrightarrow> nh' < NH \<Longrightarrow>
                  kern (i_v', 0, nh') M = Inr M1 \<Longrightarrow> get M1 = get M"
  shows "get M' = get M"
proof -
  let ?ps = "programs (NV, 1, NH)"
  have nmem: "(NV, 0, 0) \<notin> set ?ps" by (simp add: set_programs)
  have "get M' = (if (NV, 0, 0) \<in> set ?ps then get M else get M)"
  proof (rule fold_cell_e[where f = kern and ps = ?ps and M = M])
    show "fold (\<lambda>p r. ebind r (kern p)) ?ps (Inr M) = Inr M'" using run by (simp add: launch_e_def)
  next
    fix M M1 assume "(NV, 0, 0) \<in> set ?ps"
    then show "get M1 = get M" using nmem by simp
  next
    fix p M M1 assume a: "p \<in> set ?ps" "p \<noteq> (NV, 0, 0)" "kern p M = Inr M1"
    obtain i_v' nh' where p: "p = (i_v', 0, nh')" "i_v' < NV" "nh' < NH"
      by (cases p) (use a(1) in \<open>auto simp: set_programs\<close>)
    show "get M1 = get M"
      by (rule frame[OF p(2,3)]) (use a p in auto)
  qed
  then show ?thesis by simp
qed

lemma seq_all_eq: "seqs_fit cu B T \<Longrightarrow> seq_all cu B T n = B * T"
  by (cases cu) (simp_all add: seq_all_def seq_bounds_def seqs_fit_def)

lemma row_fit:
  assumes ok: "seqs_ok cu" and fit: "seqs_fit cu B T" and n: "n < seq_count cu B"
    and t: "t < seq_len cu B T n"
  shows "seq_bos cu B T n + t < B * T"
proof (cases cu)
  case None
  then have tt: "t < T" and b: "seq_bos cu B T n = n * T" and nb: "n < B"
    using t n by (simp_all add: seq_len_def seq_bos_def seq_bounds_def seq_count_def)
  have "n * T + t < (n + 1) * T" using tt by simp
  also have "\<dots> \<le> B * T" using nb by (intro mult_le_mono1) simp
  finally show ?thesis using b by simp
next
  case (Some c)
  then have nn: "n + 1 < length c" and B: "B = 1" and le: "c ! (n + 1) \<le> T"
    using n fit by (simp_all add: seq_count_def seqs_fit_def list_all_length)
  have "c ! n + t < c ! (n + 1)" using t Some by (simp add: seq_len_def seq_bounds_def)
  then show ?thesis using le B Some by (simp add: seq_bos_def seq_bounds_def)
qed

lemma slice_inj:
  fixes s s' r r' al :: nat
  assumes "r < al" "r' < al" "s * al + r = s' * al + r'"
  shows "s = s' \<and> r = r'"
proof -
  have "s = (s * al + r) div al" using assms(1) by simp
  also have "\<dots> = (s' * al + r') div al" by (simp only: assms(3))
  also have "\<dots> = s'" using assms(2) by simp
  finally have "s = s'" .
  then show ?thesis using assms(3) by simp
qed

lemma cells_disjoint:
  assumes ok: "seqs_ok cu" and n: "n < seq_count cu B" and h: "h < H"
    and t: "t < seq_len cu B T n" and c: "c < V"
    and p: "i_nh' < seq_count cu B * H" "(i_v', i_nh') \<noteq> (c div BV, n * H + h)"
    and t': "t' < seq_len cu B T (i_nh' div H)" and j': "j' < BV" "i_v' * BV + j' < V"
  shows "cell H V (seq_bos cu B T n + t) h c \<noteq>
         cell H V (seq_bos cu B T (i_nh' div H) + t') (i_nh' mod H) (i_v' * BV + j')"
proof
  assume e: "cell H V (seq_bos cu B T n + t) h c =
         cell H V (seq_bos cu B T (i_nh' div H) + t') (i_nh' mod H) (i_v' * BV + j')"
  have h': "i_nh' mod H < H" using h by simp
  have n': "i_nh' div H < seq_count cu B"
    using p(1) h by (simp add: less_mult_imp_div_less)
  from cell_inj[OF h h' c j'(2) e]
  have r: "seq_bos cu B T n + t = seq_bos cu B T (i_nh' div H) + t'" and hh: "h = i_nh' mod H"
    and cc: "c = i_v' * BV + j'"
    by simp_all
  have "n = i_nh' div H" by (rule seq_disjoint[OF ok n n' t t' r])
  then have "i_nh' = n * H + h" using hh by simp
  moreover have "c div BV = i_v'" using cc j'(1) by simp
  ultimately show False using p(2) by simp
qed

lemma slices_disjoint:
  assumes ok: "seqs_ok cu" and fit: "seqs_fit cu B T" and n: "n < seq_count cu B" and h: "h < H"
    and t: "t < seq_len cu B T n" and i: "i < K"
    and p: "i_nh' < seq_count cu B * H" "(i_v', i_nh') \<noteq> (s, n * H + h)"
    and t': "t' < seq_len cu B T (i_nh' div H)" and i': "i' < K"
  shows "cell H K (s * (B * T) + seq_bos cu B T n + t) h i \<noteq>
         cell H K (i_v' * (B * T) + seq_bos cu B T (i_nh' div H) + t') (i_nh' mod H) i'"
proof
  assume e: "cell H K (s * (B * T) + seq_bos cu B T n + t) h i =
         cell H K (i_v' * (B * T) + seq_bos cu B T (i_nh' div H) + t') (i_nh' mod H) i'"
  have h': "i_nh' mod H < H" using h by simp
  have n': "i_nh' div H < seq_count cu B"
    using p(1) h by (simp add: less_mult_imp_div_less)
  from cell_inj[OF h h' i i' e]
  have r: "s * (B * T) + (seq_bos cu B T n + t) = i_v' * (B * T) + (seq_bos cu B T (i_nh' div H) + t')"
    and hh: "h = i_nh' mod H"
    by simp_all
  from slice_inj[OF row_fit[OF ok fit n t] row_fit[OF ok fit n' t'] r]
  have ss: "s = i_v'" and rr: "seq_bos cu B T n + t = seq_bos cu B T (i_nh' div H) + t'" by simp_all
  have "n = i_nh' div H" by (rule seq_disjoint[OF ok n n' t t' rr])
  then have "i_nh' = n * H + h" using hh by simp
  then show False using p(2) ss by simp
qed

lemma l_dv:
  assumes kb: "ba_K A \<le> ba_BK A" and nk: "ba_NK A = 1" and bv: "0 < ba_BV A"
    and ok: "seqs_ok (ba_cu_seqlens A)"
    and run: "launch_e (NV, 1, bcount A * ba_H A) (fused_recurrent_delta_rule_bwd_kernel exact A) M = Inr M'"
    and n: "n < bcount A" and h: "h < ba_H A" and t: "t < blen A n" and c: "c < ba_V A"
    and nv: "c div ba_BV A < NV"
  shows "bm_dv M' (cell (ba_H A) (ba_V A) (bbos A n + t) h c) = udv A n h t c"
proof (rule launch_e_cell[OF run nv unit_less[OF n h], where get = "\<lambda>M. bm_dv M (cell (ba_H A) (ba_V A) (bbos A n + t) h c)"])
  fix Ma Mb assume k: "fused_recurrent_delta_rule_bwd_kernel exact A (c div ba_BV A, 0, n * ba_H A + h) Ma = Inr Mb"
  have hp: "0 < ba_H A" using h by simp
  show "bm_dv Mb (cell (ba_H A) (ba_V A) (bbos A n + t) h c) = udv A n h t c"
    using k_dv_own[OF kb nk hp k, of t "c mod ba_BV A"] t c bv h by simp
next
  fix i_v' nh' Ma Mb
  assume a: "i_v' < NV" "nh' < bcount A * ba_H A" "(i_v', nh') \<noteq> (c div ba_BV A, n * ba_H A + h)"
    "fused_recurrent_delta_rule_bwd_kernel exact A (i_v', 0, nh') Ma = Inr Mb"
  show "bm_dv Mb (cell (ba_H A) (ba_V A) (bbos A n + t) h c) = bm_dv Ma (cell (ba_H A) (ba_V A) (bbos A n + t) h c)"
    by (rule k_dv_frame[OF kb nk a(4)]) (rule cells_disjoint[OF ok n h t c a(2,3)])
qed

lemma l_dq:
  assumes kb: "ba_K A \<le> ba_BK A"
    and ok: "seqs_ok (ba_cu_seqlens A)" and fit: "seqs_fit (ba_cu_seqlens A) (ba_B A) (ba_T A)"
    and run: "launch_e (NV, 1, bcount A * ba_H A) (fused_recurrent_delta_rule_bwd_kernel exact A) M = Inr M'"
    and n: "n < bcount A" and h: "h < ba_H A" and t: "t < blen A n" and i: "i < ba_K A"
    and s: "s < NV"
  shows "bm_dq M' (cell (ba_H A) (ba_K A) (s * (ba_B A * ba_T A) + bbos A n + t) h i)
       = block_sum (ba_BV A) (ba_V A) s (\<lambda>c. uHb A n h (Suc t) i c * wdo A (bbos A n) h t c) * ba_scale A"
proof (rule launch_e_cell[OF run s unit_less[OF n h],
      where get = "\<lambda>M. bm_dq M (cell (ba_H A) (ba_K A) (s * (ba_B A * ba_T A) + bbos A n + t) h i)"])
  fix Ma Mb assume k: "fused_recurrent_delta_rule_bwd_kernel exact A (s, 0, n * ba_H A + h) Ma = Inr Mb"
  have hp: "0 < ba_H A" using h by simp
  show "bm_dq Mb (cell (ba_H A) (ba_K A) (s * (ba_B A * ba_T A) + bbos A n + t) h i)
      = block_sum (ba_BV A) (ba_V A) s (\<lambda>c. uHb A n h (Suc t) i c * wdo A (bbos A n) h t c) * ba_scale A"
    using k_dq_own[OF kb hp k, of t i] t i h by (simp add: seq_all_eq[OF fit])
next
  fix i_v' nh' Ma Mb
  assume a: "i_v' < NV" "nh' < bcount A * ba_H A" "(i_v', nh') \<noteq> (s, n * ba_H A + h)"
    "fused_recurrent_delta_rule_bwd_kernel exact A (i_v', 0, nh') Ma = Inr Mb"
  show "bm_dq Mb (cell (ba_H A) (ba_K A) (s * (ba_B A * ba_T A) + bbos A n + t) h i)
      = bm_dq Ma (cell (ba_H A) (ba_K A) (s * (ba_B A * ba_T A) + bbos A n + t) h i)"
    by (rule k_dq_frame[OF kb a(4)]) (simp only: seq_all_eq[OF fit], rule slices_disjoint[OF ok fit n h t i a(2,3)])
qed

lemma l_dk:
  assumes kb: "ba_K A \<le> ba_BK A" and nk: "ba_NK A = 1"
    and ok: "seqs_ok (ba_cu_seqlens A)" and fit: "seqs_fit (ba_cu_seqlens A) (ba_B A) (ba_T A)"
    and run: "launch_e (NV, 1, bcount A * ba_H A) (fused_recurrent_delta_rule_bwd_kernel exact A) M = Inr M'"
    and n: "n < bcount A" and h: "h < ba_H A" and t: "t < blen A n" and i: "i < ba_K A"
    and s: "s < NV"
  shows "bm_dk M' (cell (ba_H A) (ba_K A) (s * (ba_B A * ba_T A) + bbos A n + t) h i)
       = block_sum (ba_BV A) (ba_V A) s
           (\<lambda>c. uGacc A n h t i c * (wd A (bbos A n) h t c * wb A (bbos A n) h t c) -
                uHb A n h t i c * udv A n h t c)"
proof (rule launch_e_cell[OF run s unit_less[OF n h],
      where get = "\<lambda>M. bm_dk M (cell (ba_H A) (ba_K A) (s * (ba_B A * ba_T A) + bbos A n + t) h i)"])
  fix Ma Mb assume k: "fused_recurrent_delta_rule_bwd_kernel exact A (s, 0, n * ba_H A + h) Ma = Inr Mb"
  have hp: "0 < ba_H A" using h by simp
  show "bm_dk Mb (cell (ba_H A) (ba_K A) (s * (ba_B A * ba_T A) + bbos A n + t) h i)
      = block_sum (ba_BV A) (ba_V A) s
           (\<lambda>c. uGacc A n h t i c * (wd A (bbos A n) h t c * wb A (bbos A n) h t c) -
                uHb A n h t i c * udv A n h t c)"
    using k_dk_own[OF kb nk hp k, of t i] t i h by (simp add: seq_all_eq[OF fit])
next
  fix i_v' nh' Ma Mb
  assume a: "i_v' < NV" "nh' < bcount A * ba_H A" "(i_v', nh') \<noteq> (s, n * ba_H A + h)"
    "fused_recurrent_delta_rule_bwd_kernel exact A (i_v', 0, nh') Ma = Inr Mb"
  show "bm_dk Mb (cell (ba_H A) (ba_K A) (s * (ba_B A * ba_T A) + bbos A n + t) h i)
      = bm_dk Ma (cell (ba_H A) (ba_K A) (s * (ba_B A * ba_T A) + bbos A n + t) h i)"
    by (rule k_dk_frame[OF kb nk a(4)]) (simp only: seq_all_eq[OF fit], rule slices_disjoint[OF ok fit n h t i a(2,3)])
qed

lemma l_dbs:
  assumes kb: "ba_K A \<le> ba_BK A" and nk: "ba_NK A = 1" and hw: "\<not> ba_IS_BETA_HEADWISE A"
    and ok: "seqs_ok (ba_cu_seqlens A)" and fit: "seqs_fit (ba_cu_seqlens A) (ba_B A) (ba_T A)"
    and run: "launch_e (NV, 1, bcount A * ba_H A) (fused_recurrent_delta_rule_bwd_kernel exact A) M = Inr M'"
    and n: "n < bcount A" and h: "h < ba_H A" and t: "t < blen A n"
    and s: "s < NV"
  shows "bm_db M' ((s * (ba_B A * ba_T A) + bbos A n + t) * ba_H A + h)
       = block_sum (ba_BV A) (ba_V A) s (udbeta A n h t)"
proof (rule launch_e_cell[OF run s unit_less[OF n h],
      where get = "\<lambda>M. bm_db M ((s * (ba_B A * ba_T A) + bbos A n + t) * ba_H A + h)"])
  fix Ma Mb assume k: "fused_recurrent_delta_rule_bwd_kernel exact A (s, 0, n * ba_H A + h) Ma = Inr Mb"
  have hp: "0 < ba_H A" using h by simp
  show "bm_db Mb ((s * (ba_B A * ba_T A) + bbos A n + t) * ba_H A + h)
      = block_sum (ba_BV A) (ba_V A) s (udbeta A n h t)"
    using k_dbs_own[OF kb nk hp hw k, of t] t h by (simp add: seq_all_eq[OF fit])
next
  fix i_v' nh' Ma Mb
  assume a: "i_v' < NV" "nh' < bcount A * ba_H A" "(i_v', nh') \<noteq> (s, n * ba_H A + h)"
    "fused_recurrent_delta_rule_bwd_kernel exact A (i_v', 0, nh') Ma = Inr Mb"
  show "bm_db Mb ((s * (ba_B A * ba_T A) + bbos A n + t) * ba_H A + h)
      = bm_db Ma ((s * (ba_B A * ba_T A) + bbos A n + t) * ba_H A + h)"
  proof (rule k_dbs_frame[OF kb nk hw a(4)])
    fix t' assume t': "t' < blen A (nh' div ba_H A)"
    have "cell (ba_H A) 1 (s * (ba_B A * ba_T A) + bbos A n + t) h 0 \<noteq>
         cell (ba_H A) 1 (i_v' * (ba_B A * ba_T A) + bbos A (nh' div ba_H A) + t') (nh' mod ba_H A) 0"
      by (rule slices_disjoint[OF ok fit n h t _ a(2,3) t']) simp_all
    then show "(s * (ba_B A * ba_T A) + bbos A n + t) * ba_H A + h \<noteq>
        (i_v' * ball A (nh' div ba_H A) + bbos A (nh' div ba_H A) + t') * ba_H A + nh' mod ba_H A"
      by (simp add: cell_def seq_all_eq[OF fit])
  qed
qed

lemma l_dbv:
  assumes kb: "ba_K A \<le> ba_BK A" and nk: "ba_NK A = 1" and hw: "ba_IS_BETA_HEADWISE A"
    and ok: "seqs_ok (ba_cu_seqlens A)" and fit: "seqs_fit (ba_cu_seqlens A) (ba_B A) (ba_T A)"
    and run: "launch_e (NV, 1, bcount A * ba_H A) (fused_recurrent_delta_rule_bwd_kernel exact A) M = Inr M'"
    and n: "n < bcount A" and h: "h < ba_H A" and t: "t < blen A n"
    and s: "s < NV" and j: "j < ba_BV A" "s * ba_BV A + j < ba_V A"
  shows "bm_db M' (cell (ba_H A) (ba_V A) (s * (ba_B A * ba_T A) + bbos A n + t) h j)
       = udbeta A n h t (s * ba_BV A + j)"
proof (rule launch_e_cell[OF run s unit_less[OF n h],
      where get = "\<lambda>M. bm_db M (cell (ba_H A) (ba_V A) (s * (ba_B A * ba_T A) + bbos A n + t) h j)"])
  fix Ma Mb assume k: "fused_recurrent_delta_rule_bwd_kernel exact A (s, 0, n * ba_H A + h) Ma = Inr Mb"
  have hp: "0 < ba_H A" using h by simp
  show "bm_db Mb (cell (ba_H A) (ba_V A) (s * (ba_B A * ba_T A) + bbos A n + t) h j)
      = udbeta A n h t (s * ba_BV A + j)"
    using k_dbv_own[OF kb nk hp hw k, of t j] t h j by (simp add: seq_all_eq[OF fit])
next
  fix i_v' nh' Ma Mb
  assume a: "i_v' < NV" "nh' < bcount A * ba_H A" "(i_v', nh') \<noteq> (s, n * ba_H A + h)"
    "fused_recurrent_delta_rule_bwd_kernel exact A (i_v', 0, nh') Ma = Inr Mb"
  have jv: "j < ba_V A" using j(2) by simp
  show "bm_db Mb (cell (ba_H A) (ba_V A) (s * (ba_B A * ba_T A) + bbos A n + t) h j)
      = bm_db Ma (cell (ba_H A) (ba_V A) (s * (ba_B A * ba_T A) + bbos A n + t) h j)"
  proof (rule k_dbv_frame[OF kb nk hw a(4)])
    fix t' j' assume t': "t' < blen A (nh' div ba_H A)" and j': "j' < ba_BV A" "i_v' * ba_BV A + j' < ba_V A"
    have jv': "j' < ba_V A" using j'(2) by simp
    show "cell (ba_H A) (ba_V A) (s * (ba_B A * ba_T A) + bbos A n + t) h j \<noteq>
         cell (ba_H A) (ba_V A) (i_v' * ball A (nh' div ba_H A) + bbos A (nh' div ba_H A) + t') (nh' mod ba_H A) j'"
      unfolding seq_all_eq[OF fit]
      by (rule slices_disjoint[OF ok fit n h t jv a(2,3) t' jv'])
  qed
qed

lemma l_dbv_unwritten:
  assumes kb: "ba_K A \<le> ba_BK A" and nk: "ba_NK A = 1" and hw: "ba_IS_BETA_HEADWISE A"
    and run: "launch_e (NV, 1, NH) (fused_recurrent_delta_rule_bwd_kernel exact A) M = Inr M'"
    and h: "h < ba_H A" and c: "ba_BV A \<le> c" "c < ba_V A"
  shows "bm_db M' (cell (ba_H A) (ba_V A) r h c) = bm_db M (cell (ba_H A) (ba_V A) r h c)"
proof (rule launch_e_frame[OF run, where get = "\<lambda>M. bm_db M (cell (ba_H A) (ba_V A) r h c)"])
  fix i_v' nh' Ma Mb
  assume a: "i_v' < NV" "nh' < NH" "fused_recurrent_delta_rule_bwd_kernel exact A (i_v', 0, nh') Ma = Inr Mb"
  show "bm_db Mb (cell (ba_H A) (ba_V A) r h c) = bm_db Ma (cell (ba_H A) (ba_V A) r h c)"
  proof (rule k_dbv_frame[OF kb nk hw a(3)])
    fix t' j' assume j': "j' < ba_BV A" "i_v' * ba_BV A + j' < ba_V A"
    have jv': "j' < ba_V A" using j'(2) by simp
    have h': "nh' mod ba_H A < ba_H A" using h by simp
    show "cell (ba_H A) (ba_V A) r h c \<noteq>
         cell (ba_H A) (ba_V A) (i_v' * ball A (nh' div ba_H A) + bbos A (nh' div ba_H A) + t') (nh' mod ba_H A) j'"
      using cell_inj[OF h h' c(2) jv'] c(1) j'(1) by fastforce
  qed
qed

lemma k_dh0_own:
  assumes kb: "ba_K A \<le> ba_BK A" and nk: "ba_NK A = 1"
    and ok: "fused_recurrent_delta_rule_bwd_kernel exact A (i_v, 0, i_nh) M = Inr M1"
    and h0: "ba_h0 A \<noteq> None"
    and i: "i < ba_K A" and j: "j < ba_BV A" "i_v * ba_BV A + j < ba_V A"
  shows "map_option (\<lambda>d. d (cell (ba_K A) (ba_V A) i_nh i (i_v * ba_BV A + j))) (bm_dh0 M1)
       = Some (rG A i_nh (blen A (i_nh div ba_H A)) i (i_v * ba_BV A + j))"
proof -
  obtain hb where hb: "ba_h0 A = Some hb" using h0 by auto
  obtain d0 where d0: "bm_dh0 M = Some d0"
    using ok bwd_kernel_cases[of A "(i_v, 0, i_nh)" M] h0 by (cases "bm_dh0 M") auto
  have ib: "i < ba_BK A" using i kb by simp
  have inj: "i' = i \<and> j' = j"
    if "i' < ba_K A" "i_v * ba_BV A + j' < ba_V A"
      "cell (ba_K A) (ba_V A) i_nh i' (i_v * ba_BV A + j') = cell (ba_K A) (ba_V A) i_nh i (i_v * ba_BV A + j)"
    for i' j'
    using cell_inj[OF that(1) i that(2) j(2) that(3)] by simp
  have st: "store_state d0 (\<lambda>i j. cell (ba_K A) (ba_V A) i_nh i (i_v * ba_BV A + j))
                 (ba_BK A) (ba_BV A) (\<lambda>i. i < ba_K A) (\<lambda>j. i_v * ba_BV A + j < ba_V A) val
                 (cell (ba_K A) (ba_V A) i_nh i (i_v * ba_BV A + j)) = val i j" for val
    by (rule store_state_same[where mk = "\<lambda>i. i < ba_K A" and mv = "\<lambda>j. i_v * ba_BV A + j < ba_V A"
          and addr = "\<lambda>i j. cell (ba_K A) (ba_V A) i_nh i (i_v * ba_BV A + j)", OF ib j(1) i j(2)])
       (rule inj)
  have "bm_dh0 M1 = Some (store_state d0 (\<lambda>i j. cell (ba_K A) (ba_V A) i_nh i (i_v * ba_BV A + j))
                 (ba_BK A) (ba_BV A) (\<lambda>i. i < ba_K A) (\<lambda>j. i_v * ba_BV A + j < ba_V A)
                 (la_b_dh (bwd_run_a A i_v (blen A (i_nh div ba_H A)) (bwd_init_a A i_v i_nh M))))"
    using ok unfolding bwd_kernel_unfold[OF kb] Let_def hb d0 by (auto simp: ebind_Inr)
  then show ?thesis
    using i j by (simp add: st bdh_run[OF bwd_init_a_start[OF kb nk]])
qed

lemma k_dh0_frame:
  assumes kb: "ba_K A \<le> ba_BK A"
    and ok: "fused_recurrent_delta_rule_bwd_kernel exact A (i_v, 0, i_nh) M = Inr M1"
    and nw: "\<And>i j. i < ba_K A \<Longrightarrow> j < ba_BV A \<Longrightarrow> i_v * ba_BV A + j < ba_V A \<Longrightarrow>
               a \<noteq> cell (ba_K A) (ba_V A) i_nh i (i_v * ba_BV A + j)"
  shows "map_option (\<lambda>d. d a) (bm_dh0 M1) = map_option (\<lambda>d. d a) (bm_dh0 M)"
proof -
  have st: "store_state d0 (\<lambda>i j. cell (ba_K A) (ba_V A) i_nh i (i_v * ba_BV A + j))
                 (ba_BK A) (ba_BV A) (\<lambda>i. i < ba_K A) (\<lambda>j. i_v * ba_BV A + j < ba_V A) val a = d0 a" for val d0
    by (rule store_state_other) (use nw in auto)
  show ?thesis
    using ok unfolding bwd_kernel_unfold[OF kb] Let_def
    by (cases "ba_h0 A"; cases "bm_dh0 M") (auto simp: ebind_Inr ebind_Inl st)
qed

lemma l_dh0:
  assumes kb: "ba_K A \<le> ba_BK A" and nk: "ba_NK A = 1" and bv: "0 < ba_BV A"
    and run: "launch_e (NV, 1, NH) (fused_recurrent_delta_rule_bwd_kernel exact A) M = Inr M'"
    and h0: "ba_h0 A \<noteq> None"
    and nh: "nh < NH" and i: "i < ba_K A" and c: "c < ba_V A" and nv: "c div ba_BV A < NV"
  shows "map_option (\<lambda>d. d (cell (ba_K A) (ba_V A) nh i c)) (bm_dh0 M')
       = Some (rG A nh (blen A (nh div ba_H A)) i c)"
proof (rule launch_e_cell[OF run nv nh,
      where get = "\<lambda>M. map_option (\<lambda>d. d (cell (ba_K A) (ba_V A) nh i c)) (bm_dh0 M)"])
  fix Ma Mb assume k: "fused_recurrent_delta_rule_bwd_kernel exact A (c div ba_BV A, 0, nh) Ma = Inr Mb"
  show "map_option (\<lambda>d. d (cell (ba_K A) (ba_V A) nh i c)) (bm_dh0 Mb)
      = Some (rG A nh (blen A (nh div ba_H A)) i c)"
    using k_dh0_own[OF kb nk k h0 i, of "c mod ba_BV A"] c bv by simp
next
  fix i_v' nh' Ma Mb
  assume a: "i_v' < NV" "nh' < NH" "(i_v', nh') \<noteq> (c div ba_BV A, nh)"
    "fused_recurrent_delta_rule_bwd_kernel exact A (i_v', 0, nh') Ma = Inr Mb"
  show "map_option (\<lambda>d. d (cell (ba_K A) (ba_V A) nh i c)) (bm_dh0 Mb)
      = map_option (\<lambda>d. d (cell (ba_K A) (ba_V A) nh i c)) (bm_dh0 Ma)"
  proof (rule k_dh0_frame[OF kb a(4)])
    fix i' j' assume b: "i' < ba_K A" "j' < ba_BV A" "i_v' * ba_BV A + j' < ba_V A"
    show "cell (ba_K A) (ba_V A) nh i c \<noteq> cell (ba_K A) (ba_V A) nh' i' (i_v' * ba_BV A + j')"
    proof
      assume e: "cell (ba_K A) (ba_V A) nh i c = cell (ba_K A) (ba_V A) nh' i' (i_v' * ba_BV A + j')"
      from cell_inj[OF i b(1) c b(3) e] have "nh = nh'" "c = i_v' * ba_BV A + j'" by simp_all
      then show False using a(3) b(2) by simp
    qed
  qed
qed

lemma sum_blocks:
  fixes f :: "nat \<Rightarrow> real"
  assumes bv: "0 < BV"
  shows "(\<Sum>s<(V + BV - 1) div BV. block_sum BV V s f) = (\<Sum>c<V. f c)"
proof -
  define NV where "NV = (V + BV - 1) div BV"
  define g where "g = (\<lambda>c. if c < V then f c else 0)"
  have cover: "V \<le> NV * BV"
  proof -
    have "V + BV - 1 < (V + BV - 1) div BV * BV + BV"
      using bv div_mult_mod_eq[of "V + BV - 1" BV] mod_less_divisor[OF bv, of "V + BV - 1"] by linarith
    then show ?thesis unfolding NV_def using bv by simp
  qed
  have b: "block_sum BV V s f = sum g {s * BV..<s * BV + BV}" for s
  proof -
    have "sum g {s * BV..<s * BV + BV} = (\<Sum>j<BV. g (s * BV + j))"
      using sum.shift_bounds_nat_ivl[of g 0 "s * BV" BV] by (simp add: atLeast0LessThan add.commute)
    then show ?thesis by (simp add: block_sum_def g_def)
  qed
  have "(\<Sum>s<NV. block_sum BV V s f) = (\<Sum>s<NV. sum g {s * BV..<s * BV + BV})" by (simp add: b)
  also have "\<dots> = sum g {..<NV * BV}" by (rule sum.nat_group)
  also have "\<dots> = sum g {..<V} + sum g {V..<NV * BV}"
    using sum.atLeastLessThan_concat[of 0 V "NV * BV" g] cover by (simp add: atLeast0LessThan)
  also have "sum g {V..<NV * BV} = 0" by (rule sum.neutral) (simp add: g_def)
  also have "sum g {..<V} = (\<Sum>c<V. f c)" by (rule sum.cong) (simp_all add: g_def)
  finally show ?thesis by (simp add: NV_def)
qed

lemma slice_cell: "s * (B * T * H * K) + cell H K r h i = cell H K (s * (B * T) + r) h i"
  by (simp add: cell_def algebra_simps)

lemma slice_row: "s * (B * T * H) + (r * H + h) = (s * (B * T) + r) * H + (h::nat)"
  by (simp add: algebra_simps)

lemma bwd_launch_args_sel [simp]:
  "ba_q (bwd_launch_args exact q k v beta dht d_o scale h0 cu T B H K V BK BV NK) = data q"
  "ba_k (bwd_launch_args exact q k v beta dht d_o scale h0 cu T B H K V BK BV NK) = data k"
  "ba_v (bwd_launch_args exact q k v beta dht d_o scale h0 cu T B H K V BK BV NK) = data v"
  "ba_beta (bwd_launch_args exact q k v beta dht d_o scale h0 cu T B H K V BK BV NK) = data beta"
  "ba_h0 (bwd_launch_args exact q k v beta dht d_o scale h0 cu T B H K V BK BV NK) = map_option data h0"
  "ba_dht (bwd_launch_args exact q k v beta dht d_o scale h0 cu T B H K V BK BV NK) = map_option data dht"
  "ba_do (bwd_launch_args exact q k v beta dht d_o scale h0 cu T B H K V BK BV NK) = data d_o"
  "ba_cu_seqlens (bwd_launch_args exact q k v beta dht d_o scale h0 cu T B H K V BK BV NK) = cu"
  "ba_scale (bwd_launch_args exact q k v beta dht d_o scale h0 cu T B H K V BK BV NK) = scale"
  "ba_T (bwd_launch_args exact q k v beta dht d_o scale h0 cu T B H K V BK BV NK) = T"
  "ba_B (bwd_launch_args exact q k v beta dht d_o scale h0 cu T B H K V BK BV NK) = B"
  "ba_H (bwd_launch_args exact q k v beta dht d_o scale h0 cu T B H K V BK BV NK) = H"
  "ba_K (bwd_launch_args exact q k v beta dht d_o scale h0 cu T B H K V BK BV NK) = K"
  "ba_V (bwd_launch_args exact q k v beta dht d_o scale h0 cu T B H K V BK BV NK) = V"
  "ba_BK (bwd_launch_args exact q k v beta dht d_o scale h0 cu T B H K V BK BV NK) = BK"
  "ba_BV (bwd_launch_args exact q k v beta dht d_o scale h0 cu T B H K V BK BV NK) = BV"
  "ba_NK (bwd_launch_args exact q k v beta dht d_o scale h0 cu T B H K V BK BV NK) = NK"
  "ba_IS_BETA_HEADWISE (bwd_launch_args exact q k v beta dht d_o scale h0 cu T B H K V BK BV NK)
     = (length (shape beta) = length (shape v))"
  by (simp_all add: bwd_launch_args_def)

lemma bwd_host_run:
  fixes q k v beta d_o :: "real tensor" and scale :: real and h0 dht :: "real tensor option"
    and cu :: "nat list option" and fresh :: "nat \<Rightarrow> real buffer"
  assumes sk: "shape k = [B, T, H, K]" and sv: "shape v \<noteq> []" "last (shape v) = V"
    and K: "0 < K" and V: "0 < V" and ok: "seqs_ok cu"
    and h0c: "h0 = None \<or> (\<exists>x. h0 = Some x \<and> requires_grad x)"
  defines "BK \<equiv> nat (next_power_of_2 (int K))" and "BV \<equiv> min (nat (next_power_of_2 (int V))) 32"
  defines "NV \<equiv> (V + BV - 1) div BV"
  defines "A \<equiv> bwd_launch_args exact q k v beta dht d_o scale h0 cu T B H K V BK BV 1"
  defines "M0 \<equiv> \<lparr>bm_dq = fresh 0, bm_dk = fresh 1, bm_dv = fresh 2, bm_db = fresh 3,
               bm_dh0 = map_option data (alloc_dh0 h0 (fresh 4))\<rparr>"
  shows "\<exists>M'. launch_e (NV, 1, seq_count cu B * H) (fused_recurrent_delta_rule_bwd_kernel exact A) M0 = Inr M' \<and>
     fused_recurrent_delta_rule_bwd exact q k v beta dht d_o scale h0 cu fresh =
       Inr (sum0 exact NV (shape q) (bm_dq M'), sum0 exact NV (shape k) (bm_dk M'), sum0 exact 1 (shape v) (bm_dv M'),
            (if length (shape beta) = length (shape v)
             then sum0 exact (NV * 1) [B, T, H, V] (bm_db M')
             else sum0 exact NV [B, T, H] (bm_db M')),
            (case (alloc_dh0 h0 (fresh 4), bm_dh0 M') of
               (Some t, Some d) \<Rightarrow> Some (t\<lparr>data := d\<rparr>)
             | _ \<Rightarrow> None))"
proof -
  have kb: "K \<le> BK" unfolding BK_def by (rule np2_nat[OF K])
  have bv: "0 < BV" unfolding BV_def using np2_nat[OF V] V by simp
  have c1: "cdiv K BK = Inr 1" by (rule cdiv_one[OF K kb])
  have N: "(case cu of None \<Rightarrow> int B | Some c \<Rightarrow> int (length c) - 1) = int (seq_count cu B)"
    using ok by (cases cu) (auto simp: seqs_ok_def seq_count_def Suc_leI of_nat_diff)
  have pre: "ba_h0 A = None \<or> bm_dh0 M0 \<noteq> None"
    using h0c by (auto simp: A_def M0_def alloc_dh0_def)
  from launch_e_total[OF pre, of "programs (NV, 1, seq_count cu B * H)"]
  obtain M' where m: "launch_e (NV, 1, seq_count cu B * H) (fused_recurrent_delta_rule_bwd_kernel exact A) M0 = Inr M'"
    by (auto simp: launch_e_def)
  have N0: "0 \<le> int (seq_count cu B)" by simp
  have "fused_recurrent_delta_rule_bwd exact q k v beta dht d_o scale h0 cu fresh =
      bwd_blocks exact q k v beta dht d_o scale h0 cu fresh B T H K V (int (seq_count cu B)) BK BV"
    unfolding fused_recurrent_delta_rule_bwd_def sk using sv
    by (simp add: Let_def N BK_def BV_def)
  also have "\<dots> = Inr (sum0 exact NV (shape q) (bm_dq M'), sum0 exact NV (shape k) (bm_dk M'), sum0 exact 1 (shape v) (bm_dv M'),
            (if length (shape beta) = length (shape v)
             then sum0 exact (NV * 1) [B, T, H, V] (bm_db M')
             else sum0 exact NV [B, T, H] (bm_db M')),
            (case (alloc_dh0 h0 (fresh 4), bm_dh0 M') of
               (Some t, Some d) \<Rightarrow> Some (t\<lparr>data := d\<rparr>)
             | _ \<Rightarrow> None))"
    unfolding bwd_blocks_unfold[OF c1 bv] nat_int NV_def[symmetric] A_def[symmetric] M0_def[symmetric] m
    by (simp add: ebind_Inr)
  finally show ?thesis using m by blast
qed

lemma sum0_shape: "shape (sum0 exact n s m) = s"
  by (simp add: sum0_def)

lemma slice_cell_numel: "s * numel [B, T, H, K] + cell H K r h i = cell H K (s * (B * T) + r) h i"
  by (simp add: numel_def cell_def algebra_simps)

lemma slice_row_numel: "s * numel [B, T, H] + (r * H + h) = (s * (B * T) + r) * H + h"
  by (simp add: numel_def algebra_simps)

lemma np2_blocks_one:
  assumes V: "0 < V" and le: "V \<le> 32"
  shows "V \<le> min (nat (next_power_of_2 (int V))) 32"
    and "(V + min (nat (next_power_of_2 (int V))) 32 - 1) div min (nat (next_power_of_2 (int V))) 32 = 1"
proof -
  show a: "V \<le> min (nat (next_power_of_2 (int V))) 32" using np2_nat[OF V] le by simp
  have "cdiv V (min (nat (next_power_of_2 (int V))) 32) = Inr 1" by (rule cdiv_one[OF V a])
  then show "(V + min (nat (next_power_of_2 (int V))) 32 - 1) div min (nat (next_power_of_2 (int V))) 32 = 1"
    by (simp add: cdiv_def split: if_splits)
qed

lemma bwd_host:
  fixes q k v beta d_o :: "real tensor" and scale :: real and h0 dht :: "real tensor option"
    and cu :: "nat list option" and fresh :: "nat \<Rightarrow> real buffer"
  assumes sq: "shape q = [B, T, H, K]" and sk: "shape k = [B, T, H, K]" and sv: "shape v = [B, T, H, V]"
    and K: "0 < K" and V: "0 < V" and ok: "seqs_ok cu" and fit: "seqs_fit cu B T"
    and h0c: "h0 = None \<or> (\<exists>x. h0 = Some x \<and> requires_grad x)"
    and n: "n < seq_count cu B" and h: "h < H"
  defines "bos \<equiv> seq_bos cu B T n" and "L \<equiv> seq_len cu B T n"
  defines "hw \<equiv> (length (shape beta) = length (shape v))"
  defines "qs \<equiv> rows (data q) H K bos h" and "ks \<equiv> rows (data k) H K bos h"
    and "ds \<equiv> rows (data v) H V bos h" and "dos \<equiv> rows (data d_o) H V bos h"
    and "bs \<equiv> beta_rows (data beta) hw H V bos h"
    and "GT \<equiv> state_of (map_option data dht) K V (n * H + h)"
    and "H0 \<equiv> state_of (map_option data h0) K V (n * H + h)"
  shows "\<exists>dq dk dv db dh0.
     fused_recurrent_delta_rule_bwd exact q k v beta dht d_o scale h0 cu fresh = Inr (dq, dk, dv, db, dh0) \<and>
     shape dq = shape q \<and> shape dk = shape k \<and> shape dv = shape v \<and>
     shape db = (if hw then [B, T, H, V] else [B, T, H]) \<and>
     (\<forall>t<L. (\<forall>i<K. data dq (cell H K (bos + t) h i) = spec_dq V scale ks ds dos bs H0 t i \<and>
                    data dk (cell H K (bos + t) h i) = spec_dk K V scale qs ks ds dos bs GT H0 L t i) \<and>
            (\<forall>c<V. data dv (cell H V (bos + t) h c) = spec_dv K scale qs ks dos bs GT L t c) \<and>
            (if hw
             then V \<le> 32 \<longrightarrow>
                  (\<forall>c<V. data db (cell H V (bos + t) h c) = spec_dbeta K scale qs ks ds dos bs GT L t c)
             else data db ((bos + t) * H + h) = spec_dbeta_scalar K V scale qs ks ds dos bs GT L t)) \<and>
     (case h0 of
        None \<Rightarrow> dh0 = None
      | Some x \<Rightarrow> \<exists>g. dh0 = Some g \<and> shape g = shape x \<and>
          (\<forall>i<K. \<forall>c<V. data g (cell K V (n * H + h) i c) = spec_G K scale qs ks dos bs GT L L i c))"
proof -
  define BK where "BK = nat (next_power_of_2 (int K))"
  define BV where "BV = min (nat (next_power_of_2 (int V))) 32"
  define NV where "NV = (V + BV - 1) div BV"
  define A where "A = bwd_launch_args exact q k v beta dht d_o scale h0 cu T B H K V BK BV 1"
  define M0 where "M0 = \<lparr>bm_dq = fresh 0, bm_dk = fresh 1, bm_dv = fresh 2, bm_db = fresh 3,
               bm_dh0 = map_option data (alloc_dh0 h0 (fresh 4))\<rparr>"
  have svn: "shape v \<noteq> []" "last (shape v) = V" using sv by simp_all
  from bwd_host_run[OF sk svn K V ok h0c, where q = q and beta = beta and dht = dht and d_o = d_o and scale = scale and fresh = fresh]
  obtain M' where run: "launch_e (NV, 1, seq_count cu B * H) (fused_recurrent_delta_rule_bwd_kernel exact A) M0 = Inr M'"
    and res: "fused_recurrent_delta_rule_bwd exact q k v beta dht d_o scale h0 cu fresh =
       Inr (sum0 exact NV (shape q) (bm_dq M'), sum0 exact NV (shape k) (bm_dk M'), sum0 exact 1 (shape v) (bm_dv M'),
            (if length (shape beta) = length (shape v)
             then sum0 exact (NV * 1) [B, T, H, V] (bm_db M')
             else sum0 exact NV [B, T, H] (bm_db M')),
            (case (alloc_dh0 h0 (fresh 4), bm_dh0 M') of
               (Some t, Some d) \<Rightarrow> Some (t\<lparr>data := d\<rparr>)
             | _ \<Rightarrow> None))"
    unfolding BK_def BV_def NV_def A_def M0_def by blast
  have kb: "ba_K A \<le> ba_BK A" unfolding A_def BK_def using np2_nat[OF K] by simp
  have nk: "ba_NK A = 1" by (simp add: A_def)
  have bv: "0 < ba_BV A" unfolding A_def BV_def using np2_nat[OF V] V by simp
  have bv': "0 < BV" using bv by (simp add: A_def)
  have ok': "seqs_ok (ba_cu_seqlens A)" using ok by (simp add: A_def)
  have fit': "seqs_fit (ba_cu_seqlens A) (ba_B A) (ba_T A)" using fit by (simp add: A_def)
  have run': "launch_e (NV, 1, bcount A * ba_H A) (fused_recurrent_delta_rule_bwd_kernel exact A) M0 = Inr M'"
    using run by (simp add: A_def)
  have n': "n < bcount A" using n by (simp add: A_def)
  have h': "h < ba_H A" using h by (simp add: A_def)
  have nv: "c div ba_BV A < NV" if "c < V" for c
    unfolding NV_def using cdiv_cover[of "ba_BV A" c V] bv that by (simp add: A_def)
  have sb: "(\<Sum>s<NV. block_sum BV V s f) = (\<Sum>c<V. f c)" for f :: "nat \<Rightarrow> real"
    unfolding NV_def by (rule sum_blocks[OF bv'])
  have dq: "data (sum0 exact NV (shape q) (bm_dq M')) (cell H K (bos + t) h i) = spec_dq V scale ks ds dos bs H0 t i"
    if "t < L" "i < K" for t i
  proof -
    have "bm_dq M' (cell H K (s * (B * T) + bos + t) h i)
        = block_sum BV V s (\<lambda>c. spec_state_b ks ds bs H0 (Suc t) i c * dos t c) * scale" if "s < NV" for s
      using l_dq[OF kb ok' fit' run' n' h', of t i s] that \<open>t < L\<close> \<open>i < K\<close>
      by (simp add: A_def bos_def L_def ks_def ds_def dos_def bs_def hw_def H0_def)
    then have "data (sum0 exact NV (shape q) (bm_dq M')) (cell H K (bos + t) h i)
        = (\<Sum>s<NV. block_sum BV V s (\<lambda>c. spec_state_b ks ds bs H0 (Suc t) i c * dos t c) * scale)"
      by (simp add: sum0_def sq slice_cell_numel add.assoc)
    then show ?thesis by (simp add: sum_distrib_right[symmetric] sb spec_dq_def)
  qed
  have dk: "data (sum0 exact NV (shape k) (bm_dk M')) (cell H K (bos + t) h i) = spec_dk K V scale qs ks ds dos bs GT H0 L t i"
    if "t < L" "i < K" for t i
  proof -
    have "bm_dk M' (cell H K (s * (B * T) + bos + t) h i)
        = block_sum BV V s (\<lambda>c. spec_Gacc K scale qs ks dos bs GT L t i c * (ds t c * bs t c) -
              spec_state_b ks ds bs H0 t i c * spec_dv K scale qs ks dos bs GT L t c)" if "s < NV" for s
      using l_dk[OF kb nk ok' fit' run' n' h', of t i s] that \<open>t < L\<close> \<open>i < K\<close>
      by (simp add: A_def bos_def L_def qs_def ks_def ds_def dos_def bs_def hw_def H0_def GT_def)
    then have "data (sum0 exact NV (shape k) (bm_dk M')) (cell H K (bos + t) h i)
        = (\<Sum>s<NV. block_sum BV V s (\<lambda>c. spec_Gacc K scale qs ks dos bs GT L t i c * (ds t c * bs t c) -
              spec_state_b ks ds bs H0 t i c * spec_dv K scale qs ks dos bs GT L t c))"
      by (simp add: sum0_def sk slice_cell_numel add.assoc)
    then show ?thesis by (simp add: sb spec_dk_def spec_dk_a_def sum_subtractf)
  qed
  have dv: "data (sum0 exact 1 (shape v) (bm_dv M')) (cell H V (bos + t) h c) = spec_dv K scale qs ks dos bs GT L t c"
    if "t < L" "c < V" for t c
    using l_dv[OF kb nk bv ok' run' n' h', of t c] that nv[OF that(2)]
    by (simp add: sum0_def A_def bos_def L_def qs_def ks_def dos_def bs_def hw_def GT_def)
  have dbs: "data (sum0 exact NV [B, T, H] (bm_db M')) ((bos + t) * H + h) = spec_dbeta_scalar K V scale qs ks ds dos bs GT L t"
    if "t < L" "\<not> hw" for t
  proof -
    have hwA: "\<not> ba_IS_BETA_HEADWISE A" using that(2) by (simp add: A_def hw_def)
    have "bm_db M' ((s * (B * T) + bos + t) * H + h)
        = block_sum BV V s (spec_dbeta K scale qs ks ds dos bs GT L t)" if "s < NV" for s
      using l_dbs[OF kb nk hwA ok' fit' run' n' h', of t s] that \<open>t < L\<close>
      by (simp add: A_def bos_def L_def qs_def ks_def ds_def dos_def bs_def hw_def GT_def)
    then have "data (sum0 exact NV [B, T, H] (bm_db M')) ((bos + t) * H + h)
        = (\<Sum>s<NV. block_sum BV V s (spec_dbeta K scale qs ks ds dos bs GT L t))"
      by (simp add: sum0_def slice_row_numel add.assoc)
    then show ?thesis by (simp add: sb spec_dbeta_scalar_def)
  qed
  have dbv: "data (sum0 exact (NV * 1) [B, T, H, V] (bm_db M')) (cell H V (bos + t) h c) = spec_dbeta K scale qs ks ds dos bs GT L t c"
    if "t < L" "hw" "V \<le> 32" "c < V" for t c
  proof -
    have hwA: "ba_IS_BETA_HEADWISE A" using that(2) by (simp add: A_def hw_def)
    have one: "NV = 1" and cb: "c < BV"
      using np2_blocks_one[OF V that(3)] that(4) by (simp_all add: NV_def BV_def)
    have "bm_db M' (cell H V (0 * (B * T) + bos + t) h c) = spec_dbeta K scale qs ks ds dos bs GT L t (0 * BV + c)"
      using l_dbv[OF kb nk hwA ok' fit' run' n' h', of t 0 c] that cb one
      by (simp add: A_def bos_def L_def qs_def ks_def ds_def dos_def bs_def hw_def GT_def)
    then show ?thesis by (simp add: sum0_def one)
  qed
  have nh: "n * H + h < seq_count cu B * H" by (rule unit_less[OF n h])
  have dh: "\<exists>d. bm_dh0 M' = Some d \<and>
      (\<forall>i<K. \<forall>c<V. d (cell K V (n * H + h) i c) = spec_G K scale qs ks dos bs GT L L i c)" if "h0 = Some x" for x
  proof -
    have h0A: "ba_h0 A \<noteq> None" using that by (simp add: A_def)
    have e: "map_option (\<lambda>d. d (cell K V (n * H + h) i c)) (bm_dh0 M')
        = Some (spec_G K scale qs ks dos bs GT L L i c)" if "i < K" "c < V" for i c
      using l_dh0[OF kb nk bv run' h0A, of "n * H + h" i c] that nv[OF that(2)] nh h
      by (simp add: A_def bos_def L_def qs_def ks_def dos_def bs_def hw_def GT_def)
    from e[OF K V] obtain d where d: "bm_dh0 M' = Some d" by auto
    show ?thesis using e d by auto
  qed
  show ?thesis
  proof (cases h0)
    case None
    then show ?thesis
      unfolding res using dq dk dv dbs dbv
      by (simp add: alloc_dh0_def hw_def[symmetric] sum0_shape)
  next
    case (Some x)
    then have rg: "requires_grad x" using h0c by simp
    from dh[OF Some] obtain d where d: "bm_dh0 M' = Some d"
      "\<forall>i<K. \<forall>c<V. d (cell K V (n * H + h) i c) = spec_G K scale qs ks dos bs GT L L i c" by blast
    show ?thesis
      unfolding res using dq dk dv dbs dbv d Some rg
      by (simp add: alloc_dh0_def new_empty_def hw_def[symmetric] sum0_shape)
  qed
qed

lemma l_dbv_other:
  assumes kb: "ba_K A \<le> ba_BK A" and nk: "ba_NK A = 1" and hw: "ba_IS_BETA_HEADWISE A"
    and ok: "seqs_ok (ba_cu_seqlens A)" and fit: "seqs_fit (ba_cu_seqlens A) (ba_B A) (ba_T A)"
    and run: "launch_e (NV, 1, bcount A * ba_H A) (fused_recurrent_delta_rule_bwd_kernel exact A) M = Inr M'"
    and n: "n < bcount A" and h: "h < ba_H A" and t: "t < blen A n"
    and c: "c < ba_V A" "\<not> (c < ba_BV A \<and> s * ba_BV A + c < ba_V A)"
  shows "bm_db M' (cell (ba_H A) (ba_V A) (s * (ba_B A * ba_T A) + bbos A n + t) h c)
       = bm_db M (cell (ba_H A) (ba_V A) (s * (ba_B A * ba_T A) + bbos A n + t) h c)"
proof (rule launch_e_frame[OF run,
      where get = "\<lambda>M. bm_db M (cell (ba_H A) (ba_V A) (s * (ba_B A * ba_T A) + bbos A n + t) h c)"])
  fix i_v' nh' Ma Mb
  assume a: "i_v' < NV" "nh' < bcount A * ba_H A"
    "fused_recurrent_delta_rule_bwd_kernel exact A (i_v', 0, nh') Ma = Inr Mb"
  show "bm_db Mb (cell (ba_H A) (ba_V A) (s * (ba_B A * ba_T A) + bbos A n + t) h c)
      = bm_db Ma (cell (ba_H A) (ba_V A) (s * (ba_B A * ba_T A) + bbos A n + t) h c)"
  proof (rule k_dbv_frame[OF kb nk hw a(3)])
    fix t' j' assume t': "t' < blen A (nh' div ba_H A)" and j': "j' < ba_BV A" "i_v' * ba_BV A + j' < ba_V A"
    have jv': "j' < ba_V A" using j'(2) by simp
    have h': "nh' mod ba_H A < ba_H A" using h by simp
    have n': "nh' div ba_H A < bcount A"
      using a(2) h by (simp add: less_mult_imp_div_less)
    show "cell (ba_H A) (ba_V A) (s * (ba_B A * ba_T A) + bbos A n + t) h c \<noteq>
         cell (ba_H A) (ba_V A) (i_v' * ball A (nh' div ba_H A) + bbos A (nh' div ba_H A) + t') (nh' mod ba_H A) j'"
    proof
      assume e: "cell (ba_H A) (ba_V A) (s * (ba_B A * ba_T A) + bbos A n + t) h c =
         cell (ba_H A) (ba_V A) (i_v' * ball A (nh' div ba_H A) + bbos A (nh' div ba_H A) + t') (nh' mod ba_H A) j'"
      from cell_inj[OF h h' c(1) jv' e]
      have r: "s * (ba_B A * ba_T A) + (bbos A n + t) =
               i_v' * (ba_B A * ba_T A) + (bbos A (nh' div ba_H A) + t')" and cc: "c = j'"
        by (simp_all add: seq_all_eq[OF fit])
      from slice_inj[OF row_fit[OF ok fit n t] row_fit[OF ok fit n' t'] r] have "s = i_v'" by simp
      then show False using c(2) cc j' by simp
    qed
  qed
qed

lemma bwd_host_dbv:
  fixes q k v beta d_o :: "real tensor" and scale :: real and h0 dht :: "real tensor option"
    and cu :: "nat list option" and fresh :: "nat \<Rightarrow> real buffer"
  assumes sk: "shape k = [B, T, H, K]" and sv: "shape v = [B, T, H, V]"
    and hw: "length (shape beta) = length (shape v)"
    and K: "0 < K" and V: "0 < V" and ok: "seqs_ok cu" and fit: "seqs_fit cu B T"
    and h0c: "h0 = None \<or> (\<exists>x. h0 = Some x \<and> requires_grad x)"
    and n: "n < seq_count cu B" and h: "h < H"
  defines "bos \<equiv> seq_bos cu B T n" and "L \<equiv> seq_len cu B T n"
  defines "qs \<equiv> rows (data q) H K bos h" and "ks \<equiv> rows (data k) H K bos h"
    and "ds \<equiv> rows (data v) H V bos h" and "dos \<equiv> rows (data d_o) H V bos h"
    and "bs \<equiv> beta_rows (data beta) True H V bos h"
    and "GT \<equiv> state_of (map_option data dht) K V (n * H + h)"
  defines "BV \<equiv> min (nat (next_power_of_2 (int V))) 32"
  shows "\<exists>dq dk dv db dh0.
     fused_recurrent_delta_rule_bwd exact q k v beta dht d_o scale h0 cu fresh = Inr (dq, dk, dv, db, dh0) \<and>
     (\<forall>t<L. \<forall>c<V. data db (cell H V (bos + t) h c) =
        (\<Sum>s<(V + BV - 1) div BV.
           if c < BV \<and> s * BV + c < V then spec_dbeta K scale qs ks ds dos bs GT L t (s * BV + c)
           else fresh 3 (cell H V (s * (B * T) + bos + t) h c)))"
proof -
  define BK where "BK = nat (next_power_of_2 (int K))"
  define NV where "NV = (V + BV - 1) div BV"
  define A where "A = bwd_launch_args exact q k v beta dht d_o scale h0 cu T B H K V BK BV 1"
  define M0 where "M0 = \<lparr>bm_dq = fresh 0, bm_dk = fresh 1, bm_dv = fresh 2, bm_db = fresh 3,
               bm_dh0 = map_option data (alloc_dh0 h0 (fresh 4))\<rparr>"
  have svn: "shape v \<noteq> []" "last (shape v) = V" using sv by simp_all
  from bwd_host_run[OF sk svn K V ok h0c, where q = q and beta = beta and dht = dht and d_o = d_o
      and scale = scale and fresh = fresh]
  obtain M' where run: "launch_e (NV, 1, seq_count cu B * H) (fused_recurrent_delta_rule_bwd_kernel exact A) M0 = Inr M'"
    and res: "fused_recurrent_delta_rule_bwd exact q k v beta dht d_o scale h0 cu fresh =
       Inr (sum0 exact NV (shape q) (bm_dq M'), sum0 exact NV (shape k) (bm_dk M'), sum0 exact 1 (shape v) (bm_dv M'),
            (if length (shape beta) = length (shape v)
             then sum0 exact (NV * 1) [B, T, H, V] (bm_db M')
             else sum0 exact NV [B, T, H] (bm_db M')),
            (case (alloc_dh0 h0 (fresh 4), bm_dh0 M') of
               (Some t, Some d) \<Rightarrow> Some (t\<lparr>data := d\<rparr>)
             | _ \<Rightarrow> None))"
    unfolding BK_def BV_def NV_def A_def M0_def by blast
  have kb: "ba_K A \<le> ba_BK A" unfolding A_def BK_def using np2_nat[OF K] by simp
  have nk: "ba_NK A = 1" by (simp add: A_def)
  have ok': "seqs_ok (ba_cu_seqlens A)" using ok by (simp add: A_def)
  have fit': "seqs_fit (ba_cu_seqlens A) (ba_B A) (ba_T A)" using fit by (simp add: A_def)
  have run': "launch_e (NV, 1, bcount A * ba_H A) (fused_recurrent_delta_rule_bwd_kernel exact A) M0 = Inr M'"
    using run by (simp add: A_def)
  have n': "n < bcount A" using n by (simp add: A_def)
  have h': "h < ba_H A" using h by (simp add: A_def)
  have hwA: "ba_IS_BETA_HEADWISE A" using hw by (simp add: A_def)
  have cellv: "bm_db M' (cell H V (s * (B * T) + bos + t) h c) =
      (if c < BV \<and> s * BV + c < V then spec_dbeta K scale qs ks ds dos bs GT L t (s * BV + c)
       else fresh 3 (cell H V (s * (B * T) + bos + t) h c))" if "t < L" "c < V" "s < NV" for t c s
  proof (cases "c < BV \<and> s * BV + c < V")
    case True
    then show ?thesis
      using l_dbv[OF kb nk hwA ok' fit' run' n' h', of t s c] that hw
      by (simp add: A_def bos_def L_def qs_def ks_def ds_def dos_def bs_def GT_def)
  next
    case False
    have "bm_db M' (cell H V (s * (B * T) + bos + t) h c) = fresh 3 (cell H V (s * (B * T) + bos + t) h c)"
      using l_dbv_other[OF kb nk hwA ok' fit' run' n' h', of t c s] that False
      by (simp add: A_def bos_def L_def M0_def)
    then show ?thesis using False by auto
  qed
  have "data (sum0 exact (NV * 1) [B, T, H, V] (bm_db M')) (cell H V (bos + t) h c) =
        (\<Sum>s<NV. if c < BV \<and> s * BV + c < V then spec_dbeta K scale qs ks ds dos bs GT L t (s * BV + c)
           else fresh 3 (cell H V (s * (B * T) + bos + t) h c))" if "t < L" "c < V" for t c
    using cellv[OF that] by (simp add: sum0_def slice_cell_numel add.assoc)
  then show ?thesis unfolding res using hw by (simp add: NV_def)
qed

section \<open>The claims\<close>





text \<open>
  Claim C4, as amended.  With \<open>cu_seqlens\<close> given, the operation raises \<open>ValueError\<close>, before
  anything is computed, when the leading dimension of \<open>q\<close> is not 1, or when an initial
  state is given whose leading dimension differs from \<open>len(cu_seqlens) - 1\<close>.  Only \<open>q\<close> is
  inspected: the leading dimensions of \<open>k\<close>, \<open>v\<close> and \<open>beta\<close> are not.
\<close>

theorem batch_of_q_is_checked:
  assumes "cu_seqlens = Some cu" and "shape q = b # rest"
    and "b \<noteq> 1 \<or> (\<exists>h0 n rest'. initial_state = Some h0 \<and> shape h0 = n # rest' \<and> int n \<noteq> int (length cu) - 1)"
  shows "\<exists>msg. check_cu_seqlens q initial_state cu_seqlens = Inl (ValueError msg) \<and>
      fused_recurrent_delta_rule exact l2norm_fwd q k v beta scale initial_state output_final_state
           use_qk_l2norm_in_kernel cu_seqlens fresh = Inl (ValueError msg)"
  using assms by (auto simp: fused_recurrent_delta_rule_def check_cu_seqlens_def ebind_def)

theorem batch_of_q_is_checked_witness:
  "Some [0, 3] = Some [0, 3::nat] \<and> shape example_k2 = 2 # [3, 1, 1] \<and> (2::nat) \<noteq> 1 \<and>
   (\<exists>msg. fused_recurrent_delta_rule exact no_l2norm example_k2 example_k2 example_k2 None None None False False
      (Some [0, 3]) zero_fresh = Inl (ValueError msg))"
proof -
  have s: "shape example_k2 = 2 # [3, 1, 1]" by (simp add: example_k2_def)
  have d: "(2::nat) \<noteq> 1 \<or> (\<exists>h0 n rest'. (None::real tensor option) = Some h0 \<and> shape h0 = n # rest' \<and> int n \<noteq> int (length [0, 3::nat]) - 1)"
    by simp
  from batch_of_q_is_checked[OF refl s d, of no_l2norm example_k2 example_k2 None None False False zero_fresh]
  show ?thesis using s by auto
qed

text \<open>
  Claim C4 as stated fails: keys of batch dimension 2 beside queries of batch dimension 1
  are accepted with \<open>cu_seqlens\<close> given.
\<close>

theorem other_batch_dimensions_unchecked:
  "hd (shape example_k2) \<noteq> 1 \<and>
   \<not> isl (fused_recurrent_delta_rule exact no_l2norm example_qkv example_k2 example_qkv None None None False False
            (Some [0, 3]) zero_fresh)"
  by (simp add: wrapper_eval)

text \<open>
  Claim C5, as amended.  A call with a scale that is given and not positive is rejected
  before anything is computed: with the error of the \<open>cu_seqlens\<close> checks when they fail,
  and with the assertion \<open>scale must be positive\<close> otherwise.  The boundary array itself is
  not validated.
\<close>

theorem nonpositive_scale_rejected:
  assumes "scale = Some s" and "s \<le> 0"
  shows "fused_recurrent_delta_rule exact l2norm_fwd q k v beta scale initial_state output_final_state
           use_qk_l2norm_in_kernel cu_seqlens fresh =
         (case check_cu_seqlens q initial_state cu_seqlens of
            Inl e \<Rightarrow> Inl e
          | Inr _ \<Rightarrow> Inl (AssertionError ''scale must be positive''))"
  using assms by (simp add: fused_recurrent_delta_rule_def default_scale_def ebind_def split: sum.splits)

theorem nonpositive_scale_rejected_witness:
  "Some (- 1) = Some (- 1 :: real) \<and> (- 1 :: real) \<le> 0 \<and>
   fused_recurrent_delta_rule exact no_l2norm example_qkv example_qkv example_qkv None (Some (- 1)) None False False
      None zero_fresh = Inl (AssertionError ''scale must be positive'')"
  using nonpositive_scale_rejected[of "Some (- 1)" "- 1" no_l2norm example_qkv example_qkv example_qkv None None
      False False None zero_fresh]
  by (simp add: check_cu_seqlens_def)

text \<open>
  Claim C5 as stated fails: a boundary array that does not start at 0 and does not end at
  the total length, and one that is not increasing, are accepted.
\<close>

theorem malformed_cu_seqlens_accepted:
  "\<not> isl (fused_recurrent_delta_rule exact no_l2norm example_qkv example_qkv example_qkv None None None False False
            (Some [1, 2]) zero_fresh) \<and>
   \<not> isl (fused_recurrent_delta_rule exact no_l2norm example_qkv example_qkv example_qkv None None None False False
            (Some [0, 3, 1]) zero_fresh)"
  by (simp add: wrapper_eval)

text \<open>
  Claim C8.  Whatever the block sizes, a forward or backward call whose number of key
  blocks \<open>NK = cdiv(K, BK)\<close> is not 1 is rejected with the assertion
  \<open>NK > 1 is not supported yet\<close>; and whenever the forward or the backward function
  returns, so that its kernel has run, the number of key blocks is 1.
\<close>

theorem k_split_not_supported:
  "(0 < BV \<and> cdiv K BK = Inr NK \<and> NK \<noteq> 1 \<longrightarrow>
      fwd_blocks exact q k v beta scale h0 ofs cu fresh B T H K V N BK BV
        = Inl (AssertionError ''NK > 1 is not supported yet'') \<and>
      bwd_blocks exact q k v beta dht d_o scale h0 cu fresh B T H K V N BK BV
        = Inl (AssertionError ''NK > 1 is not supported yet'')) \<and>
   (fwd_blocks exact q k v beta scale h0 ofs cu fresh B T H K V N BK BV = Inr r \<longrightarrow> cdiv K BK = Inr 1) \<and>
   (bwd_blocks exact q k v beta dht d_o scale h0 cu fresh B T H K V N BK BV = Inr r' \<longrightarrow> cdiv K BK = Inr 1) \<and>
   (fused_recurrent_delta_rule_fwd exact q k v beta scale h0 ofs cu fresh = Inr r \<longrightarrow>
      cdiv (last (shape k)) (nat (next_power_of_2 (int (last (shape k))))) = Inr 1) \<and>
   (fused_recurrent_delta_rule_bwd exact q k v beta dht d_o scale h0 cu fresh = Inr r' \<longrightarrow>
      cdiv (last (shape k)) (nat (next_power_of_2 (int (last (shape k))))) = Inr 1)"
proof (intro conjI impI)
  assume a: "fused_recurrent_delta_rule_fwd exact q k v beta scale h0 ofs cu fresh = Inr r"
  show "cdiv (last (shape k)) (nat (next_power_of_2 (int (last (shape k))))) = Inr 1"
  proof (rule host_fwd_blocks[OF a])
    fix B' T' H' K'
    assume s: "shape k = [B', T', H', K']"
      and b: "fwd_blocks exact q k v beta scale h0 ofs cu fresh B' T' H' K' (last (shape v))
       (case cu of None \<Rightarrow> int B' | Some c \<Rightarrow> int (length c) - 1)
       (nat (next_power_of_2 (int K'))) (min (nat (next_power_of_2 (int (last (shape v))))) 8) = Inr r"
    show ?thesis using blocks_run(1)[OF b] by (simp add: s)
  qed
next
  assume a: "fused_recurrent_delta_rule_bwd exact q k v beta dht d_o scale h0 cu fresh = Inr r'"
  show "cdiv (last (shape k)) (nat (next_power_of_2 (int (last (shape k))))) = Inr 1"
  proof (rule host_bwd_blocks[OF a])
    fix B' T' H' K'
    assume s: "shape k = [B', T', H', K']"
      and b: "bwd_blocks exact q k v beta dht d_o scale h0 cu fresh B' T' H' K' (last (shape v))
       (case cu of None \<Rightarrow> int B' | Some c \<Rightarrow> int (length c) - 1)
       (nat (next_power_of_2 (int K'))) (min (nat (next_power_of_2 (int (last (shape v))))) 32) = Inr r'"
    show ?thesis using blocks_run(2)[OF b] by (simp add: s)
  qed
next
  assume "0 < BV \<and> cdiv K BK = Inr NK \<and> NK \<noteq> 1"
  then show "fwd_blocks exact q k v beta scale h0 ofs cu fresh B T H K V N BK BV
        = Inl (AssertionError ''NK > 1 is not supported yet'')"
    using blocks_assert(1) by blast
next
  assume "0 < BV \<and> cdiv K BK = Inr NK \<and> NK \<noteq> 1"
  then show "bwd_blocks exact q k v beta dht d_o scale h0 cu fresh B T H K V N BK BV
        = Inl (AssertionError ''NK > 1 is not supported yet'')"
    using blocks_assert(2) by blast
next
  assume "fwd_blocks exact q k v beta scale h0 ofs cu fresh B T H K V N BK BV = Inr r"
  then show "cdiv K BK = Inr 1" by (rule blocks_run(1))
next
  assume "bwd_blocks exact q k v beta dht d_o scale h0 cu fresh B T H K V N BK BV = Inr r'"
  then show "cdiv K BK = Inr 1" by (rule blocks_run(2))
qed

theorem k_split_not_supported_witness:
  "(0::nat) < 1 \<and> cdiv 4 2 = Inr 2 \<and> (2::nat) \<noteq> 1 \<and>
   fwd_blocks exact example_qkv example_qkv example_qkv example_beta 1 None False None zero_fresh 1 3 1 4 1 1 2 1
     = Inl (AssertionError ''NK > 1 is not supported yet'') \<and>
   bwd_blocks exact example_qkv example_qkv example_qkv example_beta None example_qkv 1 None None zero_fresh 1 3 1 4 1 1 2 1
     = Inl (AssertionError ''NK > 1 is not supported yet'') \<and>
   (\<exists>r. fwd_blocks exact example_qkv example_qkv example_qkv example_beta 1 None False None zero_fresh 1 3 1 1 1 1 1 1
     = Inr r) \<and>
   (\<exists>r. bwd_blocks exact example_qkv example_qkv example_qkv example_beta None example_qkv 1 None None zero_fresh 1 3 1 1 1 1 1 1
     = Inr r) \<and>
   cdiv 1 1 = Inr 1"
proof -
  have c: "cdiv 4 2 = Inr 2" by (simp add: cdiv_def)
  have 1: "fwd_blocks exact example_qkv example_qkv example_qkv example_beta 1 None False None zero_fresh 1 3 1 4 1 1 2 1
     = Inl (AssertionError ''NK > 1 is not supported yet'')"
    and 2: "bwd_blocks exact example_qkv example_qkv example_qkv example_beta None example_qkv 1 None None zero_fresh 1 3 1 4 1 1 2 1
     = Inl (AssertionError ''NK > 1 is not supported yet'')"
    using k_split_not_supported[where BV = 1 and K = 4 and BK = 2 and NK = 2 and q = example_qkv
        and k = example_qkv and v = example_qkv and beta = example_beta and scale = 1 and ?h0.0 = None
        and ofs = False and cu = None and fresh = zero_fresh and B = 1 and T = 3 and H = 1 and V = 1
        and N = 1 and dht = None and d_o = example_qkv] c
    by simp_all
  have c1: "cdiv 1 1 = Inr 1" by (simp add: cdiv_def)
  have "\<exists>dq dk dv db dh0. bwd_blocks exact example_qkv example_qkv example_qkv example_beta None example_qkv 1 None None
      zero_fresh 1 3 1 1 1 1 1 1 = Inr (dq, dk, dv, db, dh0) \<and> (dh0 \<noteq> None \<longleftrightarrow> (None :: real tensor option) \<noteq> None)"
    by (rule bwd_blocks_total) (simp_all add: cdiv_def)
  then obtain r' where 4: "bwd_blocks exact example_qkv example_qkv example_qkv example_beta None example_qkv 1 None None
      zero_fresh 1 3 1 1 1 1 1 1 = Inr r'" by blast
  have "\<exists>r. fwd_blocks exact example_qkv example_qkv example_qkv example_beta 1 None False None zero_fresh 1 3 1 1 1 1 1 1
     = Inr r"
    by (simp add: fwd_blocks_def cdiv_def ebind_def Let_def)
  then obtain r where 3: "fwd_blocks exact example_qkv example_qkv example_qkv example_beta 1 None False None zero_fresh 1 3 1 1 1 1 1 1
     = Inr r" by blast
  have e3: "\<exists>r. fwd_blocks exact example_qkv example_qkv example_qkv example_beta 1 None False None zero_fresh 1 3 1 1 1 1 1 1
     = Inr r" using 3 by (rule exI)
  have e4: "\<exists>r. bwd_blocks exact example_qkv example_qkv example_qkv example_beta None example_qkv 1 None None
      zero_fresh 1 3 1 1 1 1 1 1 = Inr r" using 4 by (rule exI)
  have "cdiv 1 1 = Inr 1"
    using k_split_not_supported[where BV = 1 and K = 1 and BK = 1 and NK = 1 and q = example_qkv
        and k = example_qkv and v = example_qkv and beta = example_beta and scale = 1 and ?h0.0 = None
        and ofs = False and cu = None and fresh = zero_fresh and B = 1 and T = 3 and H = 1 and V = 1
        and N = 1 and dht = None and d_o = example_qkv and r = r and r' = r'] 3 by simp
  then show ?thesis using c 1 2 e3 e4 by (simp del: One_nat_def)
qed

text \<open>
  Claim C10, at the input where the code departs from it.  For an initial state that does
  not require a gradient the host function allocates no gradient buffer, as the claim says;
  but the kernel stores the initial-state gradient whenever an initial state is given, and
  the call fails instead of returning \<open>None\<close> for it.
\<close>

theorem initial_state_without_gradient_fails:
  "requires_grad example_h0 = False \<and> alloc_dh0 (Some example_h0) (zero_fresh 4) = None \<and>
   fused_recurrent_delta_rule_bwd exact example_qkv example_qkv example_qkv example_beta None example_qkv 1
     (Some example_h0) None zero_fresh = Inl TypeError"
proof -
  have "fused_recurrent_delta_rule_bwd exact example_qkv example_qkv example_qkv example_beta None example_qkv 1
     (Some example_h0) None zero_fresh = Inl TypeError"
    by (rule host_bwd_fails[where B = 1 and T = 3 and H = 1 and K = 1 and h = example_h0])
       (simp_all add: example_qkv_def example_h0_def)
  then show ?thesis by (simp add: example_h0_def alloc_dh0_def)
qed
text \<open>
  Claim C2, at an input where the code departs from it.  With one update rate per value
  feature and more than 32 value features the backward kernel runs several programs per
  (sequence, head), one per block of 32 features.  Each of them stores its \<open>dbeta\<close> at the
  columns \<open>0, 1, \<dots>\<close> of its own slice of the uninitialised buffer \<open>db\<close> (line 156 has no
  \<open>i_v * BV\<close>), and the host sums the slices.  For \<open>K = 1\<close>, \<open>V = 33\<close>, one step, all inputs
  \<open>1\<close>: the two-pass reference gives \<open>dbeta = 1\<close> in every column, the code returns \<open>2\<close>
  in column \<open>0\<close> and uninitialised memory in column \<open>32\<close>.
\<close>

theorem vector_dbeta_wrong_beyond_one_block:
  "\<exists>dq dk dv db dh0.
     fused_recurrent_delta_rule_bwd exact example_q1 example_q1 example_v33 example_v33 None example_v33 1
       None None fresh = Inr (dq, dk, dv, db, dh0) \<and>
     data db 0 = 2 \<and> data db 32 = fresh 3 32 + fresh 3 65 \<and>
     spec_dbeta 1 1 (rows (data example_q1) 1 1 0 0) (rows (data example_q1) 1 1 0 0)
       (rows (data example_v33) 1 33 0 0) (rows (data example_v33) 1 33 0 0)
       (beta_rows (data example_v33) True 1 33 0 0) (state_of None 1 33 0) 1 0 0 = 1 \<and>
     spec_dbeta 1 1 (rows (data example_q1) 1 1 0 0) (rows (data example_q1) 1 1 0 0)
       (rows (data example_v33) 1 33 0 0) (rows (data example_v33) 1 33 0 0)
       (beta_rows (data example_v33) True 1 33 0 0) (state_of None 1 33 0) 1 0 32 = 1"
proof -
  have s: "shape example_q1 = [1, 1, 1, 1]" "shape example_v33 = [1, 1, 1, 33]"
    "length (shape example_v33) = length (shape example_v33)"
    by (simp_all add: example_q1_def example_v33_def)
  have o: "seqs_ok None" "seqs_fit None 1 1" "(0::nat) < seq_count None 1"
    by (simp_all add: seqs_ok_def seqs_fit_def seq_count_def)
  have p: "(0::nat) < 1" "(0::nat) < 33" "(None :: real tensor option) = None \<or> (\<exists>x. None = Some x \<and> requires_grad x)"
    by simp_all
  have bv: "min (nat (next_power_of_2 (int 33))) 32 = 32"
    using np2_nat[of 33] by simp
  have sp: "spec_dbeta 1 1 (rows (data example_q1) 1 1 0 0) (rows (data example_q1) 1 1 0 0)
       (rows (data example_v33) 1 33 0 0) (rows (data example_v33) 1 33 0 0)
       (beta_rows (data example_v33) True 1 33 0 0) (state_of None 1 33 0) 1 t c = 1" for t c
    by (simp add: spec_dbeta_def spec_dvp_def spec_Gacc_def rows_def beta_rows_def state_of_def
          example_q1_def example_v33_def)
  have ev: "seq_bos None 1 1 0 = 0" "seq_len None 1 1 0 = 1" "map_option data (None :: real tensor option) = None"
      "0 * 1 + 0 = (0::nat)"
    by (simp_all add: seq_bos_def seq_len_def seq_bounds_def)
  have two: "{..<(2::nat)} = {0, 1}" by auto
  from bwd_host_dbv[where k = example_q1 and q = example_q1 and v = example_v33 and beta = example_v33
      and d_o = example_v33 and dht = None and ?h0.0 = None and scale = 1 and cu = None and fresh = fresh
      and n = 0 and h = 0 and B = 1 and T = 1 and H = 1 and K = 1 and V = 33,
      OF s(1) s(2) s(3) p(1) p(2) o(1) o(2) p(3) o(3) p(1)]
  obtain dq dk dv db dh0 where r: "fused_recurrent_delta_rule_bwd exact example_q1 example_q1 example_v33 example_v33
       None example_v33 1 None None fresh = Inr (dq, dk, dv, db, dh0)"
    and c: "\<forall>t<seq_len None 1 1 0. \<forall>c<33. data db (cell 1 33 (seq_bos None 1 1 0 + t) 0 c) =
        (\<Sum>s<(33 + min (nat (next_power_of_2 (int 33))) 32 - 1) div min (nat (next_power_of_2 (int 33))) 32.
           if c < min (nat (next_power_of_2 (int 33))) 32 \<and> s * min (nat (next_power_of_2 (int 33))) 32 + c < 33
           then spec_dbeta 1 1 (rows (data example_q1) 1 1 (seq_bos None 1 1 0) 0)
                  (rows (data example_q1) 1 1 (seq_bos None 1 1 0) 0)
                  (rows (data example_v33) 1 33 (seq_bos None 1 1 0) 0)
                  (rows (data example_v33) 1 33 (seq_bos None 1 1 0) 0)
                  (beta_rows (data example_v33) True 1 33 (seq_bos None 1 1 0) 0)
                  (state_of (map_option data (None :: real tensor option)) 1 33 (0 * 1 + 0)) (seq_len None 1 1 0) t
                  (s * min (nat (next_power_of_2 (int 33))) 32 + c)
           else fresh 3 (cell 1 33 (s * (1 * 1) + seq_bos None 1 1 0 + t) 0 c))"
    by blast
  have "data db 0 = 2"
    using c[unfolded ev bv sp, rule_format, of 0 0] by (simp add: cell_def two)
  moreover have "data db 32 = fresh 3 32 + fresh 3 65"
    using c[unfolded ev bv sp, rule_format, of 0 32] by (simp add: cell_def two)
  ultimately show ?thesis using r sp by blast
qed





end
